(* ===== verification/Base.thy ===== *)
theory Base
  imports Main "HOL-Library.Word"
begin

text \<open>
  Prelude of the development: the machine integer types of the recorder, the named collections
  that carry the component proofs, and the generic facts on indices, lists and words that more
  than one component needs.
\<close>

unbundle bit_operations_syntax

type_synonym jint = "32 word"
type_synonym u32 = "32 word"
type_synonym u64 = "64 word"
type_synonym i64 = "64 word"
type_synonym byte = "8 word"
type_synonym addr = nat

named_theorems ring_simps \<open>index arithmetic of the circular buffer\<close>
named_theorems bytes_simps \<open>byte layout of values written to a stream\<close>
named_theorems table_simps \<open>field and cell updates of the hash table\<close>
named_theorems config_simps \<open>updates of the profiler's configuration\<close>

subsection \<open>Results of code that can go wrong\<close>

text \<open>
  The recorder is C++: an access out of bounds, a dereferenced null pointer, a read of a
  released object, a failed \<open>assert\<close>, an arithmetic overflow of a signed integer or a wait
  that no other thread can end are values here, so that a theorem that a call returns says that
  none of them happens.
\<close>

datatype fault =
    Out_Of_Bounds
  | Null_Deref
  | Use_After_Free
  | Double_Free
  | Spins_Forever
  | Assertion_Failed
  | Signed_Overflow
  | Division_By_Zero
  | Bad_Alloc
  | Uninitialised_Read

type_synonym 'a result = "fault + 'a"

fun and_then :: "'a result \<Rightarrow> ('a \<Rightarrow> 'b result) \<Rightarrow> 'b result" where
  "and_then (Inl e) f = Inl e"
| "and_then (Inr x) f = f x"

lemma and_then_eq_Inr [simp]:
  "and_then r f = Inr y \<longleftrightarrow> (\<exists>x. r = Inr x \<and> f x = Inr y)"
  by (cases r) auto

lemma and_then_assoc:
  "and_then (and_then r f) g = and_then r (\<lambda>x. and_then (f x) g)"
  by (cases r) auto

lemma and_then_cong [fundef_cong]:
  "r = r' \<Longrightarrow> (\<And>x. r' = Inr x \<Longrightarrow> f x = f' x) \<Longrightarrow> and_then r f = and_then r' f'"
  by (cases r') auto

subsection \<open>Indices in a window modulo a capacity\<close>

lemma mod_window_inj:
  fixes a b m :: nat
  assumes "a mod m = b mod m" and "a \<le> b" and "b < a + m"
  shows "a = b"
proof -
  from assms(1,2) have "m dvd b - a" by (metis mod_eq_dvd_iff_nat)
  moreover have "b - a < m" using assms(2,3) by arith
  ultimately have "b - a = 0" by (meson dvd_imp_le leD neq0_conv)
  then show ?thesis using assms(2) by simp
qed

lemma mod_window_neq:
  fixes a b m :: nat
  assumes "a \<noteq> b" and "lo \<le> a" and "lo \<le> b" and "a < lo + m" and "b < lo + m"
  shows "a mod m \<noteq> b mod m"
proof
  assume eq: "a mod m = b mod m"
  show False
  proof (cases "a \<le> b")
    case True
    then show ?thesis using mod_window_inj[of a m b] eq assms by simp
  next
    case False
    then show ?thesis using mod_window_inj[of b m a] eq[symmetric] assms by simp
  qed
qed

subsection \<open>Lists updated by index\<close>

lemma take_update_snoc:
  "i < length xs \<Longrightarrow> take (Suc i) (xs[i := x]) = take i xs @ [x]"
  by (simp add: take_Suc_conv_app_nth)

lemma drop_update_Suc:
  "i < length xs \<Longrightarrow> drop (Suc i) (xs[i := x]) = drop (Suc i) xs"
  by simp

lemma nth_append_last [simp]: "(xs @ [x]) ! length xs = x"
  by simp

lemma take_Suc_nth: "n < length xs \<Longrightarrow> take (Suc n) xs = take n xs @ [xs ! n]"
  by (rule take_Suc_conv_app_nth)

lemma take_snoc_le [simp]: "n \<le> length xs \<Longrightarrow> take n (xs @ [x]) = take n xs"
  by simp

lemma upt_Suc_Cons: "a < b \<Longrightarrow> [a..<b] = a # [Suc a..<b]"
  by (rule upt_conv_Cons)

subsection \<open>Counting threads\<close>

text \<open>How many threads are at program points with a property, when one of them moves.\<close>

lemma card_moved:
  assumes "finite {x. P (f x)}"
  shows "int (card {x. P ((f(t := l)) x)}) = int (card {x. P (f x)}) + of_bool (P l) - of_bool (P (f t))"
proof -
  let ?A = "{x. P (f x)}"
  have "{x. P ((f(t := l)) x)} = (if P l then insert t (?A - {t}) else ?A - {t})" by auto
  moreover have "int (card (?A - {t})) = int (card ?A) - of_bool (P (f t))"
    using card_Diff_singleton_if[of ?A t] card_gt_0_iff[of ?A] assms by (auto simp: of_nat_diff Suc_le_eq)
  moreover have "card (insert t (?A - {t})) = Suc (card (?A - {t}))"
    by (rule card_insert_disjoint) (use assms in simp_all)
  ultimately show ?thesis by simp
qed

end
