(* ===== verification/Stack_Traces.thy ===== *)
theory Stack_Traces
  imports Base
begin

text \<open>
  The JVMPI structures of \<^verbatim>\<open>stacktraces.h\<close>: a call frame, a call trace, and the error codes
  \<open>AsyncGetCallTrace\<close> reports in \<open>num_frames\<close>.

  The field \<open>frames\<close> is a pointer. The record is polymorphic in what stands for it: a list
  of frames for the array a sampler passes in, and the number of a slot where the pointer refers
  to a frame buffer of the queue.
\<close>

record call_frame =
  lineno :: jint
  method_id :: u64

record 'p call_trace =
  env_id :: u64
  num_frames :: jint
  frames :: 'p

lemma call_frame_eta [simp]: "\<lparr>lineno = lineno f, method_id = method_id f\<rparr> = (f :: call_frame)"
  by (cases f) simp

definition zero_frame :: call_frame where
  "zero_frame = \<lparr>lineno = 0, method_id = 0\<rparr>"

text \<open>
  \<open>for (int i = 0; i < num_frames; ...)\<close> runs this often: not at all for the negative codes.
\<close>

definition frame_count :: "'p call_trace \<Rightarrow> nat" where
  "frame_count t = nat (sint (num_frames t))"

datatype call_trace_error =
    kNativeStackTrace
  | kNoClassLoad
  | kGcTraceError
  | kUnknownNotJava
  | kNotWalkableFrameNotJava
  | kUnknownJava
  | kNotWalkableFrameJava
  | kUnknownState
  | kTicksThreadExit
  | kDeoptHandler
  | kSafepoint

fun error_code :: "call_trace_error \<Rightarrow> jint" where
  "error_code kNativeStackTrace = 0"
| "error_code kNoClassLoad = -1"
| "error_code kGcTraceError = -2"
| "error_code kUnknownNotJava = -3"
| "error_code kNotWalkableFrameNotJava = -4"
| "error_code kUnknownJava = -5"
| "error_code kNotWalkableFrameJava = -6"
| "error_code kUnknownState = -7"
| "error_code kTicksThreadExit = -8"
| "error_code kDeoptHandler = -9"
| "error_code kSafepoint = -10"

text \<open>What a reader of a trace may look at: the fields, and the first \<open>num_frames\<close> frames.\<close>

type_synonym sample = "u64 \<times> jint \<times> call_frame list"

definition view :: "call_frame list call_trace \<Rightarrow> sample" where
  "view t = (env_id t, num_frames t, take (frame_count t) (frames t))"

definition sample_of :: "call_frame list call_trace \<Rightarrow> addr option \<Rightarrow> sample \<times> addr option" where
  "sample_of t tb = (view t, tb)"

lemma frame_count_error_code [simp]: "num_frames t = error_code e \<Longrightarrow> frame_count t = 0"
  by (cases e) (simp_all add: frame_count_def)

end
