(* ===== verification/Queue_Interface.thy ===== *)
theory Queue_Interface
  imports Base
begin

text \<open>
  The contract between the trace queue and the code that uses it: the sampler that pushes and
  the processor that pops until the queue is empty (\<^verbatim>\<open>processor.cpp\<close>). The client side is
  proved here once, in the locale; \<open>Circular_Queue\<close> provides the operations and discharges the
  laws.

  \<open>deq rcd q s\<close> is a \<open>pop\<close> with listener \<open>rcd\<close> in the listener state \<open>s\<close>. It hands
  the listener an item of which only \<open>item_of\<close> is specified.
\<close>

text \<open>
  \<open>while (buffer_.pop()) { ++popped; }\<close>, with a bound on the number of iterations: \<open>None\<close>
  is a loop that is still running.
\<close>

fun drain :: "('q \<Rightarrow> 's \<Rightarrow> (bool \<times> 'q \<times> 's) result) \<Rightarrow> nat \<Rightarrow> nat \<Rightarrow> 'q \<Rightarrow> 's \<Rightarrow>
    (nat \<times> 'q \<times> 's) result option" where
  "drain pop 0 popped q s = None"
| "drain pop (Suc fuel) popped q s =
    (case pop q s of
       Inl e \<Rightarrow> Some (Inl e)
     | Inr (False, q', s') \<Rightarrow> Some (Inr (popped, q', s'))
     | Inr (True, q', s') \<Rightarrow> drain pop fuel (Suc popped) q' s')"

text \<open>Pushes one after the other, whose results the sampler ignores.\<close>

fun push_all :: "('a \<Rightarrow> 'i \<Rightarrow> 'q \<Rightarrow> (bool \<times> 'q) result) \<Rightarrow> ('a \<times> 'i) list \<Rightarrow> 'q \<Rightarrow> 'q result" where
  "push_all enq [] q = Inr q"
| "push_all enq ((a, i) # xs) q = and_then (enq a i q) (\<lambda>r. push_all enq xs (snd r))"

text \<open>A listener run over a list of items, stopping at its first fault.\<close>

fun deliver :: "('x \<Rightarrow> 's \<Rightarrow> 's result) \<Rightarrow> 'x list \<Rightarrow> 's \<Rightarrow> 's result" where
  "deliver r [] s = Inr s"
| "deliver r (x # xs) s = and_then (r x s) (deliver r xs)"

locale bounded_fifo =
  fixes wf :: "'q \<Rightarrow> bool"
    and contents :: "'q \<Rightarrow> 'x list"
    and room :: nat
    and accepts :: "'q \<Rightarrow> 'a \<Rightarrow> bool"
    and item_of :: "'a \<Rightarrow> 'i \<Rightarrow> 'x"
    and enq :: "'a \<Rightarrow> 'i \<Rightarrow> 'q \<Rightarrow> (bool \<times> 'q) result"
    and deq :: "('a \<Rightarrow> 'i \<Rightarrow> 's \<Rightarrow> 's result) \<Rightarrow> 'q \<Rightarrow> 's \<Rightarrow> (bool \<times> 'q \<times> 's) result"
  assumes enq_full: "wf q \<Longrightarrow> length (contents q) = room \<Longrightarrow> enq a i q = Inr (False, q)"
    and enq_room: "wf q \<Longrightarrow> accepts q a \<Longrightarrow> length (contents q) < room \<Longrightarrow>
      \<exists>q'. enq a i q = Inr (True, q') \<and> wf q' \<and> accepts q' = accepts q \<and>
        contents q' = contents q @ [item_of a i]"
    and bounded: "wf q \<Longrightarrow> length (contents q) \<le> room"
    and deq_empty: "wf q \<Longrightarrow> contents q = [] \<Longrightarrow> deq rcd q s = Inr (False, q, s)"
    and deq_some: "wf q \<Longrightarrow> contents q = x # xs \<Longrightarrow>
      \<exists>a i q'. item_of a i = x \<and> wf q' \<and> accepts q' = accepts q \<and> contents q' = xs \<and>
        deq rcd q s = and_then (rcd a i s) (\<lambda>s'. Inr (True, q', s'))"
begin

text \<open>A burst of pushes adds what there is room for, and drops the rest.\<close>

lemma push_all_contents:
  assumes "wf q" and "\<forall>x\<in>set xs. accepts q (fst x)"
  shows "\<exists>q'. push_all enq xs q = Inr q' \<and> wf q' \<and> accepts q' = accepts q \<and>
    contents q' = contents q @ take (room - length (contents q)) (map (\<lambda>(a, i). item_of a i) xs)"
  using assms
proof (induction xs arbitrary: q)
  case (Cons x xs)
  obtain a i where x: "x = (a, i)" by (cases x)
  show ?case
  proof (cases "length (contents q) = room")
    case True
    then show ?thesis using Cons.IH[OF Cons.prems(1)] Cons.prems(2) enq_full[OF Cons.prems(1) True] by (simp add: x)
  next
    case False
    then have lt: "length (contents q) < room" using bounded[OF Cons.prems(1)] by simp
    obtain q1 where q1: "enq a i q = Inr (True, q1)" "wf q1" "accepts q1 = accepts q"
      "contents q1 = contents q @ [item_of a i]"
      using enq_room[OF Cons.prems(1) _ lt, of a i] Cons.prems(2) x by auto
    have "room - length (contents q) = Suc (room - length (contents q1))" using lt q1(4) by simp
    then show ?thesis using Cons.IH[OF q1(2)] Cons.prems(2) q1 by (simp add: x)
  qed
qed simp

end

text \<open>
  The contract of \<open>QueueListener\<close>: what \<open>record\<close> does depends only on what an item shows
  (not on the stale frames behind it in the buffer it is read from).
\<close>

locale queue_listener =
  fixes item_of :: "'a \<Rightarrow> 'i \<Rightarrow> 'x"
    and rcd :: "'a \<Rightarrow> 'i \<Rightarrow> 's \<Rightarrow> 's result"
    and rcd_item :: "'x \<Rightarrow> 's \<Rightarrow> 's result"
  assumes by_item: "rcd a i s = rcd_item (item_of a i) s"

text \<open>A queue with its listener: draining it delivers the contents, in order, and empties it.\<close>

locale serviced_fifo =
  bounded_fifo wf contents room accepts item_of enq deq + queue_listener item_of rcd rcd_item
  for wf :: "'q \<Rightarrow> bool" and contents :: "'q \<Rightarrow> 'x list" and room :: nat
    and accepts :: "'q \<Rightarrow> 'a \<Rightarrow> bool" and item_of :: "'a \<Rightarrow> 'i \<Rightarrow> 'x"
    and enq :: "'a \<Rightarrow> 'i \<Rightarrow> 'q \<Rightarrow> (bool \<times> 'q) result"
    and deq :: "('a \<Rightarrow> 'i \<Rightarrow> 's \<Rightarrow> 's result) \<Rightarrow> 'q \<Rightarrow> 's \<Rightarrow> (bool \<times> 'q \<times> 's) result"
    and rcd :: "'a \<Rightarrow> 'i \<Rightarrow> 's \<Rightarrow> 's result"
    and rcd_item :: "'x \<Rightarrow> 's \<Rightarrow> 's result"
begin

lemma drain_delivers:
  assumes "wf q" and "length (contents q) < fuel"
  shows "\<exists>q'. wf q' \<and> accepts q' = accepts q \<and> contents q' = [] \<and> drain (deq rcd) fuel popped q s =
    Some (and_then (deliver rcd_item (contents q) s)
      (\<lambda>s'. Inr (popped + length (contents q), q', s')))"
  using assms
proof (induction "contents q" arbitrary: q s fuel popped)
  case Nil
  then obtain f where "fuel = Suc f" by (cases fuel) auto
  with Nil show ?case by (intro exI[of _ q]) (simp add: deq_empty)
next
  case (Cons x xs)
  obtain a i q' where q': "item_of a i = x" "wf q'" "contents q' = xs" "accepts q' = accepts q"
    and d: "deq rcd q s = and_then (rcd a i s) (\<lambda>s'. Inr (True, q', s'))"
    using deq_some[OF Cons.prems(1) Cons.hyps(2)[symmetric], of rcd s] by blast
  obtain f where f: "fuel = Suc f" using Cons.prems(2) by (cases fuel) auto
  have rx: "rcd a i s = rcd_item x s" using by_item[of a i s] q'(1) by simp
  show ?case
  proof (cases "rcd_item x s")
    case (Inl e)
    have ex: "\<exists>q''. wf q'' \<and> accepts q'' = accepts q \<and> contents q'' = []"
      using Cons.hyps(1)[of q' "Suc (length xs)"] q' by auto
    with Inl show ?thesis
      by (auto simp: f d rx Cons.hyps(2)[symmetric])
  next
    case (Inr s')
    have "length (contents q') < f" using Cons.prems(2) Cons.hyps(2)[symmetric] q'(3) f by simp
    from Cons.hyps(1)[OF q'(3)[symmetric] q'(2) this, of "Suc popped" s'] Inr q'(3,4)
    show ?thesis by (auto simp: f d rx Cons.hyps(2)[symmetric])
  qed
qed

end

end
