(* ===== verification/Circular_Queue.thy ===== *)
theory Circular_Queue
  imports Stack_Traces Queue_Interface
begin

text \<open>
  The trace queue of \<^verbatim>\<open>circular_queue.h\<close> and \<^verbatim>\<open>circular_queue.cpp\<close>: a ring of
  \<open>Capacity = Size + 1\<close> slots, each with a commit flag, a trace whose \<open>frames\<close> pointer
  refers to the slot's own frame buffer, and a thread bucket pointer. The operations here run
  without interference; \<open>Queue_Concurrency\<close> interleaves their atomic steps.
\<close>

definition Size :: nat where "Size = 1024"

definition Capacity :: nat where "Capacity = Size + 1"

definition COMMITTED :: int where "COMMITTED = 1"

definition UNCOMMITTED :: int where "UNCOMMITTED = 0"

lemma Capacity_eq [ring_simps]: "Capacity = 1025"
  by (simp add: Capacity_def Size_def)

lemma Size_eq [ring_simps]: "Size = 1024"
  by (simp add: Size_def)

lemma commit_flags [simp]: "COMMITTED \<noteq> UNCOMMITTED" "UNCOMMITTED \<noteq> COMMITTED"
  by (simp_all add: COMMITTED_def UNCOMMITTED_def)

text \<open>
  \<open>struct TraceHolder\<close>. Its trace's \<open>frames\<close> field is a pointer: \<open>None\<close> after the
  constructor's \<open>memset\<close>, \<open>Some s\<close> for \<open>frame_buffer_[s]\<close>.
\<close>

record trace_holder =
  is_committed :: int
  trace :: "nat option call_trace"
  info :: "addr option"

record queue =
  input_idx :: nat
  output_idx :: nat
  maxFrames :: nat
  buffer :: "trace_holder list"
  frame_buffer :: "call_frame list list"

definition zero_holder :: trace_holder where
  "zero_holder = \<lparr>is_committed = 0,
     trace = \<lparr>env_id = 0, num_frames = 0, frames = None\<rparr>, info = None\<rparr>"

lemma holder_overwrite [simp]:
  "h\<lparr>trace := t, info := b, is_committed := c\<rparr> = \<lparr>is_committed = c, trace = t, info = b\<rparr>"
  by (cases h) simp

definition new_queue :: "nat \<Rightarrow> queue" where
  "new_queue maxFrameSize =
     \<lparr>input_idx = 0, output_idx = 0, maxFrames = maxFrameSize,
      buffer = replicate Capacity zero_holder,
      frame_buffer = replicate Capacity (replicate maxFrameSize zero_frame)\<rparr>"

definition advance :: "nat \<Rightarrow> nat" where
  "advance index = (index + 1) mod Capacity"

subsection \<open>Writing a slot\<close>

text \<open>The copy loop of \<open>write\<close>: an index outside either array is a fault.\<close>

function copy_frames :: "call_frame list \<Rightarrow> call_frame list \<Rightarrow> nat \<Rightarrow> nat \<Rightarrow> call_frame list result" where
  "copy_frames fb src frame_num n =
     (if frame_num < n
      then if frame_num < length fb \<and> frame_num < length src
           then copy_frames (fb[frame_num := \<lparr>lineno = lineno (src ! frame_num),
                                               method_id = method_id (src ! frame_num)\<rparr>])
                  src (frame_num + 1) n
           else Inl Out_Of_Bounds
      else Inr fb)"
  by pat_completeness auto
termination
  by (relation "measure (\<lambda>(fb, src, frame_num, n). n - frame_num)") auto

declare copy_frames.simps [simp del]

definition write_slot :: "call_frame list call_trace \<Rightarrow> nat \<Rightarrow> queue \<Rightarrow> queue result" where
  "write_slot t slot q =
     and_then (copy_frames (frame_buffer q ! slot) (frames t) 0 (frame_count t)) (\<lambda>fb.
       Inr (q\<lparr>frame_buffer := (frame_buffer q)[slot := fb],
              buffer := (buffer q)[slot := (buffer q ! slot)\<lparr>trace :=
                \<lparr>env_id = env_id t, num_frames = num_frames t, frames = Some slot\<rparr>\<rparr>]\<rparr>))"

definition set_info :: "addr option \<Rightarrow> nat \<Rightarrow> queue \<Rightarrow> queue" where
  "set_info tb slot q =
     q\<lparr>buffer := (buffer q)[slot := (buffer q ! slot)\<lparr>info := tb\<rparr>]\<rparr>"

definition set_committed :: "int \<Rightarrow> nat \<Rightarrow> queue \<Rightarrow> queue" where
  "set_committed c slot q =
     q\<lparr>buffer := (buffer q)[slot := (buffer q ! slot)\<lparr>is_committed := c\<rparr>]\<rparr>"

text \<open>
  \<open>push\<close>. Alone, the compare-and-swap of the reservation loop succeeds on its first try.
\<close>

definition push :: "call_frame list call_trace \<Rightarrow> addr option \<Rightarrow> queue \<Rightarrow> (bool \<times> queue) result" where
  "push item tb q =
     (let currentInput = input_idx q; nextInput = advance currentInput in
      if output_idx q = nextInput then Inr (False, q)
      else and_then (write_slot item currentInput (q\<lparr>input_idx := nextInput\<rparr>)) (\<lambda>q1.
        Inr (True, set_committed COMMITTED currentInput (set_info tb currentInput q1))))"

subsection \<open>Reading a slot\<close>

definition load_trace :: "nat \<Rightarrow> queue \<Rightarrow> call_frame list call_trace result" where
  "load_trace slot q =
     (let t = trace (buffer q ! slot) in
      case frames t of
        None \<Rightarrow> Inl Null_Deref
      | Some s \<Rightarrow> Inr \<lparr>env_id = env_id t, num_frames = num_frames t, frames = frame_buffer q ! s\<rparr>)"

text \<open>The \<open>memset\<close> loop of \<open>pop\<close>.\<close>

function clear_frames :: "call_frame list \<Rightarrow> nat \<Rightarrow> nat \<Rightarrow> call_frame list result" where
  "clear_frames fb frame_num n =
     (if frame_num < n
      then if frame_num < length fb then clear_frames (fb[frame_num := zero_frame]) (frame_num + 1) n
           else Inl Out_Of_Bounds
      else Inr fb)"
  by pat_completeness auto
termination
  by (relation "measure (\<lambda>(fb, frame_num, n). n - frame_num)") auto

declare clear_frames.simps [simp del]

definition clear_slot :: "nat \<Rightarrow> queue \<Rightarrow> queue result" where
  "clear_slot slot q =
     and_then (clear_frames (frame_buffer q ! slot) 0 (frame_count (trace (buffer q ! slot)))) (\<lambda>fb.
       Inr (set_info None slot (q\<lparr>frame_buffer := (frame_buffer q)[slot := fb]\<rparr>)))"

text \<open>
  \<open>pop\<close>, with the listener's \<open>record\<close> as an argument. A slot that is reserved and not
  committed is waited for; with no other thread to commit it, the wait does not end.
\<close>

definition pop :: "(call_frame list call_trace \<Rightarrow> addr option \<Rightarrow> 's \<Rightarrow> 's result) \<Rightarrow>
    queue \<Rightarrow> 's \<Rightarrow> (bool \<times> queue \<times> 's) result" where
  "pop rcd q s =
     (let current_output = output_idx q in
      if current_output = input_idx q then Inr (False, q, s)
      else if is_committed (buffer q ! current_output) \<noteq> COMMITTED then Inl Spins_Forever
      else and_then (load_trace current_output q) (\<lambda>t.
           and_then (rcd t (info (buffer q ! current_output)) s) (\<lambda>s'.
           and_then (clear_slot current_output q) (\<lambda>q1.
             Inr (True, (set_committed UNCOMMITTED current_output q1)\<lparr>output_idx := advance current_output\<rparr>, s')))))"

subsection \<open>The loops\<close>

lemma copy_frames_ok:
  "k \<le> n \<Longrightarrow> n \<le> length fb \<Longrightarrow> n \<le> length src \<Longrightarrow> take k fb = take k src \<Longrightarrow>
   copy_frames fb src k n = Inr (take n src @ drop n fb)"
proof (induction fb src k n rule: copy_frames.induct)
  case (1 fb src k n)
  show ?case
  proof (cases "k < n")
    case True
    have tk: "take (Suc k) (fb[k := src ! k]) = take (Suc k) src"
      using True "1.prems" by (simp add: take_update_snoc take_Suc_nth)
    have "copy_frames fb src k n = copy_frames (fb[k := src ! k]) src (Suc k) n"
      using True "1.prems" by (simp add: copy_frames.simps[of fb src k n])
    also have "\<dots> = Inr (take n src @ drop n fb)"
      using "1.IH" True "1.prems" tk by simp
    finally show ?thesis .
  next
    case False
    with "1.prems" have "k = n" by simp
    have "fb = take n fb @ drop n fb" by simp
    with False "1.prems" \<open>k = n\<close> show ?thesis
      by (metis copy_frames.simps)
  qed
qed

lemma copy_frames_overrun:
  "k \<le> length fb \<Longrightarrow> length fb < n \<Longrightarrow> copy_frames fb src k n = Inl Out_Of_Bounds"
proof (induction fb src k n rule: copy_frames.induct)
  case (1 fb src k n)
  then show ?case by (simp add: copy_frames.simps[of fb src k n])
qed

lemma clear_frames_ok:
  "k \<le> n \<Longrightarrow> n \<le> length fb \<Longrightarrow>
   clear_frames fb k n = Inr (take k fb @ replicate (n - k) zero_frame @ drop n fb)"
proof (induction fb k n rule: clear_frames.induct)
  case (1 fb k n)
  show ?case
  proof (cases "k < n")
    case True
    have "replicate (n - k) zero_frame = zero_frame # replicate (n - Suc k) zero_frame"
      using True by (metis Suc_diff_Suc replicate_Suc)
    with True "1.prems" "1.IH" show ?thesis
      by (simp add: clear_frames.simps[of fb k n] take_update_snoc)
  next
    case False
    with "1.prems" have "k = n" by simp
    with "1.prems" show ?thesis by (simp add: clear_frames.simps[of fb n n])
  qed
qed

subsection \<open>The queue as a bounded list\<close>

definition used :: "queue \<Rightarrow> nat" where
  "used q = (if output_idx q \<le> input_idx q then input_idx q - output_idx q
             else input_idx q + Capacity - output_idx q)"

definition slot_at :: "queue \<Rightarrow> nat \<Rightarrow> nat" where
  "slot_at q k = (output_idx q + k) mod Capacity"

definition slot_sample :: "queue \<Rightarrow> nat \<Rightarrow> sample \<times> addr option" where
  "slot_sample q i =
     (let h = buffer q ! i; t = trace h in
      ((env_id t, num_frames t, take (frame_count t) (frame_buffer q ! i)), info h))"

definition contents :: "queue \<Rightarrow> (sample \<times> addr option) list" where
  "contents q = map (\<lambda>k. slot_sample q (slot_at q k)) [0..<used q]"

definition slot_ready :: "queue \<Rightarrow> nat \<Rightarrow> bool" where
  "slot_ready q i \<longleftrightarrow>
     is_committed (buffer q ! i) = COMMITTED \<and> frames (trace (buffer q ! i)) = Some i \<and>
     frame_count (trace (buffer q ! i)) \<le> maxFrames q"

definition wf_shape :: "queue \<Rightarrow> bool" where
  "wf_shape q \<longleftrightarrow> input_idx q < Capacity \<and> output_idx q < Capacity \<and>
     length (buffer q) = Capacity \<and> length (frame_buffer q) = Capacity \<and>
     (\<forall>i<Capacity. length (frame_buffer q ! i) = maxFrames q)"

definition wf_queue :: "queue \<Rightarrow> bool" where
  "wf_queue q \<longleftrightarrow> wf_shape q \<and>
     (\<forall>k<used q. slot_ready q (slot_at q k)) \<and>
     (\<forall>k. used q \<le> k \<and> k < Capacity \<longrightarrow>
        is_committed (buffer q ! slot_at q k) = UNCOMMITTED)"

text \<open>What a caller of \<open>push\<close> has to respect: the trace fits the frame buffers.\<close>

definition fits :: "queue \<Rightarrow> call_frame list call_trace \<Rightarrow> bool" where
  "fits q t \<longleftrightarrow> frame_count t \<le> maxFrames q \<and> frame_count t \<le> length (frames t)"

lemma wf_queueD:
  assumes "wf_queue q"
  shows "wf_shape q" and "k < used q \<Longrightarrow> slot_ready q (slot_at q k)"
    and "used q \<le> k \<Longrightarrow> k < Capacity \<Longrightarrow> is_committed (buffer q ! slot_at q k) = UNCOMMITTED"
  using assms by (auto simp: wf_queue_def)

lemma used_le_Size: "wf_shape q \<Longrightarrow> used q \<le> Size"
  by (auto simp: used_def wf_shape_def ring_simps)

lemma full_iff:
  "wf_shape q \<Longrightarrow> output_idx q = advance (input_idx q) \<longleftrightarrow> used q = Size"
  by (auto simp: used_def wf_shape_def advance_def ring_simps mod_Suc)

lemma empty_iff: "wf_shape q \<Longrightarrow> output_idx q = input_idx q \<longleftrightarrow> used q = 0"
  by (auto simp: used_def wf_shape_def ring_simps)

lemma slot_at_used: "wf_shape q \<Longrightarrow> slot_at q (used q) = input_idx q"
  by (auto simp: used_def slot_at_def wf_shape_def)

lemma slot_at_less [simp]: "slot_at q k < Capacity"
  by (simp add: slot_at_def ring_simps)

lemma slot_at_inj: "j < Capacity \<Longrightarrow> k < Capacity \<Longrightarrow> slot_at q j = slot_at q k \<longleftrightarrow> j = k"
  using mod_window_neq[of "output_idx q + j" "output_idx q + k" "output_idx q" Capacity]
  by (auto simp: slot_at_def)

lemma length_contents [simp]: "length (contents q) = used q"
  by (simp add: contents_def)

subsection \<open>push\<close>

definition stored :: "call_frame list call_trace \<Rightarrow> addr option \<Rightarrow> queue \<Rightarrow> queue" where
  "stored t tb q =
     (let i = input_idx q; n = frame_count t in
      q\<lparr>input_idx := advance i,
        frame_buffer := (frame_buffer q)[i := take n (frames t) @ drop n (frame_buffer q ! i)],
        buffer := (buffer q)[i := \<lparr>is_committed = COMMITTED,
          trace = \<lparr>env_id = env_id t, num_frames = num_frames t, frames = Some i\<rparr>, info = tb\<rparr>]\<rparr>)"

lemma push_full: "wf_shape q \<Longrightarrow> used q = Size \<Longrightarrow> push t tb q = Inr (False, q)"
  by (simp add: push_def full_iff)

lemma push_room:
  assumes "wf_shape q" and "used q < Size" and "fits q t"
  shows "push t tb q = Inr (True, stored t tb q)"
proof -
  have i: "input_idx q < length (buffer q)" "input_idx q < length (frame_buffer q)"
    and len: "length (frame_buffer q ! input_idx q) = maxFrames q"
    using assms(1) by (auto simp: wf_shape_def)
  have "copy_frames (frame_buffer q ! input_idx q) (frames t) 0 (frame_count t) =
      Inr (take (frame_count t) (frames t) @ drop (frame_count t) (frame_buffer q ! input_idx q))"
    using assms(3) len by (intro copy_frames_ok) (auto simp: fits_def)
  moreover have "output_idx q \<noteq> advance (input_idx q)"
    using assms by (simp add: full_iff)
  ultimately show ?thesis
    using i by (simp add: push_def write_slot_def stored_def set_info_def set_committed_def Let_def)
qed

lemma used_stored: "wf_shape q \<Longrightarrow> used q < Size \<Longrightarrow> used (stored t tb q) = Suc (used q)"
  by (auto simp: used_def stored_def wf_shape_def advance_def Let_def ring_simps mod_Suc)

lemma stored_other:
  assumes "wf_shape q" and "i < Capacity" and "i \<noteq> input_idx q"
  shows "buffer (stored t tb q) ! i = buffer q ! i"
    and "frame_buffer (stored t tb q) ! i = frame_buffer q ! i"
  using assms by (simp_all add: stored_def Let_def wf_shape_def)

lemma slot_at_stored [simp]: "slot_at (stored t tb q) k = slot_at q k"
  by (simp add: slot_at_def stored_def Let_def)

lemma maxFrames_stored [simp]: "maxFrames (stored t tb q) = maxFrames q"
  by (simp add: stored_def Let_def)

lemma wf_shape_stored: "wf_shape q \<Longrightarrow> fits q t \<Longrightarrow> wf_shape (stored t tb q)"
  by (auto simp: wf_shape_def stored_def fits_def Let_def advance_def ring_simps nth_list_update)

lemma slot_at_used_neq: "wf_shape q \<Longrightarrow> k < Capacity \<Longrightarrow> k \<noteq> used q \<Longrightarrow> slot_at q k \<noteq> input_idx q"
  using slot_at_inj[of k "used q" q] slot_at_used[of q] used_le_Size[of q] by (auto simp: ring_simps)

lemma stored_new:
  assumes "wf_shape q" and "fits q t"
  shows "slot_ready (stored t tb q) (input_idx q)"
    and "slot_sample (stored t tb q) (input_idx q) = sample_of t tb"
  using assms
  by (auto simp: slot_ready_def slot_sample_def sample_of_def view_def stored_def wf_shape_def
      fits_def Let_def frame_count_def)

lemma wf_stored:
  assumes wf: "wf_queue q" and room: "used q < Size" and fit: "fits q t"
  shows "wf_queue (stored t tb q)"
  unfolding wf_queue_def
proof (intro conjI allI impI)
  note sh = wf_queueD(1)[OF wf]
  show "wf_shape (stored t tb q)" using sh fit by (rule wf_shape_stored)
  show "slot_ready (stored t tb q) (slot_at (stored t tb q) k)" if "k < used (stored t tb q)" for k
  proof (cases "k = used q")
    case True
    then show ?thesis using stored_new(1)[OF sh fit] slot_at_used[OF sh] by simp
  next
    case False
    then have k: "k < used q" using that used_stored[OF sh room] by simp
    then have "slot_at q k \<noteq> input_idx q"
      using slot_at_used_neq[OF sh] room by (simp add: ring_simps)
    then show ?thesis
      using wf_queueD(2)[OF wf k] stored_other[OF sh slot_at_less] by (simp add: slot_ready_def)
  qed
  show "is_committed (buffer (stored t tb q) ! slot_at (stored t tb q) k) = UNCOMMITTED"
    if "used (stored t tb q) \<le> k \<and> k < Capacity" for k
  proof -
    have k: "used q < k" "k < Capacity" using that used_stored[OF sh room] by auto
    then have "slot_at q k \<noteq> input_idx q" using slot_at_used_neq[OF sh] by simp
    then show ?thesis
      using wf_queueD(3)[OF wf, of k] k stored_other(1)[OF sh slot_at_less] by simp
  qed
qed

lemma contents_stored:
  assumes sh: "wf_shape q" and room: "used q < Size" and fit: "fits q t"
  shows "contents (stored t tb q) = contents q @ [sample_of t tb]"
proof -
  have "slot_sample (stored t tb q) (slot_at q k) = slot_sample q (slot_at q k)" if "k < used q" for k
  proof -
    have "slot_at q k \<noteq> input_idx q"
      using slot_at_used_neq[OF sh, of k] that room by (simp add: ring_simps)
    then show ?thesis using stored_other[OF sh slot_at_less] by (simp add: slot_sample_def)
  qed
  then show ?thesis
    using stored_new(2)[OF sh fit] slot_at_used[OF sh] used_stored[OF sh room]
    by (simp add: contents_def)
qed

subsection \<open>pop\<close>

definition head_trace :: "queue \<Rightarrow> call_frame list call_trace" where
  "head_trace q =
     (let t = trace (buffer q ! output_idx q) in
      \<lparr>env_id = env_id t, num_frames = num_frames t, frames = frame_buffer q ! output_idx q\<rparr>)"

definition released :: "queue \<Rightarrow> queue" where
  "released q =
     (let i = output_idx q; h = buffer q ! i; n = frame_count (trace h) in
      q\<lparr>frame_buffer := (frame_buffer q)[i := replicate n zero_frame @ drop n (frame_buffer q ! i)],
        buffer := (buffer q)[i := h\<lparr>info := None, is_committed := UNCOMMITTED\<rparr>],
        output_idx := advance i\<rparr>)"

lemma slot_at_0 [simp]: "wf_shape q \<Longrightarrow> slot_at q 0 = output_idx q"
  by (simp add: slot_at_def wf_shape_def)

lemma pop_empty: "wf_shape q \<Longrightarrow> used q = 0 \<Longrightarrow> pop rcd q s = Inr (False, q, s)"
  by (simp add: pop_def flip: empty_iff)

lemma pop_some:
  assumes wf: "wf_queue q" and some: "0 < used q"
  shows "pop rcd q s =
    and_then (rcd (head_trace q) (info (buffer q ! output_idx q)) s) (\<lambda>s'. Inr (True, released q, s'))"
proof -
  note sh = wf_queueD(1)[OF wf]
  have ready: "slot_ready q (output_idx q)" using wf_queueD(2)[OF wf some] sh by simp
  have i: "output_idx q < length (buffer q)" "output_idx q < length (frame_buffer q)"
    and len: "length (frame_buffer q ! output_idx q) = maxFrames q"
    using sh by (auto simp: wf_shape_def)
  have ne: "output_idx q \<noteq> input_idx q" using some empty_iff[OF sh] by simp
  have ld: "load_trace (output_idx q) q = Inr (head_trace q)"
    using ready by (simp add: load_trace_def head_trace_def slot_ready_def Let_def)
  have "clear_slot (output_idx q) q = Inr (set_info None (output_idx q) (q\<lparr>frame_buffer :=
      (frame_buffer q)[output_idx q := replicate (frame_count (trace (buffer q ! output_idx q))) zero_frame @
        drop (frame_count (trace (buffer q ! output_idx q))) (frame_buffer q ! output_idx q)]\<rparr>))"
    using ready len by (simp add: clear_slot_def clear_frames_ok slot_ready_def)
  then show ?thesis
    using ready ne i
    by (simp add: pop_def ld slot_ready_def released_def set_info_def set_committed_def Let_def
        cong: and_then_cong)
qed

lemma item_of_head:
  "wf_queue q \<Longrightarrow> 0 < used q \<Longrightarrow>
   sample_of (head_trace q) (info (buffer q ! output_idx q)) = slot_sample q (output_idx q)"
  by (simp add: sample_of_def view_def head_trace_def slot_sample_def Let_def frame_count_def)

lemma contents_Cons:
  assumes "wf_shape q" and "0 < used q"
  shows "contents q = slot_sample q (output_idx q) # map (\<lambda>k. slot_sample q (slot_at q (Suc k))) [0..<used q - 1]"
proof -
  have "[0..<used q] = 0 # map Suc [0..<used q - 1]"
    using assms(2) by (simp add: upt_Suc_Cons map_Suc_upt)
  then show ?thesis using assms(1) by (simp add: contents_def)
qed

lemma used_released: "wf_shape q \<Longrightarrow> 0 < used q \<Longrightarrow> used (released q) = used q - 1"
  by (auto simp: used_def released_def wf_shape_def advance_def Let_def ring_simps mod_Suc)

lemma slot_at_released: "wf_shape q \<Longrightarrow> slot_at (released q) k = slot_at q (Suc k)"
  by (simp add: slot_at_def released_def Let_def advance_def mod_add_left_eq)

lemma maxFrames_released [simp]: "maxFrames (released q) = maxFrames q"
  by (simp add: released_def Let_def)

lemma released_other:
  assumes "wf_shape q" and "i < Capacity" and "i \<noteq> output_idx q"
  shows "buffer (released q) ! i = buffer q ! i"
    and "frame_buffer (released q) ! i = frame_buffer q ! i"
  using assms by (simp_all add: released_def Let_def wf_shape_def)

lemma slot_at_Suc_neq: "wf_shape q \<Longrightarrow> Suc k < Capacity \<Longrightarrow> slot_at q (Suc k) \<noteq> output_idx q"
  using slot_at_inj[of "Suc k" 0 q] by (simp add: ring_simps)

lemma wf_shape_released:
  assumes "wf_queue q" and "0 < used q"
  shows "wf_shape (released q)"
proof -
  note sh = wf_queueD(1)[OF assms(1)]
  have "slot_ready q (output_idx q)" using wf_queueD(2)[OF assms] sh by simp
  then show ?thesis using sh
    by (auto simp: wf_shape_def released_def Let_def advance_def ring_simps slot_ready_def nth_list_update)
qed

lemma wf_released:
  assumes wf: "wf_queue q" and some: "0 < used q"
  shows "wf_queue (released q)"
  unfolding wf_queue_def
proof (intro conjI allI impI)
  note sh = wf_queueD(1)[OF wf]
  have u: "used (released q) = used q - 1" using sh some by (rule used_released)
  have le: "used q \<le> Size" using sh by (rule used_le_Size)
  show "wf_shape (released q)" using wf some by (rule wf_shape_released)
  show "slot_ready (released q) (slot_at (released q) k)" if "k < used (released q)" for k
  proof -
    have k: "Suc k < used q" using that u by simp
    then have "slot_at q (Suc k) \<noteq> output_idx q"
      using slot_at_Suc_neq[OF sh] le by (simp add: ring_simps)
    then show ?thesis
      using wf_queueD(2)[OF wf k] released_other[OF sh slot_at_less]
      by (simp add: slot_ready_def slot_at_released[OF sh])
  qed
  show "is_committed (buffer (released q) ! slot_at (released q) k) = UNCOMMITTED"
    if "used (released q) \<le> k \<and> k < Capacity" for k
  proof (cases "Suc k < Capacity")
    case True
    then have "slot_at q (Suc k) \<noteq> output_idx q" by (rule slot_at_Suc_neq[OF sh])
    moreover have "used q \<le> Suc k" using that u by auto
    ultimately show ?thesis
      using wf_queueD(3)[OF wf _ True] released_other(1)[OF sh slot_at_less]
      by (simp add: slot_at_released[OF sh])
  next
    case False
    then have "Suc k = Capacity" using that by simp
    then have "slot_at (released q) k = output_idx q"
      using sh slot_at_released[OF sh, of k] by (simp add: slot_at_def wf_shape_def)
    then show ?thesis using sh by (simp add: released_def Let_def wf_shape_def)
  qed
qed

lemma contents_released:
  assumes wf: "wf_queue q" and some: "0 < used q"
  shows "contents q = slot_sample q (output_idx q) # contents (released q)"
proof -
  note sh = wf_queueD(1)[OF wf]
  have "slot_sample (released q) (slot_at (released q) k) = slot_sample q (slot_at q (Suc k))"
    if "k < used q - 1" for k
  proof -
    have "slot_at q (Suc k) \<noteq> output_idx q"
      using slot_at_Suc_neq[OF sh, of k] that used_le_Size[OF sh] by (simp add: ring_simps)
    then show ?thesis using released_other[OF sh slot_at_less]
      by (simp add: slot_sample_def slot_at_released[OF sh])
  qed
  then show ?thesis
    using contents_Cons[OF sh some] used_released[OF sh some] by (simp add: contents_def)
qed

subsection \<open>A fresh queue\<close>

lemma wf_new_queue: "wf_queue (new_queue n)" and contents_new_queue: "contents (new_queue n) = []"
  by (simp_all add: wf_queue_def wf_shape_def new_queue_def used_def contents_def slot_at_def
      zero_holder_def UNCOMMITTED_def ring_simps)

subsection \<open>The queue keeps its contract\<close>

interpretation trace_queue: bounded_fifo wf_queue contents Size fits sample_of push pop
proof unfold_locales
  fix q :: queue and a i
  assume wf: "wf_queue q"
  note sh = wf_queueD(1)[OF wf]
  show "push a i q = Inr (False, q)" if "length (contents q) = Size"
    using push_full[OF sh] that by simp
  show "\<exists>q'. push a i q = Inr (True, q') \<and> wf_queue q' \<and> fits q' = fits q \<and>
      contents q' = contents q @ [sample_of a i]"
    if "fits q a" "length (contents q) < Size"
    using push_room[OF sh] wf_stored[OF wf] contents_stored[OF sh] that by (simp add: fits_def fun_eq_iff)
  show "length (contents q) \<le> Size" using used_le_Size[OF sh] by simp
next
  fix q :: queue and rcd :: "call_frame list call_trace \<Rightarrow> addr option \<Rightarrow> 's \<Rightarrow> 's result" and s
  assume wf: "wf_queue q"
  note sh = wf_queueD(1)[OF wf]
  show "pop rcd q s = Inr (False, q, s)" if "contents q = []"
    using pop_empty[OF sh] that by (simp flip: length_0_conv)
  show "\<exists>a i q'. sample_of a i = x \<and> wf_queue q' \<and> fits q' = fits q \<and> contents q' = xs \<and>
      pop rcd q s = and_then (rcd a i s) (\<lambda>s'. Inr (True, q', s'))" if "contents q = x # xs" for x xs
  proof -
    have some: "0 < used q" using that by (metis length_contents length_greater_0_conv list.discI)
    have "fits (released q) = fits q" by (simp add: fits_def fun_eq_iff released_def Let_def)
    then show ?thesis
      using that contents_released[OF wf some] wf_released[OF wf some] item_of_head[OF wf some]
        pop_some[OF wf some, of rcd s]
      by (intro exI[of _ "head_trace q"] exI[of _ "info (buffer q ! output_idx q)"] exI[of _ "released q"]) auto
  qed
qed

end
