(* ===== verification/Queue_Concurrency.thy ===== *)
theory Queue_Concurrency
  imports Circular_Queue
begin

text \<open>
  The trace queue under concurrency. Signal handlers on any number of threads push, one processor
  thread pops. Each step of a thread is one atomic access of \<^verbatim>\<open>circular_queue.cpp\<close> to the
  shared indices or flags, or one block of plain writes to the slot the thread owns; the steps
  interleave freely (sequentially consistent memory; the code's \<open>relaxed\<close> accesses are not
  weakened further).

  The fields \<open>reserved\<close>, \<open>recorded\<close> and \<open>taken\<close> and the tickets in the program counters
  are auxiliary: the items in the order in which their reservations succeeded, what the listener
  has been given, the number of completed pops, and the number of reservations a producer had
  seen when it loaded \<open>input\<close>. No step reads them.
\<close>

type_synonym item = "call_frame list call_trace \<times> addr option"

datatype producer_pc =
    P_Idle
  | P_Load item
  | P_Check item nat nat
  | P_Cas item nat nat
  | P_Write item nat nat
  | P_Info item nat nat
  | P_Commit item nat nat
  | P_Done bool
  | P_Fault fault

datatype consumer_pc =
    C_Idle
  | C_Wait nat
  | C_Record nat
  | C_Clear nat
  | C_Uncommit nat
  | C_Advance nat
  | C_Fault fault

record qsys =
  q :: queue
  pcs :: "nat \<Rightarrow> producer_pc"
  cpc :: consumer_pc
  reserved :: "item list"
  recorded :: "(sample \<times> addr option) list"
  taken :: nat

definition init_sys :: "nat \<Rightarrow> qsys" where
  "init_sys maxFrameSize = \<lparr>q = new_queue maxFrameSize, pcs = (\<lambda>_. P_Idle), cpc = C_Idle,
     reserved = [], recorded = [], taken = 0\<rparr>"

lemma init_sys_sel [simp]:
  "q (init_sys m) = new_queue m" "pcs (init_sys m) = (\<lambda>_. P_Idle)" "cpc (init_sys m) = C_Idle"
  "reserved (init_sys m) = []" "recorded (init_sys m) = []" "taken (init_sys m) = 0"
  by (simp_all add: init_sys_def)

datatype event = Start nat item | Producer nat | Consumer

definition goto :: "nat \<Rightarrow> producer_pc \<Rightarrow> qsys \<Rightarrow> qsys" where
  "goto i pc s = s\<lparr>pcs := (pcs s)(i := pc)\<rparr>"

text \<open>The body of \<open>push\<close>, one atomic step at a time.\<close>

fun producer_step :: "nat \<Rightarrow> producer_pc \<Rightarrow> qsys \<Rightarrow> qsys" where
  "producer_step i (P_Load it) s =
     goto i (P_Check it (input_idx (q s)) (length (reserved s))) s"
| "producer_step i (P_Check it c k) s =
     (if output_idx (q s) = advance c then goto i (P_Done False) s else goto i (P_Cas it c k) s)"
| "producer_step i (P_Cas it c k) s =
     (if input_idx (q s) = c
      then goto i (P_Write it c (length (reserved s)))
             (s\<lparr>q := (q s)\<lparr>input_idx := advance c\<rparr>, reserved := reserved s @ [it]\<rparr>)
      else goto i (P_Load it) s)"
| "producer_step i (P_Write it c k) s =
     (case write_slot (fst it) c (q s) of
        Inl e \<Rightarrow> goto i (P_Fault e) s
      | Inr q' \<Rightarrow> goto i (P_Info it c k) (s\<lparr>q := q'\<rparr>))"
| "producer_step i (P_Info it c k) s =
     goto i (P_Commit it c k) (s\<lparr>q := set_info (snd it) c (q s)\<rparr>)"
| "producer_step i (P_Commit it c k) s =
     goto i (P_Done True) (s\<lparr>q := set_committed COMMITTED c (q s)\<rparr>)"
| "producer_step i _ s = s"

text \<open>The body of \<open>pop\<close>; an idle step on an empty queue is a \<open>pop\<close> that returns false.\<close>

fun consumer_step :: "consumer_pc \<Rightarrow> qsys \<Rightarrow> qsys" where
  "consumer_step C_Idle s =
     (if output_idx (q s) = input_idx (q s) then s else s\<lparr>cpc := C_Wait (output_idx (q s))\<rparr>)"
| "consumer_step (C_Wait c) s =
     (if is_committed (buffer (q s) ! c) = COMMITTED then s\<lparr>cpc := C_Record c\<rparr> else s)"
| "consumer_step (C_Record c) s =
     (case load_trace c (q s) of
        Inl e \<Rightarrow> s\<lparr>cpc := C_Fault e\<rparr>
      | Inr t \<Rightarrow> s\<lparr>recorded := recorded s @ [sample_of t (info (buffer (q s) ! c))], cpc := C_Clear c\<rparr>)"
| "consumer_step (C_Clear c) s =
     (case clear_slot c (q s) of
        Inl e \<Rightarrow> s\<lparr>cpc := C_Fault e\<rparr>
      | Inr q' \<Rightarrow> s\<lparr>q := q', cpc := C_Uncommit c\<rparr>)"
| "consumer_step (C_Uncommit c) s =
     s\<lparr>q := set_committed UNCOMMITTED c (q s), cpc := C_Advance c\<rparr>"
| "consumer_step (C_Advance c) s =
     s\<lparr>q := (q s)\<lparr>output_idx := advance c\<rparr>, cpc := C_Idle, taken := Suc (taken s)\<rparr>"
| "consumer_step (C_Fault e) s = s"

definition ready_to_start :: "producer_pc \<Rightarrow> bool" where
  "ready_to_start pc \<longleftrightarrow> (case pc of P_Idle \<Rightarrow> True | P_Done _ \<Rightarrow> True | _ \<Rightarrow> False)"

fun step :: "event \<Rightarrow> qsys \<Rightarrow> qsys" where
  "step (Start i it) s = (if ready_to_start (pcs s i) then goto i (P_Load it) s else s)"
| "step (Producer i) s = producer_step i (pcs s i) s"
| "step Consumer s = consumer_step (cpc s) s"

text \<open>
  Traces handed to \<open>push\<close> fit the frame buffers (the sampler asks for at most \<open>maxFrames\<close>).
\<close>

fun event_ok :: "qsys \<Rightarrow> event \<Rightarrow> bool" where
  "event_ok s (Start i it) = fits (q s) (fst it)"
| "event_ok s _ = True"

text \<open>
  A reservation is fresh when fewer than \<open>Capacity\<close> reservations of other producers fell
  between its load of \<open>input\<close> and its compare-and-swap.
\<close>

fun fresh :: "qsys \<Rightarrow> event \<Rightarrow> bool" where
  "fresh s (Producer i) =
     (case pcs s i of P_Cas it c k \<Rightarrow> length (reserved s) < k + Capacity | _ \<Rightarrow> True)"
| "fresh s _ = True"

text \<open>The runs of the code: all interleavings, and those whose reservations are fresh.\<close>

inductive reachable :: "nat \<Rightarrow> qsys \<Rightarrow> bool" for m where
  start: "reachable m (init_sys m)"
| step: "reachable m s \<Longrightarrow> event_ok s e \<Longrightarrow> reachable m (step e s)"

inductive fresh_reachable :: "nat \<Rightarrow> qsys \<Rightarrow> bool" for m where
  start: "fresh_reachable m (init_sys m)"
| step: "fresh_reachable m s \<Longrightarrow> event_ok s e \<Longrightarrow> fresh s e \<Longrightarrow> fresh_reachable m (step e s)"

subsection \<open>The invariant\<close>

fun ticket :: "producer_pc \<Rightarrow> nat option" where
  "ticket (P_Write it c k) = Some k"
| "ticket (P_Info it c k) = Some k"
| "ticket (P_Commit it c k) = Some k"
| "ticket _ = None"

fun cleared :: "consumer_pc \<Rightarrow> bool" where
  "cleared (C_Clear c) = True"
| "cleared (C_Uncommit c) = True"
| "cleared (C_Advance c) = True"
| "cleared _ = False"

definition base :: "qsys \<Rightarrow> nat" where
  "base s = (if cleared (cpc s) then Suc (taken s) else taken s)"

definition item_sample :: "item \<Rightarrow> sample \<times> addr option" where
  "item_sample it = sample_of (fst it) (snd it)"

definition wrote :: "queue \<Rightarrow> nat \<Rightarrow> item \<Rightarrow> bool" where
  "wrote qu c it \<longleftrightarrow> frames (trace (buffer qu ! c)) = Some c \<and> fst (slot_sample qu c) = view (fst it)"

definition uncommitted :: "queue \<Rightarrow> nat \<Rightarrow> bool" where
  "uncommitted qu c \<longleftrightarrow> is_committed (buffer qu ! c) = UNCOMMITTED"

definition committed_item :: "queue \<Rightarrow> nat \<Rightarrow> item \<Rightarrow> bool" where
  "committed_item qu c it \<longleftrightarrow> is_committed (buffer qu ! c) = COMMITTED \<and> wrote qu c it \<and>
     info (buffer qu ! c) = snd it"

definition owner :: "qsys \<Rightarrow> item \<Rightarrow> nat \<Rightarrow> nat \<Rightarrow> bool" where
  "owner s it c k \<longleftrightarrow> base s \<le> k \<and> k < length (reserved s) \<and> c = k mod Capacity \<and>
     reserved s ! k = it \<and> uncommitted (q s) c"

fun pc_ok :: "qsys \<Rightarrow> producer_pc \<Rightarrow> bool" where
  "pc_ok s (P_Load it) = fits (q s) (fst it)"
| "pc_ok s (P_Check it c k) = (fits (q s) (fst it) \<and> k \<le> length (reserved s) \<and> c = k mod Capacity)"
| "pc_ok s (P_Cas it c k) = (fits (q s) (fst it) \<and> k \<le> length (reserved s) \<and> c = k mod Capacity \<and>
     k < taken s + Size)"
| "pc_ok s (P_Write it c k) = owner s it c k"
| "pc_ok s (P_Info it c k) = (owner s it c k \<and> wrote (q s) c it)"
| "pc_ok s (P_Commit it c k) = (owner s it c k \<and> wrote (q s) c it \<and> info (buffer (q s) ! c) = snd it)"
| "pc_ok s (P_Fault e) = False"
| "pc_ok s _ = True"

fun cpc_ok :: "qsys \<Rightarrow> consumer_pc \<Rightarrow> bool" where
  "cpc_ok s C_Idle = True"
| "cpc_ok s (C_Wait c) = (taken s < length (reserved s) \<and> c = taken s mod Capacity)"
| "cpc_ok s (C_Record c) = (taken s < length (reserved s) \<and> c = taken s mod Capacity \<and>
     is_committed (buffer (q s) ! c) = COMMITTED)"
| "cpc_ok s (C_Clear c) = (taken s < length (reserved s) \<and> c = taken s mod Capacity \<and>
     committed_item (q s) c (reserved s ! taken s))"
| "cpc_ok s (C_Uncommit c) = (taken s < length (reserved s) \<and> c = taken s mod Capacity)"
| "cpc_ok s (C_Advance c) = (taken s < length (reserved s) \<and> c = taken s mod Capacity \<and> uncommitted (q s) c)"
| "cpc_ok s (C_Fault e) = False"

definition counters_ok :: "qsys \<Rightarrow> bool" where
  "counters_ok s \<longleftrightarrow> taken s \<le> length (reserved s) \<and> length (reserved s) \<le> taken s + Size \<and>
     input_idx (q s) = length (reserved s) mod Capacity \<and> output_idx (q s) = taken s mod Capacity \<and>
     wf_shape (q s) \<and> (\<forall>it\<in>set (reserved s). fits (q s) (fst it))"

definition slots_ok :: "qsys \<Rightarrow> bool" where
  "slots_ok s \<longleftrightarrow>
     (\<forall>n. base s \<le> n \<and> n < length (reserved s) \<longrightarrow>
        (\<exists>i. ticket (pcs s i) = Some n) \<or> committed_item (q s) (n mod Capacity) (reserved s ! n)) \<and>
     (\<forall>n. length (reserved s) \<le> n \<and> n < taken s + Capacity \<longrightarrow> uncommitted (q s) (n mod Capacity))"

definition exclusive :: "qsys \<Rightarrow> bool" where
  "exclusive s \<longleftrightarrow> (\<forall>i j k. ticket (pcs s i) = Some k \<and> ticket (pcs s j) = Some k \<longrightarrow> i = j)"

definition qinv :: "qsys \<Rightarrow> bool" where
  "qinv s \<longleftrightarrow> counters_ok s \<and> slots_ok s \<and> exclusive s \<and> (\<forall>i. pc_ok s (pcs s i)) \<and> cpc_ok s (cpc s) \<and>
     recorded s = map item_sample (take (base s) (reserved s))"

lemma qinvD:
  assumes "qinv s"
  shows "counters_ok s" and "slots_ok s" and "exclusive s" and "pc_ok s (pcs s i)" and "cpc_ok s (cpc s)"
    and "recorded s = map item_sample (take (base s) (reserved s))"
  using assms by (auto simp: qinv_def)

lemma base_simps [simp]:
  "base (s\<lparr>q := qu\<rparr>) = base s" "base (s\<lparr>pcs := p\<rparr>) = base s" "base (s\<lparr>reserved := r\<rparr>) = base s"
  by (simp_all add: base_def)

lemma wrote_cong:
  "buffer qu' ! c = buffer qu ! c \<Longrightarrow> frame_buffer qu' ! c = frame_buffer qu ! c \<Longrightarrow>
   wrote qu' c it = wrote qu c it"
  by (simp add: wrote_def slot_sample_def)

text \<open>A change of the queue that keeps the indices and touches no slot but \<open>c\<close>.\<close>

definition only_slot :: "nat \<Rightarrow> queue \<Rightarrow> queue \<Rightarrow> bool" where
  "only_slot c qu qu' \<longleftrightarrow> input_idx qu' = input_idx qu \<and> output_idx qu' = output_idx qu \<and>
     maxFrames qu' = maxFrames qu \<and> (wf_shape qu \<longrightarrow> wf_shape qu') \<and>
     (\<forall>j. j \<noteq> c \<longrightarrow> buffer qu' ! j = buffer qu ! j \<and> frame_buffer qu' ! j = frame_buffer qu ! j)"

lemma only_slotD:
  assumes "only_slot c qu qu'" and "j \<noteq> c"
  shows "wrote qu' j it = wrote qu j it" "uncommitted qu' j = uncommitted qu j"
    "committed_item qu' j it = committed_item qu j it" "buffer qu' ! j = buffer qu ! j"
  using assms wrote_cong[of qu' j qu it]
  by (auto simp: only_slot_def uncommitted_def committed_item_def)

lemma only_slot_fits: "only_slot c qu qu' \<Longrightarrow> fits qu' t = fits qu t"
  by (simp add: only_slot_def fits_def)

subsection \<open>Producer steps keep the invariant\<close>

lemma goto_simps [simp]:
  "q (goto i p s) = q s" "cpc (goto i p s) = cpc s" "reserved (goto i p s) = reserved s"
  "recorded (goto i p s) = recorded s" "taken (goto i p s) = taken s"
  "base (goto i p s) = base s" "pcs (goto i p s) j = (if j = i then p else pcs s j)"
  by (simp_all add: goto_def)

lemma pc_ok_goto [simp]: "pc_ok (goto i p s) pc = pc_ok s pc"
  by (cases pc) (simp_all add: owner_def)

lemma cpc_ok_goto [simp]: "cpc_ok (goto i p s) c = cpc_ok s c"
  by (cases c) simp_all

text \<open>A step that moves one producer, which holds no ticket before or after.\<close>

lemma qinv_local:
  assumes "qinv s" and "ticket (pcs s i) = None" and "ticket p = None" and "pc_ok s p"
  shows "qinv (goto i p s)"
proof -
  have "ticket (pcs (goto i p s) j) = ticket (pcs s j)" for j using assms(2,3) by simp
  then show ?thesis using assms(1,4)
    by (simp add: qinv_def counters_ok_def slots_ok_def exclusive_def)
qed

lemma slot_mod_inj:
  assumes "a mod Capacity = b mod Capacity" "t \<le> a" "t \<le> b" "a < t + Capacity" "b < t + Capacity"
  shows "a = b"
  using mod_window_neq[of a b t Capacity] assms by blast

lemma ticket_owner:
  assumes "qinv s" and "ticket (pcs s i) = Some k"
  obtains it where "owner s it (k mod Capacity) k"
proof -
  have "\<exists>it. owner s it (k mod Capacity) k"
    using qinvD(4)[OF assms(1), of i] assms(2)
    by (cases "pcs s i") (auto simp: owner_def)
  then show thesis using that by blast
qed

lemma ticket_slot_neq:
  assumes "qinv s" and "ticket (pcs s i) = Some k" and "ticket (pcs s j) = Some l" and "i \<noteq> j"
  shows "k mod Capacity \<noteq> l mod Capacity"
proof
  assume eq: "k mod Capacity = l mod Capacity"
  obtain it where k: "owner s it (k mod Capacity) k" using ticket_owner[OF assms(1,2)] .
  obtain it' where l: "owner s it' (l mod Capacity) l" using ticket_owner[OF assms(1,3)] .
  have "length (reserved s) \<le> taken s + Size" using qinvD(1)[OF assms(1)] by (simp add: counters_ok_def)
  moreover have "taken s \<le> base s" by (simp add: base_def)
  ultimately have "k = l"
    using slot_mod_inj[OF eq, of "taken s"] k l by (simp add: owner_def ring_simps)
  then show False using qinvD(3)[OF assms(1)] assms(2-4) by (auto simp: exclusive_def)
qed

text \<open>Another producer's ticket, the head slot and the free slots do not see a change of slot \<open>c\<close>.\<close>

lemma pc_ok_only_slot:
  assumes "pc_ok s pc" and "only_slot c (q s) qu" and "\<And>k. ticket pc = Some k \<Longrightarrow> k mod Capacity \<noteq> c"
  shows "pc_ok (s\<lparr>q := qu\<rparr>) pc"
  using assms only_slotD[OF assms(2)] only_slot_fits[OF assms(2)]
  by (cases pc) (auto simp: owner_def)

lemma cpc_ok_only_slot:
  assumes "cpc_ok s pc" and "only_slot c (q s) qu" and "taken s < length (reserved s) \<Longrightarrow> taken s mod Capacity \<noteq> c"
  shows "cpc_ok (s\<lparr>q := qu\<rparr>) pc"
  using assms only_slotD[OF assms(2)] by (cases pc) auto

lemma counters_only_slot:
  assumes "counters_ok s" and "only_slot c (q s) qu"
  shows "counters_ok (s\<lparr>q := qu\<rparr>)"
  using assms only_slot_fits[OF assms(2)] by (auto simp: counters_ok_def only_slot_def)

lemma owned_not_head:
  assumes inv: "qinv s" and tk: "ticket (pcs s i) = Some k" and cp: "cpc s = pc"
    and some: "taken s < length (reserved s)"
    and busy: "case pc of C_Idle \<Rightarrow> False | C_Wait c \<Rightarrow> False | _ \<Rightarrow> True"
  shows "taken s mod Capacity \<noteq> k mod Capacity"
proof
  assume eq: "taken s mod Capacity = k mod Capacity"
  obtain it where ow: "owner s it (k mod Capacity) k" using ticket_owner[OF inv tk] .
  have "length (reserved s) \<le> taken s + Size" using qinvD(1)[OF inv] by (simp add: counters_ok_def)
  moreover have "taken s \<le> base s" by (simp add: base_def)
  ultimately have "taken s = k"
    using slot_mod_inj[OF eq, of "taken s"] ow by (simp add: owner_def ring_simps)
  then show False
    using ow qinvD(5)[OF inv] busy cp
    by (cases pc) (auto simp: owner_def uncommitted_def base_def committed_item_def)
qed

lemma qinv_write:
  assumes inv: "qinv s" and tk: "ticket (pcs s i) = Some k"
    and tk': "ticket p = Some k \<or> ticket p = None \<and> committed_item qu (k mod Capacity) (reserved s ! k)"
    and only: "only_slot (k mod Capacity) (q s) qu" and ok: "pc_ok (s\<lparr>q := qu\<rparr>) p"
  shows "qinv (goto i p (s\<lparr>q := qu\<rparr>))" (is "qinv ?t")
proof -
  let ?c = "k mod Capacity"
  have tks: "ticket (pcs s j) = Some l" if "ticket (pcs ?t j) = Some l" for j l
    using tk tk' that by (auto split: if_splits)
  obtain it where ow: "owner s it ?c k" using ticket_owner[OF inv tk] .
  have len: "length (reserved s) \<le> taken s + Size" using qinvD(1)[OF inv] by (simp add: counters_ok_def)
  have bt: "taken s \<le> base s" by (simp add: base_def)
  have other: "n mod Capacity \<noteq> ?c" if "taken s \<le> n" "n < taken s + Capacity" "n \<noteq> k" for n
    using slot_mod_inj[of n k "taken s"] ow len bt that by (auto simp: owner_def ring_simps)
  have 1: "counters_ok ?t" using counters_only_slot[OF qinvD(1)[OF inv] only] by (simp add: counters_ok_def)
  have 2: "slots_ok ?t"
    unfolding slots_ok_def
  proof (intro conjI allI impI)
    fix n assume n: "base ?t \<le> n \<and> n < length (reserved ?t)"
    show "(\<exists>j. ticket (pcs ?t j) = Some n) \<or> committed_item (q ?t) (n mod Capacity) (reserved ?t ! n)"
    proof (cases "n = k")
      case True then show ?thesis using tk' by (auto intro: exI[of _ i])
    next
      case False
      then have "n mod Capacity \<noteq> ?c" using other[of n] n bt len by (simp add: ring_simps)
      moreover have "(\<exists>j. ticket (pcs s j) = Some n) \<or> committed_item (q s) (n mod Capacity) (reserved s ! n)"
        using qinvD(2)[OF inv] n by (simp add: slots_ok_def)
      moreover have "ticket (pcs ?t j) = Some n" if "ticket (pcs s j) = Some n" for j
        using that tk False by auto
      ultimately show ?thesis
        using only_slotD(3)[OF only] by (auto simp del: goto_simps(7))
    qed
  next
    fix n assume n: "length (reserved ?t) \<le> n \<and> n < taken ?t + Capacity"
    then have "n mod Capacity \<noteq> ?c" using other[of n] ow qinvD(1)[OF inv]
      by (auto simp: counters_ok_def owner_def)
    then show "uncommitted (q ?t) (n mod Capacity)"
      using qinvD(2)[OF inv] n only_slotD(2)[OF only] by (simp add: slots_ok_def)
  qed
  have 3: "exclusive ?t" using qinvD(3)[OF inv] tks unfolding exclusive_def by blast
  have 4: "pc_ok ?t (pcs ?t j)" for j
  proof (cases "j = i")
    case False
    have "pc_ok (s\<lparr>q := qu\<rparr>) (pcs s j)"
      using qinvD(4)[OF inv, of j] only
    proof (rule pc_ok_only_slot)
      show "l mod Capacity \<noteq> ?c" if "ticket (pcs s j) = Some l" for l
        using ticket_slot_neq[OF inv that tk False] .
    qed
    then show ?thesis using False by simp
  qed (use ok in simp)
  have 5: "cpc_ok ?t (cpc ?t)"
  proof (cases "case cpc s of C_Idle \<Rightarrow> False | C_Wait c \<Rightarrow> False | _ \<Rightarrow> True")
    case True
    then show ?thesis
      using cpc_ok_only_slot[OF qinvD(5)[OF inv] only] owned_not_head[OF inv tk refl] by simp
  next
    case False
    then show ?thesis using qinvD(5)[OF inv] by (cases "cpc s") auto
  qed
  have 6: "recorded ?t = map item_sample (take (base ?t) (reserved ?t))"
    using qinvD(6)[OF inv] by simp
  show ?thesis using 1 2 3 4 5 6 by (simp add: qinv_def)
qed

lemma base_le: "qinv s \<Longrightarrow> base s \<le> length (reserved s)"
  using qinvD(1,5)[of s] by (cases "cpc s") (auto simp: base_def counters_ok_def)

lemma pc_ok_reserve:
  assumes "pc_ok s pc"
  shows "pc_ok (s\<lparr>q := (q s)\<lparr>input_idx := c\<rparr>, reserved := reserved s @ [it]\<rparr>) pc"
proof -
  have w: "wrote ((q s)\<lparr>input_idx := c\<rparr>) d x = wrote (q s) d x" for d x by (rule wrote_cong) simp_all
  show ?thesis using assms
    by (cases pc) (auto simp: w owner_def uncommitted_def fits_def nth_append base_def)
qed

lemma cpc_ok_reserve:
  assumes "cpc_ok s pc"
  shows "cpc_ok (s\<lparr>q := (q s)\<lparr>input_idx := c\<rparr>, reserved := reserved s @ [it]\<rparr>) pc"
proof -
  have w: "wrote ((q s)\<lparr>input_idx := c\<rparr>) d x = wrote (q s) d x" for d x by (rule wrote_cong) simp_all
  show ?thesis using assms
    by (cases pc) (auto simp: w uncommitted_def committed_item_def nth_append)
qed

text \<open>The compare-and-swap that succeeds, on a fresh reservation.\<close>

lemma qinv_reserve:
  assumes inv: "qinv s" and pc: "pcs s i = P_Cas it c k" and eq: "input_idx (q s) = c"
    and fresh: "length (reserved s) < k + Capacity"
  shows "qinv (goto i (P_Write it c (length (reserved s)))
           (s\<lparr>q := (q s)\<lparr>input_idx := advance c\<rparr>, reserved := reserved s @ [it]\<rparr>))" (is "qinv (goto i ?p ?u)")
proof -
  let ?t = "goto i ?p ?u" and ?n = "length (reserved s)"
  note cnt = qinvD(1)[OF inv, unfolded counters_ok_def]
  have pk: "fits (q s) (fst it)" "k \<le> ?n" "c = k mod Capacity" "k < taken s + Size"
    using qinvD(4)[OF inv, of i] pc by auto
  have kn: "k = ?n" using slot_mod_inj[of k ?n k] pk(2,3) cnt eq fresh by (auto simp: ring_simps)
  have c: "c = ?n mod Capacity" using pk(3) kn by simp
  have free: "uncommitted (q s) c"
    using qinvD(2)[OF inv] c kn pk(4) by (simp add: slots_ok_def ring_simps)
  have tki: "ticket (pcs s i) = None" using pc by simp
  have less: "l < ?n" if "ticket (pcs s j) = Some l" for j l
    using ticket_owner[OF inv that] by (auto simp: owner_def)
  have w: "committed_item ((q s)\<lparr>input_idx := advance c\<rparr>) d x = committed_item (q s) d x" for d x
    using wrote_cong[of "(q s)\<lparr>input_idx := advance c\<rparr>" d "q s" x] by (simp add: committed_item_def)
  have inp: "advance c = Suc ?n mod Capacity" by (simp add: c advance_def mod_Suc_eq)
  have "wf_shape ((q s)\<lparr>input_idx := advance c\<rparr>)"
    using cnt by (simp add: wf_shape_def advance_def Capacity_def)
  moreover have "Suc ?n \<le> taken s + Size" using pk(4) kn by simp
  moreover have "fits ((q s)\<lparr>input_idx := advance c\<rparr>) t = fits (q s) t" for t by (simp add: fits_def)
  ultimately have 1: "counters_ok ?t"
    using cnt pk(1) inp unfolding counters_ok_def goto_simps by simp
  have 2: "slots_ok ?t"
    unfolding slots_ok_def
  proof (intro conjI allI impI)
    fix n assume n: "base ?t \<le> n \<and> n < length (reserved ?t)"
    show "(\<exists>j. ticket (pcs ?t j) = Some n) \<or> committed_item (q ?t) (n mod Capacity) (reserved ?t ! n)"
    proof (cases "n = ?n")
      case True then show ?thesis by (auto intro: exI[of _ i])
    next
      case False
      then have n': "base s \<le> n \<and> n < ?n" using n by auto
      then have "(\<exists>j. ticket (pcs s j) = Some n) \<or> committed_item (q s) (n mod Capacity) (reserved s ! n)"
        using qinvD(2)[OF inv] by (simp add: slots_ok_def)
      moreover have "ticket (pcs ?t j) = Some n" if "ticket (pcs s j) = Some n" for j
        using that tki by auto
      ultimately show ?thesis using n' by (auto simp: w nth_append simp del: goto_simps(7))
    qed
  next
    fix n assume "length (reserved ?t) \<le> n \<and> n < taken ?t + Capacity"
    then show "uncommitted (q ?t) (n mod Capacity)"
      using qinvD(2)[OF inv] by (simp add: slots_ok_def uncommitted_def)
  qed
  have 3: "exclusive ?t"
    unfolding exclusive_def
  proof (intro allI impI)
    fix a b l assume "ticket (pcs ?t a) = Some l \<and> ticket (pcs ?t b) = Some l"
    then show "a = b"
      using less[of a l] less[of b l] qinvD(3)[OF inv] by (auto simp: exclusive_def split: if_splits)
  qed
  have 4: "pc_ok ?t (pcs ?t j)" for j
  proof (cases "j = i")
    case True
    have "base s \<le> ?n" using inv by (rule base_le)
    then show ?thesis using True c free by (simp add: owner_def uncommitted_def)
  next
    case False
    then show ?thesis using pc_ok_reserve[OF qinvD(4)[OF inv, of j]] by simp
  qed
  have 5: "cpc_ok ?t (cpc ?t)" using cpc_ok_reserve[OF qinvD(5)[OF inv]] by simp
  have 6: "recorded ?t = map item_sample (take (base ?t) (reserved ?t))"
    using qinvD(6)[OF inv] base_le[OF inv] by simp
  show ?thesis using 1 2 3 4 5 6 by (simp add: qinv_def)
qed

text \<open>The three blocks that write the owned slot.\<close>

lemma wf_shapeD:
  assumes "wf_shape qu" and "c < Capacity"
  shows "c < length (buffer qu)" "c < length (frame_buffer qu)" "length (frame_buffer qu ! c) = maxFrames qu"
  using assms by (auto simp: wf_shape_def)

lemma write_slot_ok:
  assumes "wf_shape qu" and "c < Capacity" and "fits qu (fst it)"
  obtains qu' where "write_slot (fst it) c qu = Inr qu'" and "only_slot c qu qu'" and "wrote qu' c it"
    and "is_committed (buffer qu' ! c) = is_committed (buffer qu ! c)"
proof -
  note d = wf_shapeD[OF assms(1,2)]
  let ?n = "frame_count (fst it)"
  let ?fb = "take ?n (frames (fst it)) @ drop ?n (frame_buffer qu ! c)"
  let ?h = "(buffer qu ! c)\<lparr>trace := \<lparr>env_id = env_id (fst it), num_frames = num_frames (fst it), frames = Some c\<rparr>\<rparr>"
  let ?q = "qu\<lparr>frame_buffer := (frame_buffer qu)[c := ?fb], buffer := (buffer qu)[c := ?h]\<rparr>"
  have "copy_frames (frame_buffer qu ! c) (frames (fst it)) 0 ?n = Inr ?fb"
    using assms(3) d by (intro copy_frames_ok) (auto simp: fits_def)
  then have "write_slot (fst it) c qu = Inr ?q" by (simp add: write_slot_def)
  moreover have "only_slot c qu ?q"
    using assms d by (auto simp: only_slot_def wf_shape_def nth_list_update fits_def)
  moreover have "wrote ?q c it"
    using d assms(3) by (simp add: wrote_def slot_sample_def view_def frame_count_def fits_def Let_def)
  ultimately show thesis using that d by simp
qed

lemma set_info_only: "c < length (buffer qu) \<Longrightarrow> only_slot c qu (set_info tb c qu)"
  by (simp add: only_slot_def set_info_def wf_shape_def)

lemma set_committed_only: "c < length (buffer qu) \<Longrightarrow> only_slot c qu (set_committed v c qu)"
  by (simp add: only_slot_def set_committed_def wf_shape_def)

lemma set_info_at:
  assumes "c < length (buffer qu)"
  shows "wrote (set_info tb c qu) c it = wrote qu c it" "info (buffer (set_info tb c qu) ! c) = tb"
    "is_committed (buffer (set_info tb c qu) ! c) = is_committed (buffer qu ! c)"
  using assms by (simp_all add: set_info_def wrote_def slot_sample_def Let_def)

lemma set_committed_at:
  assumes "c < length (buffer qu)"
  shows "wrote (set_committed v c qu) c it = wrote qu c it"
    "info (buffer (set_committed v c qu) ! c) = info (buffer qu ! c)"
    "is_committed (buffer (set_committed v c qu) ! c) = v"
  using assms by (simp_all add: set_committed_def wrote_def slot_sample_def Let_def)

lemma owner_facts:
  assumes "qinv s" and "owner s it c k"
  shows "c = k mod Capacity" and "c < Capacity" and "c < length (buffer (q s))" and "wf_shape (q s)"
    and "fits (q s) (fst it)" and "reserved s ! k = it" and "uncommitted (q s) c"
    and "base s \<le> k" and "k < length (reserved s)"
  using assms(2) qinvD(1)[OF assms(1)] by (auto simp: owner_def counters_ok_def wf_shape_def Capacity_def)

lemma qinv_P_Write:
  assumes inv: "qinv s" and pc: "pcs s i = P_Write it c k"
  shows "qinv (producer_step i (P_Write it c k) s)"
proof -
  have ow: "owner s it c k" using qinvD(4)[OF inv, of i] pc by simp
  note f = owner_facts[OF inv ow]
  obtain qu where w: "write_slot (fst it) c (q s) = Inr qu" "only_slot c (q s) qu" "wrote qu c it"
    "is_committed (buffer qu ! c) = is_committed (buffer (q s) ! c)"
    using write_slot_ok[OF f(4,2,5)] .
  have "qinv (goto i (P_Info it c k) (s\<lparr>q := qu\<rparr>))"
    using inv pc w f by (intro qinv_write[where k = k]) (auto simp: owner_def uncommitted_def)
  then show ?thesis using w(1) by simp
qed

lemma qinv_P_Info:
  assumes inv: "qinv s" and pc: "pcs s i = P_Info it c k"
  shows "qinv (producer_step i (P_Info it c k) s)"
proof -
  have ow: "owner s it c k" and w: "wrote (q s) c it" using qinvD(4)[OF inv, of i] pc by simp_all
  note f = owner_facts[OF inv ow]
  have "qinv (goto i (P_Commit it c k) (s\<lparr>q := set_info (snd it) c (q s)\<rparr>))"
    using inv pc w f set_info_at[OF f(3)] set_info_only[OF f(3)]
    by (intro qinv_write[where k = k]) (auto simp: owner_def uncommitted_def)
  then show ?thesis by simp
qed

lemma qinv_P_Commit:
  assumes inv: "qinv s" and pc: "pcs s i = P_Commit it c k"
  shows "qinv (producer_step i (P_Commit it c k) s)"
proof -
  have ow: "owner s it c k" and w: "wrote (q s) c it" "info (buffer (q s) ! c) = snd it"
    using qinvD(4)[OF inv, of i] pc by simp_all
  note f = owner_facts[OF inv ow]
  have "qinv (goto i (P_Done True) (s\<lparr>q := set_committed COMMITTED c (q s)\<rparr>))"
    using inv pc w f set_committed_at[OF f(3)] set_committed_only[OF f(3)]
    by (intro qinv_write[where k = k]) (auto simp: committed_item_def)
  then show ?thesis by simp
qed

lemma qinv_P_Check:
  assumes inv: "qinv s" and pc: "pcs s i = P_Check it c k"
  shows "qinv (producer_step i (P_Check it c k) s)"
proof (cases "output_idx (q s) = advance c")
  case True
  then show ?thesis using qinv_local[OF inv, of i "P_Done False"] pc by simp
next
  case False
  have ok: "fits (q s) (fst it)" "k \<le> length (reserved s)" "c = k mod Capacity"
    using qinvD(4)[OF inv, of i] pc by auto
  note cnt = qinvD(1)[OF inv, unfolded counters_ok_def]
  have "k \<noteq> taken s + Size"
  proof
    assume "k = taken s + Size"
    then have "Suc k = taken s + Capacity" by (simp add: Capacity_def)
    then have "advance c = output_idx (q s)"
      using ok(3) cnt by (simp add: advance_def mod_Suc_eq)
    then show False using False by simp
  qed
  then have "pc_ok s (P_Cas it c k)" using ok cnt by simp
  then show ?thesis using qinv_local[OF inv, of i "P_Cas it c k"] pc False by simp
qed

lemma qinv_producer:
  assumes inv: "qinv s" and fr: "fresh s (Producer i)"
  shows "qinv (step (Producer i) s)"
proof (cases "pcs s i")
  case (P_Load it)
  have "pc_ok s (P_Check it (input_idx (q s)) (length (reserved s)))"
    using qinvD(4)[OF inv, of i] P_Load qinvD(1)[OF inv] by (simp add: counters_ok_def)
  then show ?thesis using P_Load inv by (simp add: qinv_local)
next
  case (P_Check it c k)
  then show ?thesis using qinv_P_Check[OF inv] by simp
next
  case (P_Cas it c k)
  show ?thesis
  proof (cases "input_idx (q s) = c")
    case True
    then show ?thesis using qinv_reserve[OF inv P_Cas True] P_Cas fr by simp
  next
    case False
    have "pc_ok s (P_Load it)" using qinvD(4)[OF inv, of i] P_Cas by simp
    then show ?thesis using P_Cas inv False by (simp add: qinv_local)
  qed
qed (use inv qinv_P_Write[OF inv] qinv_P_Info[OF inv] qinv_P_Commit[OF inv] in simp_all)

subsection \<open>Consumer steps keep the invariant\<close>

lemma pc_ok_cong:
  assumes "pc_ok s pc" and "q t = q s" and "reserved t = reserved s" and "taken s \<le> taken t"
    and "\<And>k. ticket pc = Some k \<Longrightarrow> base s \<le> k \<Longrightarrow> base t \<le> k"
  shows "pc_ok t pc"
  using assms by (cases pc) (auto simp: owner_def)

lemma qinv_cpc:
  assumes "qinv s" and "cleared c = cleared (cpc s)" and "cpc_ok s c"
  shows "qinv (s\<lparr>cpc := c\<rparr>)"
proof -
  have b: "base (s\<lparr>cpc := c\<rparr>) = base s" using assms(2) by (simp add: base_def)
  have "pc_ok (s\<lparr>cpc := c\<rparr>) (pcs s i)" for i
    using pc_ok_cong[OF qinvD(4)[OF assms(1), of i], of "s\<lparr>cpc := c\<rparr>"] b by simp
  moreover have "cpc_ok (s\<lparr>cpc := c\<rparr>) c" using assms(3) by (cases c) simp_all
  ultimately show ?thesis
    using assms(1) b by (simp add: qinv_def counters_ok_def slots_ok_def exclusive_def)
qed

lemma head_ready:
  assumes inv: "qinv s" and "base s = taken s" and "taken s < length (reserved s)"
    and cm: "is_committed (buffer (q s) ! (taken s mod Capacity)) = COMMITTED"
  shows "committed_item (q s) (taken s mod Capacity) (reserved s ! taken s)"
    and "ticket (pcs s i) \<noteq> Some (taken s)"
proof -
  show no: "ticket (pcs s i) \<noteq> Some (taken s)" for i
  proof
    assume "ticket (pcs s i) = Some (taken s)"
    then obtain it where "owner s it (taken s mod Capacity) (taken s)" using ticket_owner[OF inv] by blast
    then show False using cm by (simp add: owner_def uncommitted_def)
  qed
  show "committed_item (q s) (taken s mod Capacity) (reserved s ! taken s)"
    using qinvD(2)[OF inv] assms(2,3) no by (auto simp: slots_ok_def)
qed

lemma load_trace_wrote:
  assumes "wrote qu c it" and "info (buffer qu ! c) = snd it"
  obtains t where "load_trace c qu = Inr t" and "sample_of t (info (buffer qu ! c)) = item_sample it"
proof -
  let ?h = "trace (buffer qu ! c)"
  let ?t = "\<lparr>env_id = env_id ?h, num_frames = num_frames ?h, frames = frame_buffer qu ! c\<rparr>"
  have "view ?t = view (fst it)"
    using assms(1) by (auto simp: wrote_def slot_sample_def view_def frame_count_def Let_def)
  moreover have "load_trace c qu = Inr ?t" using assms(1) by (simp add: load_trace_def wrote_def Let_def)
  ultimately show thesis using that assms(2) by (simp add: sample_of_def item_sample_def)
qed

lemma qinv_C_Record:
  assumes inv: "qinv s" and pc: "cpc s = C_Record c"
  shows "qinv (consumer_step (C_Record c) s)"
proof -
  have ok: "taken s < length (reserved s)" "c = taken s mod Capacity"
    "is_committed (buffer (q s) ! c) = COMMITTED"
    using qinvD(5)[OF inv] pc by auto
  have b: "base s = taken s" using pc by (simp add: base_def)
  note hd = head_ready[OF inv b ok(1) ok(3)[unfolded ok(2)]]
  then have w: "wrote (q s) c (reserved s ! taken s)" "info (buffer (q s) ! c) = snd (reserved s ! taken s)"
    using ok(2) by (simp_all add: committed_item_def)
  obtain t where t: "load_trace c (q s) = Inr t"
    "sample_of t (info (buffer (q s) ! c)) = item_sample (reserved s ! taken s)"
    using load_trace_wrote[OF w] .
  let ?t = "s\<lparr>recorded := recorded s @ [item_sample (reserved s ! taken s)], cpc := C_Clear c\<rparr>"
  have b': "base ?t = Suc (taken s)" by (simp add: base_def)
  have "pc_ok ?t (pcs s i)" for i
  proof (rule pc_ok_cong[OF qinvD(4)[OF inv, of i]])
    show "base ?t \<le> k" if "ticket (pcs s i) = Some k" "base s \<le> k" for k
      using that hd(2)[of i] b b' by (cases "k = taken s") auto
  qed simp_all
  moreover have "recorded ?t = map item_sample (take (Suc (taken s)) (reserved s))"
    using qinvD(6)[OF inv] b ok(1) by (simp add: take_Suc_nth)
  ultimately have "qinv ?t"
    using qinvD[OF inv] b b' hd(1) ok
    by (simp add: qinv_def counters_ok_def slots_ok_def exclusive_def)
  then show ?thesis using t by simp
qed

lemma qinv_head_slot:
  assumes inv: "qinv s" and cl: "cleared (cpc s)" "cleared c'"
    and some: "taken s < length (reserved s)"
    and only: "only_slot (taken s mod Capacity) (q s) qu" and ok: "cpc_ok (s\<lparr>q := qu\<rparr>) c'"
  shows "qinv (s\<lparr>q := qu, cpc := c'\<rparr>)" (is "qinv ?t")
proof -
  let ?c = "taken s mod Capacity"
  have b: "base s = Suc (taken s)" "base ?t = Suc (taken s)" using cl by (simp_all add: base_def)
  have len: "length (reserved s) \<le> taken s + Size" using qinvD(1)[OF inv] by (simp add: counters_ok_def)
  have other: "n mod Capacity \<noteq> ?c" if "taken s < n" "n < taken s + Capacity" for n
    using slot_mod_inj[of n "taken s" "taken s"] that by (auto simp: Capacity_def)
  have 1: "counters_ok ?t" using counters_only_slot[OF qinvD(1)[OF inv] only] by (simp add: counters_ok_def)
  have "n mod Capacity \<noteq> ?c" if "Suc (taken s) \<le> n" "n < length (reserved s)" for n
    using other[of n] that len by (simp add: Capacity_def)
  then have 2: "slots_ok ?t"
    using qinvD(2)[OF inv] b only_slotD(2,3)[OF only] other some
    by (simp add: slots_ok_def)
  have 3: "exclusive ?t" using qinvD(3)[OF inv] by (simp add: exclusive_def)
  have 4: "pc_ok ?t (pcs s j)" for j
  proof -
    have "pc_ok (s\<lparr>q := qu\<rparr>) (pcs s j)"
      using qinvD(4)[OF inv, of j] only
    proof (rule pc_ok_only_slot)
      fix k assume "ticket (pcs s j) = Some k"
      then obtain it where "owner s it (k mod Capacity) k" using ticket_owner[OF inv] by blast
      then show "k mod Capacity \<noteq> ?c" using other[of k] len b by (simp add: owner_def Capacity_def)
    qed
    then show ?thesis by (rule pc_ok_cong) (simp_all add: b)
  qed
  have 5: "cpc_ok ?t c'" using ok by (cases c') simp_all
  show ?thesis using 1 2 3 4 5 qinvD(6)[OF inv] b by (simp add: qinv_def)
qed

lemma qinv_C_Clear:
  assumes inv: "qinv s" and pc: "cpc s = C_Clear c"
  shows "qinv (consumer_step (C_Clear c) s)"
proof -
  have ok: "taken s < length (reserved s)" "c = taken s mod Capacity"
    "committed_item (q s) c (reserved s ! taken s)"
    using qinvD(5)[OF inv] pc by auto
  note cnt = qinvD(1)[OF inv, unfolded counters_ok_def]
  have cl: "c < Capacity" using ok(2) by (simp add: Capacity_def)
  have sh: "wf_shape (q s)" using cnt by simp
  note d = wf_shapeD[OF sh cl]
  let ?n = "frame_count (trace (buffer (q s) ! c))"
  have "num_frames (trace (buffer (q s) ! c)) = num_frames (fst (reserved s ! taken s))"
    using ok(3) by (simp add: committed_item_def wrote_def slot_sample_def view_def Let_def)
  moreover have "fits (q s) (fst (reserved s ! taken s))" using cnt ok(1) by simp
  ultimately have n: "?n \<le> maxFrames (q s)" by (simp add: fits_def frame_count_def)
  let ?fb = "replicate ?n zero_frame @ drop ?n (frame_buffer (q s) ! c)"
  let ?u = "(q s)\<lparr>frame_buffer := (frame_buffer (q s))[c := ?fb]\<rparr>"
  have cs: "clear_slot c (q s) = Inr (set_info None c ?u)"
    using n d by (simp add: clear_slot_def clear_frames_ok)
  have "only_slot c (q s) (set_info None c ?u)"
    using d n sh by (auto simp: only_slot_def set_info_def wf_shape_def nth_list_update)
  then have "qinv (s\<lparr>q := set_info None c ?u, cpc := C_Uncommit c\<rparr>)"
    using inv pc ok by (intro qinv_head_slot) simp_all
  then show ?thesis using cs by simp
qed

lemma qinv_C_Uncommit:
  assumes inv: "qinv s" and pc: "cpc s = C_Uncommit c"
  shows "qinv (consumer_step (C_Uncommit c) s)"
proof -
  have ok: "taken s < length (reserved s)" "c = taken s mod Capacity"
    using qinvD(5)[OF inv] pc by auto
  have "c < length (buffer (q s))"
    using wf_shapeD(1)[of "q s" c] qinvD(1)[OF inv] ok(2) by (simp add: counters_ok_def Capacity_def)
  then show ?thesis
    using qinv_head_slot[OF inv, of "C_Advance c"] pc ok set_committed_only set_committed_at(3)
    by (simp add: uncommitted_def)
qed

lemma qinv_C_Advance:
  assumes inv: "qinv s" and pc: "cpc s = C_Advance c"
  shows "qinv (consumer_step (C_Advance c) s)"
proof -
  let ?t = "s\<lparr>q := (q s)\<lparr>output_idx := advance c\<rparr>, cpc := C_Idle, taken := Suc (taken s)\<rparr>"
  have ok: "taken s < length (reserved s)" "c = taken s mod Capacity" "uncommitted (q s) c"
    using qinvD(5)[OF inv] pc by auto
  note cnt = qinvD(1)[OF inv, unfolded counters_ok_def]
  have b: "base s = Suc (taken s)" "base ?t = Suc (taken s)" using pc by (simp_all add: base_def)
  have w: "wrote ((q s)\<lparr>output_idx := v\<rparr>) d it = wrote (q s) d it" for v d it
    by (rule wrote_cong) simp_all
  have ci: "committed_item ((q s)\<lparr>output_idx := v\<rparr>) d it = committed_item (q s) d it"
    "uncommitted ((q s)\<lparr>output_idx := v\<rparr>) d = uncommitted (q s) d"
    "fits ((q s)\<lparr>output_idx := v\<rparr>) tr = fits (q s) tr" for v d it tr
    by (simp_all add: committed_item_def w uncommitted_def fits_def)
  have adv: "advance c = Suc (taken s) mod Capacity" by (simp add: ok(2) advance_def mod_Suc_eq)
  have "wf_shape ((q s)\<lparr>output_idx := advance c\<rparr>)" using cnt by (simp add: wf_shape_def advance_def Capacity_def)
  then have 1: "counters_ok ?t" using cnt ok(1) adv by (simp add: counters_ok_def ci)
  have "uncommitted (q s) (n mod Capacity)"
    if "length (reserved s) \<le> n" "n < Suc (taken s) + Capacity" for n
  proof (cases "n = taken s + Capacity")
    case True then show ?thesis using ok(2,3) by simp
  next
    case False then show ?thesis using qinvD(2)[OF inv] that by (simp add: slots_ok_def)
  qed
  then have 2: "slots_ok ?t" using qinvD(2)[OF inv] b by (simp add: slots_ok_def ci)
  have 4: "pc_ok ?t (pcs s i)" for i
    using qinvD(4)[OF inv, of i] b by (cases "pcs s i") (auto simp: owner_def w ci)
  have "qinv ?t" using 1 2 4 qinvD(3,6)[OF inv] b by (simp add: qinv_def exclusive_def)
  then show ?thesis by simp
qed

lemma qinv_consumer:
  assumes inv: "qinv s"
  shows "qinv (step Consumer s)"
proof (cases "cpc s")
  case C_Idle
  note cnt = qinvD(1)[OF inv, unfolded counters_ok_def]
  have "cpc_ok s (C_Wait (output_idx (q s)))" if "output_idx (q s) \<noteq> input_idx (q s)"
    using that cnt by (cases "taken s = length (reserved s)") simp_all
  then show ?thesis using inv C_Idle qinv_cpc[OF inv] by simp
next
  case (C_Wait c)
  have "cpc_ok s (C_Record c)" if "is_committed (buffer (q s) ! c) = COMMITTED"
    using that qinvD(5)[OF inv] C_Wait by simp
  then show ?thesis using inv C_Wait qinv_cpc[OF inv] by simp
next
  case (C_Record c) then show ?thesis using qinv_C_Record[OF inv] by (simp del: consumer_step.simps)
next
  case (C_Clear c) then show ?thesis using qinv_C_Clear[OF inv] by (simp del: consumer_step.simps)
next
  case (C_Uncommit c) then show ?thesis using qinv_C_Uncommit[OF inv] by (simp del: consumer_step.simps)
next
  case (C_Advance c) then show ?thesis using qinv_C_Advance[OF inv] by (simp del: consumer_step.simps)
next
  case (C_Fault e) then show ?thesis using qinvD(5)[OF inv] by simp
qed

lemma qinv_step:
  assumes inv: "qinv s" and "event_ok s e" and "fresh s e"
  shows "qinv (step e s)"
proof (cases e)
  case (Start i it)
  have "ticket (pcs s i) = None" if "ready_to_start (pcs s i)"
    using that by (cases "pcs s i") (auto simp: ready_to_start_def)
  then show ?thesis using inv assms(2) Start by (simp add: qinv_local)
next
  case (Producer i)
  then show ?thesis using qinv_producer[OF inv] assms(3) by blast
next
  case Consumer
  then show ?thesis using qinv_consumer[OF inv] by simp
qed

lemma qinv_init: "qinv (init_sys m)"
  using wf_new_queue[of m]
  by (auto simp: qinv_def init_sys_def counters_ok_def slots_ok_def exclusive_def base_def
      wf_queue_def uncommitted_def new_queue_def zero_holder_def UNCOMMITTED_def ring_simps)

lemma fresh_reachable_qinv: "fresh_reachable m s \<Longrightarrow> qinv s"
  by (induction rule: fresh_reachable.induct) (auto intro: qinv_init qinv_step)

subsection \<open>Whole operations of one thread\<close>

definition run :: "event list \<Rightarrow> qsys \<Rightarrow> qsys" where
  "run es s = fold step es s"

definition push_events :: "nat \<Rightarrow> item \<Rightarrow> event list" where
  "push_events i it = Start i it # replicate 6 (Producer i)"

definition pop_events :: "event list" where
  "pop_events = replicate 6 Consumer"

lemma run_append [simp]: "run (es @ fs) s = run fs (run es s)"
  by (simp add: run_def)

fun fresh_run :: "event list \<Rightarrow> qsys \<Rightarrow> bool" where
  "fresh_run [] s = True"
| "fresh_run (e # es) s = (event_ok s e \<and> fresh s e \<and> fresh_run es (step e s))"

lemma qinv_run: "qinv s \<Longrightarrow> fresh_run es s \<Longrightarrow> qinv (run es s)"
proof (induction es arbitrary: s)
  case (Cons e es)
  have "qinv (run es (step e s))" using Cons.prems by (intro Cons.IH qinv_step) auto
  then show ?case by (simp add: run_def)
qed (simp add: run_def)

lemma fresh_reachable_run: "fresh_reachable m s \<Longrightarrow> fresh_run es s \<Longrightarrow> fresh_reachable m (run es s)"
proof (induction es arbitrary: s)
  case (Cons e es)
  have "fresh_reachable m (run es (step e s))"
    using Cons.prems by (intro Cons.IH fresh_reachable.step) auto
  then show ?case by (simp add: run_def)
qed (simp add: run_def)

lemma fresh_run_consumer: "fresh_run (replicate n Consumer) s"
  by (induction n arbitrary: s) simp_all

lemma room_index:
  assumes "qinv s" and "length (reserved s) < taken s + Size"
  shows "output_idx (q s) \<noteq> advance (input_idx (q s))"
proof
  let ?n = "length (reserved s)"
  note cnt = qinvD(1)[OF assms(1), unfolded counters_ok_def]
  assume "output_idx (q s) = advance (input_idx (q s))"
  then have "taken s mod Capacity = Suc ?n mod Capacity" using cnt by (simp add: advance_def mod_Suc_eq)
  then have "taken s = Suc ?n"
    using slot_mod_inj[of "taken s" "Suc ?n" "taken s"] cnt assms(2) by (simp add: Capacity_def)
  then show False using cnt by simp
qed

lemma push_block:
  assumes inv: "qinv s" and rd: "ready_to_start (pcs s i)" and fit: "fits (q s) (fst it)"
    and room: "length (reserved s) < taken s + Size"
  obtains qu where "run (push_events i it) s =
      s\<lparr>q := qu, pcs := (pcs s)(i := P_Done True), reserved := reserved s @ [it]\<rparr>"
    and "push (fst it) (snd it) (q s) = Inr (True, qu)" and "fresh_run (push_events i it) s"
proof -
  let ?c = "input_idx (q s)" and ?n = "length (reserved s)"
  note cnt = qinvD(1)[OF inv, unfolded counters_ok_def]
  note ne = room_index[OF inv room]
  let ?u = "(q s)\<lparr>input_idx := advance ?c\<rparr>"
  have "wf_shape ?u" "fits ?u (fst it)" "?c < Capacity"
    using cnt fit by (simp_all add: wf_shape_def fits_def advance_def Capacity_def)
  then obtain qw where w: "write_slot (fst it) ?c ?u = Inr qw" using write_slot_ok by metis
  let ?v = "set_committed COMMITTED ?c (set_info (snd it) ?c qw)"
  have "run (push_events i it) s =
      s\<lparr>q := ?v, pcs := (pcs s)(i := P_Done True), reserved := reserved s @ [it]\<rparr>"
    using rd ne w by (simp add: run_def push_events_def numeral_eq_Suc goto_def)
  moreover have "push (fst it) (snd it) (q s) = Inr (True, ?v)"
    using ne w by (simp add: push_def Let_def)
  moreover have "fresh_run (push_events i it) s"
    using rd ne w fit by (simp add: push_events_def numeral_eq_Suc goto_def Capacity_def)
  ultimately show thesis using that by blast
qed

lemma pop_block:
  assumes inv: "qinv s" and idle: "cpc s = C_Idle" and some: "taken s < length (reserved s)"
    and wr: "\<And>i. ticket (pcs s i) \<noteq> Some (taken s)"
  obtains qu where "run pop_events s =
      s\<lparr>q := qu, recorded := recorded s @ [item_sample (reserved s ! taken s)], taken := Suc (taken s)\<rparr>"
    and "qinv (run pop_events s)"
proof -
  let ?c = "output_idx (q s)"
  note cnt = qinvD(1)[OF inv, unfolded counters_ok_def]
  have b: "base s = taken s" using idle by (simp add: base_def)
  have ci: "committed_item (q s) ?c (reserved s ! taken s)"
    using qinvD(2)[OF inv] cnt some wr b by (auto simp: slots_ok_def)
  have ne: "?c \<noteq> input_idx (q s)"
    using cnt some slot_mod_inj[of "taken s" "length (reserved s)" "taken s"] by (auto simp: Capacity_def)
  have cm: "is_committed (buffer (q s) ! ?c) = COMMITTED" using ci by (simp add: committed_item_def)
  obtain t where t: "load_trace ?c (q s) = Inr t"
    "sample_of t (info (buffer (q s) ! ?c)) = item_sample (reserved s ! taken s)"
    using ci load_trace_wrote unfolding committed_item_def by metis
  let ?s4 = "s\<lparr>cpc := C_Clear ?c, recorded := recorded s @ [item_sample (reserved s ! taken s)]\<rparr>"
  have "run (replicate 3 Consumer) s = ?s4"
    using idle ne cm t by (simp add: run_def numeral_eq_Suc)
  moreover have k: "qinv (run (replicate n Consumer) s)" for n
    using inv fresh_run_consumer by (rule qinv_run)
  ultimately have "qinv ?s4" by metis
  then have "qinv (step Consumer ?s4)" by (rule qinv_consumer)
  then obtain q1 where q1: "clear_slot ?c (q s) = Inr q1"
    using qinvD(5) by (cases "clear_slot ?c (q s)") fastforce+
  have out: "run pop_events s = s\<lparr>q := (set_committed UNCOMMITTED ?c q1)\<lparr>output_idx := advance ?c\<rparr>,
      recorded := recorded s @ [item_sample (reserved s ! taken s)], taken := Suc (taken s)\<rparr>"
    using idle ne cm t q1 by (simp add: run_def pop_events_def numeral_eq_Suc)
  have "qinv (run pop_events s)" using k by (simp add: pop_events_def)
  then show thesis using that out by metis
qed

text \<open>\<open>n\<close> pushes in a row by one producer, while the others and the consumer stand still.\<close>

lemma push_blocks:
  assumes "qinv s" and "ready_to_start (pcs s i)" and "frame_count (fst it) = 0"
    and "length (reserved s) + n \<le> taken s + Size"
  shows "\<exists>qu p. run (concat (replicate n (push_events i it))) s =
      s\<lparr>q := qu, pcs := (pcs s)(i := p), reserved := reserved s @ replicate n it\<rparr> \<and>
      ready_to_start p \<and> qinv (run (concat (replicate n (push_events i it))) s)"
  using assms
proof (induction n arbitrary: s)
  case 0
  have "s\<lparr>q := q s, pcs := (pcs s)(i := pcs s i), reserved := reserved s @ []\<rparr> = s" by simp
  with 0 show ?case by (intro exI[of _ "q s"] exI[of _ "pcs s i"]) (simp add: run_def)
next
  case (Suc n)
  have fit: "fits (q s) (fst it)" using Suc.prems(3) by (simp add: fits_def)
  obtain qu where b: "run (push_events i it) s =
      s\<lparr>q := qu, pcs := (pcs s)(i := P_Done True), reserved := reserved s @ [it]\<rparr>"
    and fr: "fresh_run (push_events i it) s"
    using push_block[OF Suc.prems(1,2) fit] Suc.prems(4) by auto
  let ?s = "run (push_events i it) s"
  have "qinv ?s" using Suc.prems(1) fr by (rule qinv_run)
  then have "\<exists>qu p. run (concat (replicate n (push_events i it))) ?s =
      ?s\<lparr>q := qu, pcs := (pcs ?s)(i := p), reserved := reserved ?s @ replicate n it\<rparr> \<and>
      ready_to_start p \<and> qinv (run (concat (replicate n (push_events i it))) ?s)"
    using b Suc.prems(3,4) by (intro Suc.IH) (simp_all add: ready_to_start_def)
  then obtain qu' p where r: "run (concat (replicate n (push_events i it))) ?s =
      ?s\<lparr>q := qu', pcs := (pcs ?s)(i := p), reserved := reserved ?s @ replicate n it\<rparr>"
    and rest: "ready_to_start p" "qinv (run (concat (replicate n (push_events i it))) ?s)"
    by blast
  have e: "run (concat (replicate (Suc n) (push_events i it))) s =
      run (concat (replicate n (push_events i it))) ?s" by simp
  have "run (concat (replicate n (push_events i it))) ?s =
      s\<lparr>q := qu', pcs := (pcs s)(i := p), reserved := reserved s @ replicate (Suc n) it\<rparr>"
    using r unfolding b by simp
  then show ?case using rest unfolding e by blast
qed

lemma reachable_run:
  assumes "reachable m s" and "\<And>i it. Start i it \<in> set es \<Longrightarrow> frame_count (fst it) = 0"
  shows "reachable m (run es s)"
  using assms
proof (induction es arbitrary: s)
  case (Cons e es)
  have "event_ok s e"
  proof (cases e)
    case (Start i it)
    then have "frame_count (fst it) = 0" using Cons.prems(2)[of i it] by simp
    then show ?thesis using Start by (simp add: fits_def)
  qed simp_all
  then have "reachable m (run es (step e s))"
    using Cons.prems by (intro Cons.IH reachable.step) auto
  then show ?case by (simp add: run_def)
qed (simp add: run_def)

subsection \<open>Properties\<close>

text \<open>
  C1: The listener is given exactly the accepted items, each once, unchanged and in the order in
  which their reservations succeeded, whatever the interleaving of any number of producers with
  the consumer; and at most \<open>Size\<close> accepted items are waiting. This holds for runs whose
  successful reservations are fresh.
\<close>

theorem recorded_in_reservation_order:
  assumes "fresh_reachable m s"
  shows "recorded s = map item_sample (take (length (recorded s)) (reserved s)) \<and>
    length (recorded s) \<le> length (reserved s) \<and> length (reserved s) \<le> length (recorded s) + Size"
proof -
  have inv: "qinv s" using assms by (rule fresh_reachable_qinv)
  have "length (recorded s) = base s" using qinvD(6)[OF inv] base_le[OF inv] by simp
  moreover have "taken s \<le> base s" by (simp add: base_def)
  ultimately show ?thesis
    using qinvD(1,6)[OF inv] base_le[OF inv] by (simp add: counters_ok_def)
qed

definition small_trace :: "call_frame list call_trace" where
  "small_trace = \<lparr>env_id = 5, num_frames = 0, frames = []\<rparr>"

lemma fits_small_trace [simp]: "fits qu small_trace"
  by (simp add: fits_def frame_count_def small_trace_def)

text \<open>A run of one push and one pop, for the witnesses.\<close>

lemma one_sample_run:
  obtains s where "fresh_reachable 4 s" and "reserved s = [(small_trace, None)]"
    and "recorded s = [item_sample (small_trace, None)]"
proof -
  let ?it = "(small_trace, None)"
  have r: "ready_to_start (pcs (init_sys 4) 0)" by (simp add: ready_to_start_def)
  obtain qu where b: "run (push_events 0 ?it) (init_sys 4) =
      (init_sys 4)\<lparr>q := qu, pcs := (pcs (init_sys 4))(0 := P_Done True), reserved := [?it]\<rparr>"
    and fr: "fresh_run (push_events 0 ?it) (init_sys 4)"
    by (rule push_block[OF qinv_init[of 4] r, of ?it]) (simp_all add: Size_def)
  let ?s = "run (push_events 0 ?it) (init_sys 4)"
  have f: "fresh_reachable 4 ?s"
    using fresh_reachable.start fr by (rule fresh_reachable_run)
  have inv: "qinv ?s" using f by (rule fresh_reachable_qinv)
  obtain qu' where p: "run pop_events ?s =
      ?s\<lparr>q := qu', recorded := recorded ?s @ [item_sample (reserved ?s ! taken ?s)], taken := Suc (taken ?s)\<rparr>"
    by (rule pop_block[OF inv]) (simp_all add: b)
  have "fresh_reachable 4 (run pop_events ?s)"
    using f fresh_run_consumer unfolding pop_events_def by (rule fresh_reachable_run)
  then show thesis using that p b by simp
qed

theorem recorded_in_reservation_order_witness:
  "\<exists>s. fresh_reachable 4 s \<and> reserved s = [(small_trace, None)] \<and> length (recorded s) = 1 \<and>
     recorded s = map item_sample (take 1 [(small_trace, None)])"
proof -
  obtain s where s: "fresh_reachable 4 s" "reserved s = [(small_trace, None)]"
    "recorded s = [item_sample (small_trace, None)]" using one_sample_run .
  then show ?thesis using recorded_in_reservation_order[OF s(1)] by (intro exI[of _ s]) auto
qed

text \<open>
  C9: No interleaving (with fresh reservations) makes a thread of the queue access memory out of
  bounds or dereference a null \<open>frames\<close> pointer.
\<close>

theorem no_thread_faults:
  assumes "fresh_reachable m s"
  shows "pcs s i \<noteq> P_Fault e \<and> cpc s \<noteq> C_Fault e'"
  using qinvD(4,5)[OF fresh_reachable_qinv[OF assms]] by (metis cpc_ok.simps(7) pc_ok.simps(7))

theorem no_thread_faults_witness:
  "\<exists>s. fresh_reachable 4 s \<and> recorded s \<noteq> [] \<and> pcs s 0 \<noteq> P_Fault Out_Of_Bounds \<and> cpc s \<noteq> C_Fault Null_Deref"
proof -
  obtain s where s: "fresh_reachable 4 s" "reserved s = [(small_trace, None)]"
    "recorded s = [item_sample (small_trace, None)]" using one_sample_run .
  then show ?thesis using no_thread_faults[OF s(1)] by (intro exI[of _ s]) auto
qed

text \<open>The slot whose plain (non-atomic) fields a thread is about to access.\<close>

fun producer_slot :: "producer_pc \<Rightarrow> nat option" where
  "producer_slot (P_Write it c k) = Some c"
| "producer_slot (P_Info it c k) = Some c"
| "producer_slot (P_Commit it c k) = Some c"
| "producer_slot _ = None"

fun consumer_slot :: "consumer_pc \<Rightarrow> nat option" where
  "consumer_slot (C_Record c) = Some c"
| "consumer_slot (C_Clear c) = Some c"
| "consumer_slot (C_Uncommit c) = Some c"
| "consumer_slot _ = None"

lemma producer_slot_ticket:
  "qinv s \<Longrightarrow> producer_slot (pcs s i) = Some c \<Longrightarrow> \<exists>k. ticket (pcs s i) = Some k \<and> c = k mod Capacity"
  using qinvD(4)[of s i] by (cases "pcs s i") (auto simp: owner_def)

text \<open>
  The plain fields of a slot are never accessed by two threads at once: two producers that
  write do so in different slots, and none of them is the slot the consumer reads or clears.
\<close>

theorem slots_are_exclusive:
  assumes "fresh_reachable m s" and "producer_slot (pcs s i) = Some c"
  shows "(i \<noteq> j \<longrightarrow> producer_slot (pcs s j) \<noteq> Some c) \<and> consumer_slot (cpc s) \<noteq> Some c"
proof -
  have inv: "qinv s" using assms(1) by (rule fresh_reachable_qinv)
  obtain k where k: "ticket (pcs s i) = Some k" "c = k mod Capacity"
    using producer_slot_ticket[OF inv assms(2)] by blast
  have "producer_slot (pcs s j) \<noteq> Some c" if "i \<noteq> j"
    using producer_slot_ticket[OF inv, of j c] ticket_slot_neq[OF inv k(1) _ that] k(2) by auto
  moreover have "consumer_slot (cpc s) \<noteq> Some c"
    using owned_not_head[OF inv k(1) refl] qinvD(5)[OF inv] k(2) by (cases "cpc s") auto
  ultimately show ?thesis by blast
qed

theorem slots_are_exclusive_witness:
  "\<exists>s. fresh_reachable 4 s \<and> producer_slot (pcs s 0) = Some 0 \<and>
     producer_slot (pcs s 1) \<noteq> Some 0 \<and> consumer_slot (cpc s) \<noteq> Some 0"
proof -
  let ?es = "[Start 0 (small_trace, None), Producer 0, Producer 0, Producer 0]"
  have fr: "fresh_run ?es (init_sys 4)"
    by (simp add: ready_to_start_def new_queue_def advance_def Capacity_def Size_def goto_def)
  have r: "fresh_reachable 4 (run ?es (init_sys 4))"
    using fresh_reachable.start fr by (rule fresh_reachable_run)
  have "producer_slot (pcs (run ?es (init_sys 4)) 0) = Some 0"
    by (simp add: run_def ready_to_start_def new_queue_def advance_def Capacity_def
        Size_def goto_def)
  then show ?thesis using r slots_are_exclusive[OF r, of 0 0 1] by auto
qed

text \<open>
  A producer that runs through \<open>push\<close> without interference, in any state the concurrent
  queue can be in, has the effect of the sequential \<open>push\<close>: it returns true, its item is the
  next reservation, and no other thread's position changes.
\<close>

theorem uninterrupted_push:
  assumes "fresh_reachable m s" and "ready_to_start (pcs s i)" and "fits (q s) (fst it)"
    and "length (reserved s) < taken s + Size"
  shows "\<exists>qu. push (fst it) (snd it) (q s) = Inr (True, qu) \<and> run (push_events i it) s =
      s\<lparr>q := qu, pcs := (pcs s)(i := P_Done True), reserved := reserved s @ [it]\<rparr>"
  using push_block[OF fresh_reachable_qinv[OF assms(1)] assms(2-4)] by metis

theorem uninterrupted_push_witness:
  "\<exists>qu. push small_trace None (q (init_sys 4)) = Inr (True, qu) \<and>
     reserved (run (push_events 0 (small_trace, None)) (init_sys 4)) = [(small_trace, None)]"
  using uninterrupted_push[OF fresh_reachable.start, of 4 0 "(small_trace, None)"]
  by (auto simp: ready_to_start_def Size_def)



subsection \<open>A reservation that is not fresh\<close>

text \<open>
  Producer 0 loads \<open>input\<close>, checks \<open>output\<close>, and is suspended before its
  compare-and-swap. Producer 2 pushes once, the consumer pops, producer 2 fills the queue: the
  index \<open>input\<close> is back at the value producer 0 has loaded.
\<close>

definition stale_events :: "event list" where
  "stale_events = [Start 0 (small_trace, None), Producer 0, Producer 0] @
     push_events 2 (small_trace, None) @ pop_events @
     concat (replicate Size (push_events 2 (small_trace, None)))"

lemma stale_run:
  obtains qu p where "run stale_events (init_sys m) =
      (init_sys m)\<lparr>q := qu, pcs := (\<lambda>_. P_Idle)(0 := P_Cas (small_trace, None) 0 0, 2 := p),
        reserved := replicate (Suc Size) (small_trace, None),
        recorded := [item_sample (small_trace, None)], taken := 1\<rparr>"
    and "ready_to_start p" and "qinv (run stale_events (init_sys m))"
proof -
  let ?it = "(small_trace, None)" and ?c0 = "P_Cas (small_trace, None) 0 0"
  let ?es1 = "[Start 0 ?it, Producer 0, Producer 0]"
  let ?s1 = "run ?es1 (init_sys m)"
  have s1: "?s1 = (init_sys m)\<lparr>pcs := (\<lambda>_. P_Idle)(0 := ?c0)\<rparr>"
    by (simp add: run_def goto_def ready_to_start_def new_queue_def advance_def Capacity_def Size_def)
  have "fresh_run ?es1 (init_sys m)"
    by (simp add: goto_def ready_to_start_def new_queue_def advance_def Capacity_def Size_def)
  with qinv_init have i1: "qinv ?s1" by (rule qinv_run)
  obtain q2 where s2: "run (push_events 2 ?it) ?s1 =
      ?s1\<lparr>q := q2, pcs := (pcs ?s1)(2 := P_Done True), reserved := [?it]\<rparr>"
    and f2: "fresh_run (push_events 2 ?it) ?s1"
    by (rule push_block[OF i1, of 2 ?it]) (simp_all add: s1 Size_def ready_to_start_def)
  let ?s2 = "run (push_events 2 ?it) ?s1"
  have i2: "qinv ?s2" using i1 f2 by (rule qinv_run)
  obtain q3 where s3: "run pop_events ?s2 =
      ?s2\<lparr>q := q3, recorded := recorded ?s2 @ [item_sample (reserved ?s2 ! taken ?s2)], taken := Suc (taken ?s2)\<rparr>"
    and i3: "qinv (run pop_events ?s2)"
    by (rule pop_block[OF i2]; unfold s2; simp add: s1)
  let ?s3 = "run pop_events ?s2"
  obtain q4 p where s4: "run (concat (replicate Size (push_events 2 ?it))) ?s3 =
      ?s3\<lparr>q := q4, pcs := (pcs ?s3)(2 := p), reserved := reserved ?s3 @ replicate Size ?it\<rparr>"
    and r: "ready_to_start p" "qinv (run (concat (replicate Size (push_events 2 ?it))) ?s3)"
  proof -
    have "ready_to_start (pcs ?s3 2)" unfolding s3 unfolding s2 by (simp add: ready_to_start_def)
    moreover have "length (reserved ?s3) + Size \<le> taken ?s3 + Size"
      unfolding s3 unfolding s2 by (simp add: s1)
    ultimately show thesis
      using push_blocks[OF i3, of 2 ?it Size] that by (auto simp: small_trace_def frame_count_def)
  qed
  have e: "run stale_events (init_sys m) = run (concat (replicate Size (push_events 2 ?it))) ?s3"
    unfolding stale_events_def run_append ..
  show thesis
  proof (rule that[of p q4])
    show "run stale_events (init_sys m) = (init_sys m)\<lparr>q := q4, pcs := (\<lambda>_. P_Idle)(0 := ?c0, 2 := p),
        reserved := replicate (Suc Size) ?it, recorded := [item_sample ?it], taken := 1\<rparr>"
      unfolding e unfolding s4 unfolding s3 unfolding s2 unfolding s1 by simp
  qed (use r e in simp_all)
qed


end
