(* ===== verification/Pointer_Hash.thy ===== *)
theory Pointer_Hash
  imports Base
begin

text \<open>
  \<open>PointerHasher\<close> (\<^verbatim>\<open>thread_map.h\<close>), the hash of the thread map's keys, and the constants of
  the map that it has to respect (\<^verbatim>\<open>concurrent_map.h\<close>). Products and left shifts wrap at 64 bits, as
  the machine does; \<open>>>\<close> on a signed integer repeats the sign. The division by \<open>sizeof(PType)\<close> is
  unsigned.
\<close>

definition MapHashEmpty :: i64 where "MapHashEmpty = -1"

definition xor_shr :: "nat \<Rightarrow> i64 \<Rightarrow> i64" where
  "xor_shr n v = v XOR signed_drop_bit n v"

definition xor_shl :: "nat \<Rightarrow> i64 \<Rightarrow> i64" where
  "xor_shl n v = v XOR push_bit n v"

definition pointer_hash :: "u64 \<Rightarrow> u64 \<Rightarrow> i64" where
  "pointer_hash size_of p =
     (let v = p div size_of;
          v = v * 3935559000370003845 + 2691343689449507681;
          v = xor_shr 21 v;
          v = xor_shl 37 v;
          v = xor_shr 4 v;
          v = v * 4768777513237032717;
          v = xor_shl 20 v;
          v = xor_shr 41 v;
          v = xor_shl 5 v
      in v)"

lemma xor_shr_top: "\<not> bit (xor_shr n v) 63"
  by (cases n) (auto simp: xor_shr_def bit_simps min_def)

lemma xor_shl_bit: "k < 64 \<Longrightarrow> bit (xor_shl n v) k \<longleftrightarrow> (bit v k \<noteq> (n \<le> k \<and> bit v (k - n)))"
  by (auto simp: xor_shl_def bit_simps)

text \<open>Words whose last xor-shift is all ones alternate in blocks of five bits.\<close>

lemma xor_shl_5_ones:
  assumes "xor_shl 5 v = -1" and "k < 64"
  shows "bit v k \<longleftrightarrow> even (k div 5)"
  using assms(2)
proof (induction k rule: less_induct)
  case (less k)
  have b: "bit (xor_shl 5 v) k" using assms(1) less.prems by (simp add: bit_simps)
  show ?case
  proof (cases "k < 5")
    case True
    then show ?thesis using b less.prems by (simp add: xor_shl_bit)
  next
    case False
    then have "k div 5 = Suc ((k - 5) div 5)" by (simp add: div_if)
    then show ?thesis using b less.IH[of "k - 5"] less.prems False by (simp add: xor_shl_bit)
  qed
qed

text \<open>
  The hash of a pointer is never \<open>MapHashEmpty\<close>, the mark of an unused cell of the map, whatever
  the pointer and the size of what it points to.
\<close>

theorem pointer_hash_not_empty: "pointer_hash size_of p \<noteq> MapHashEmpty"
proof
  assume "pointer_hash size_of p = MapHashEmpty"
  then obtain v where v: "xor_shl 5 (xor_shr 41 v) = -1"
    by (auto simp: pointer_hash_def MapHashEmpty_def Let_def)
  have "bit (xor_shr 41 v) 63" using xor_shl_5_ones[OF v, of 63] by simp
  then show False by (simp add: xor_shr_top)
qed

text \<open>
  The hash is not collision free on pointers, as the map assumes: a signed shift makes the xor-shift
  map a word and its complement to the same value. Two distinct, 8 byte aligned user space
  addresses have the same hash.
\<close>

theorem pointer_hash_collides:
  "pointer_hash 8 0x7fd021611440 = pointer_hash 8 0xb3757e91440 \<and>
   (0x7fd021611440 :: u64) \<noteq> 0xb3757e91440"
  by code_simp

lemma xor_shr_complement: "n < 64 \<Longrightarrow> xor_shr n (NOT v) = xor_shr n v"
  by (rule bit_word_eqI) (auto simp: xor_shr_def bit_simps min_def)

end
