(* ===== verification/Map_Interface.thy ===== *)
theory Map_Interface
  imports Base
begin

text \<open>
  The contract of \<open>AbstractMapProvider\<close> (\<^verbatim>\<open>concurrent_map.h\<close>), between the hash map and the
  thread map that is a template over it. \<open>value_at s k\<close> is what the map holds for a key; keys with the
  same hash cannot be told apart, which \<open>same\<close> says; \<open>admits s k\<close> is a state in which \<open>put\<close>
  of the key is known to return.
\<close>

definition MapValEmpty :: u64 where "MapValEmpty = 0"
definition MapValMove :: u64 where "MapValMove = -1"

locale map_provider =
  fixes wf :: "'s \<Rightarrow> bool"
    and value_at :: "'s \<Rightarrow> 'k \<Rightarrow> u64"
    and same :: "'k \<Rightarrow> 'k \<Rightarrow> bool"
    and admits :: "'s \<Rightarrow> 'k \<Rightarrow> bool"
    and put_op :: "'k \<Rightarrow> u64 \<Rightarrow> 's \<Rightarrow> (u64 \<times> 's) result option"
    and get_op :: "'k \<Rightarrow> 's \<Rightarrow> u64 result option"
    and remove_op :: "'k \<Rightarrow> 's \<Rightarrow> (u64 \<times> 's) result option"
  assumes put_returns: "wf s \<Longrightarrow> admits s k \<Longrightarrow> v \<noteq> MapValMove \<Longrightarrow> \<exists>r. put_op k v s = Some r"
    and put_correct: "wf s \<Longrightarrow> v \<noteq> MapValMove \<Longrightarrow> put_op k v s = Some r \<Longrightarrow>
      \<exists>s'. r = Inr (value_at s k, s') \<and> wf s' \<and>
        (\<forall>k'. value_at s' k' = (if same k k' then v else value_at s k'))"
    and get_correct: "wf s \<Longrightarrow> get_op k s = Some (Inr (value_at s k))"
    and remove_correct: "wf s \<Longrightarrow> \<exists>s'. remove_op k s = Some (Inr (value_at s k, s')) \<and> wf s' \<and>
        (\<forall>k'. value_at s' k' = (if same k k' then MapValEmpty else value_at s k'))"
    and same_equiv: "equivp same"
    and same_value: "same k k' \<Longrightarrow> value_at s k = value_at s k'"
    and not_moved: "wf s \<Longrightarrow> value_at s k \<noteq> MapValMove"
begin

lemma same_refl: "same k k"
  using same_equiv by (rule equivp_reflp)

lemma same_sym: "same k k' \<Longrightarrow> same k' k"
  using same_equiv by (rule equivp_symp)

lemma same_trans: "same k k' \<Longrightarrow> same k' k'' \<Longrightarrow> same k k''"
  using same_equiv by (rule equivp_transp)

lemma put_effect:
  assumes "wf s" and "admits s k" and "v \<noteq> MapValMove"
  shows "\<exists>s'. put_op k v s = Some (Inr (value_at s k, s')) \<and> wf s' \<and>
    (\<forall>k'. value_at s' k' = (if same k k' then v else value_at s k'))"
  using put_returns[OF assms] put_correct[OF assms(1,3)] by blast

lemma get_after_put:
  assumes "wf s" and "v \<noteq> MapValMove" and "put_op k v s = Some (Inr (old, s'))"
  shows "get_op k s' = Some (Inr v)" and "old = value_at s k"
  using put_correct[OF assms] get_correct[of s' k] same_refl[of k] by auto

lemma get_after_remove:
  assumes "wf s" and "remove_op k s = Some (Inr (old, s'))"
  shows "get_op k s' = Some (Inr MapValEmpty)" and "old = value_at s k"
  using remove_correct[OF assms(1), of k] assms(2) get_correct[of s' k] same_refl[of k] by auto

end

end
