(* ===== verification/Hash_Table.thy ===== *)
theory Hash_Table
  imports Pointer_Hash Map_Interface
begin

text \<open>
  \<open>HashTable\<close> and \<open>LockFreeMapPrimitives\<close> (\<^verbatim>\<open>concurrent_map.h\<close>), for one thread at a time: the
  open addressing table whose cells are chained by small offsets, \<open>find\<close>, and
  \<open>insertOrUpdate\<close>, with the invariant of the chains and the map they implement.

  A compare-and-swap of a single thread succeeds when the cell holds what the thread last read, and
  a wait for another thread to extend a chain never ends (\<open>Spins_Forever\<close>).
\<close>

definition kNeighbourhood :: nat where "kNeighbourhood = 16"
definition kMaxJumpsAllowed :: nat where "kMaxJumpsAllowed = 8"
definition kMigrationChunkSize :: nat where "kMigrationChunkSize = 32"
definition kSizeMin :: nat where "kSizeMin = 32"
definition kMaxSampleSize :: nat where "kMaxSampleSize = 256"

definition MapDeltaEmpty :: u32 where "MapDeltaEmpty = 0"
definition MapDeltaExtend :: u32 where "MapDeltaExtend = -1"

text \<open>\<open>nearestPow2(int)\<close>, on its 32 bits.\<close>

definition or_shr :: "nat \<Rightarrow> jint \<Rightarrow> jint" where
  "or_shr n x = x OR signed_drop_bit n x"

definition nearestPow2 :: "jint \<Rightarrow> jint" where
  "nearestPow2 x =
     (let x = x - 1;
          x = or_shr 1 x;
          x = or_shr 2 x;
          x = or_shr 4 x;
          x = or_shr 8 x;
          x = or_shr 16 x
      in x + 1)"

record entry =
  cell_hash :: i64
  cell_value :: u64
  deltaNext :: u32

record hash_table =
  sizeMask :: nat
  cells :: "entry list"
  freeBuckets :: int

definition empty_entry :: entry where
  "empty_entry = \<lparr>cell_hash = MapHashEmpty, cell_value = MapValEmpty, deltaNext = MapDeltaEmpty\<rparr>"

text \<open>The constructor; \<open>(int)(0.75 * allocatedSize)\<close> is exact on the powers of two it is used for.\<close>

definition new_table :: "jint \<Rightarrow> hash_table" where
  "new_table initialSize =
     (let allocatedSize = nat (max (sint (nearestPow2 initialSize)) (int kSizeMin)) in
      \<lparr>sizeMask = allocatedSize - 1,
       cells = replicate allocatedSize empty_entry,
       freeBuckets = 3 * int allocatedSize div 4\<rparr>)"

definition getMigrationSize :: "hash_table \<Rightarrow> nat" where
  "getMigrationSize t = (sizeMask t + 1) div kMigrationChunkSize"

text \<open>\<open>tHash & sizeMask\<close>, and \<open>(i + delta) & sizeMask\<close> in unsigned 32 bit arithmetic.\<close>

definition home :: "hash_table \<Rightarrow> i64 \<Rightarrow> nat" where
  "home t h = unat (h AND word_of_nat (sizeMask t))"

definition probe :: "hash_table \<Rightarrow> nat \<Rightarrow> u32 \<Rightarrow> nat" where
  "probe t i delta = unat ((word_of_nat i + delta) AND word_of_nat (sizeMask t))"

definition ends_chain :: "u32 \<Rightarrow> bool" where
  "ends_chain delta \<longleftrightarrow> delta = MapDeltaEmpty \<or> delta = MapDeltaExtend"

subsection \<open>find\<close>

partial_function (option) find_from :: "hash_table \<Rightarrow> i64 \<Rightarrow> nat \<Rightarrow> nat option result option" where
  "find_from t tHash i =
     (if i < length (cells t) then
        if cell_hash (cells t ! i) = MapHashEmpty then Some (Inr None)
        else if cell_hash (cells t ! i) = tHash then Some (Inr (Some i))
        else if ends_chain (deltaNext (cells t ! i)) then Some (Inr None)
        else find_from t tHash (probe t i (deltaNext (cells t ! i)))
      else Some (Inl Out_Of_Bounds))"

definition find_cell :: "hash_table \<Rightarrow> i64 \<Rightarrow> nat option result option" where
  "find_cell t tHash = find_from t tHash (home t tHash)"

subsection \<open>insertOrUpdate\<close>

datatype insert_outcome = INSERT_OK | INSERT_OVERFLOW | INSERT_HELP_MIGRATION

datatype walk_end = Same_Hash nat | Tail nat | Too_Many_Jumps

text \<open>
  The inner loop, along the chain to a cell with the hash or to its end, and the compare-and-swap
  that takes the end.
\<close>

function walk :: "hash_table \<Rightarrow> i64 \<Rightarrow> nat \<Rightarrow> u32 \<Rightarrow> nat \<Rightarrow> walk_end result" where
  "walk t tHash i delta jumps =
     (if jumps > kMaxJumpsAllowed then Inr Too_Many_Jumps
      else let j = probe t i delta in
        if j < length (cells t) then
          if cell_hash (cells t ! j) = tHash then Inr (Same_Hash j)
          else if \<not> ends_chain (deltaNext (cells t ! j)) then walk t tHash j (deltaNext (cells t ! j)) (jumps + 1)
          else if deltaNext (cells t ! j) = MapDeltaEmpty then Inr (Tail j)
          else Inl Spins_Forever
        else Inl Out_Of_Bounds)"
  by pat_completeness auto

termination
  by (relation "measure (\<lambda>(t, h, i, d, jumps). Suc kMaxJumpsAllowed - jumps)") auto

declare walk.simps [simp del]

definition set_cell :: "nat \<Rightarrow> (entry \<Rightarrow> entry) \<Rightarrow> hash_table \<Rightarrow> hash_table" where
  "set_cell i f t = t\<lparr>cells := (cells t)[i := f (cells t ! i)]\<rparr>"

definition set_delta :: "nat \<Rightarrow> u32 \<Rightarrow> hash_table \<Rightarrow> hash_table" where
  "set_delta i d = set_cell i (\<lambda>e. e\<lparr>deltaNext := d\<rparr>)"

text \<open>Load the old value and exchange it, unless the cell's value has been moved.\<close>

definition exchange_value :: "nat \<Rightarrow> u64 \<Rightarrow> hash_table \<Rightarrow> insert_outcome \<times> u64 \<times> hash_table" where
  "exchange_value i v t =
     (let oldValue = cell_value (cells t ! i) in
      if oldValue = MapValMove then (INSERT_HELP_MIGRATION, oldValue, t)
      else (INSERT_OK, oldValue, set_cell i (\<lambda>e. e\<lparr>cell_value := v\<rparr>) t))"

text \<open>The linear search from the end \<open>prev\<close> of the chain; \<open>todo\<close> is \<open>kNeighbourhood - d\<close>.\<close>

fun neighbourhood :: "i64 \<Rightarrow> u64 \<Rightarrow> nat \<Rightarrow> nat \<Rightarrow> nat \<Rightarrow> hash_table \<Rightarrow>
    (insert_outcome \<times> u64 \<times> hash_table) result" where
  "neighbourhood tHash v prev d 0 t = Inr (INSERT_OVERFLOW, MapValEmpty, set_delta prev MapDeltaEmpty t)"
| "neighbourhood tHash v prev d (Suc todo) t =
     (let j = probe t prev (word_of_nat d) in
      if j < length (cells t) then
        if cell_hash (cells t ! j) = MapHashEmpty then
          if freeBuckets t \<le> 0 then Inr (INSERT_OVERFLOW, MapValEmpty, set_delta prev MapDeltaEmpty t)
          else
            let t1 = set_cell j (\<lambda>e. e\<lparr>cell_hash := tHash\<rparr>) (t\<lparr>freeBuckets := freeBuckets t - 1\<rparr>);
                t2 = set_delta prev (if d > 0 then word_of_nat d else MapDeltaEmpty) t1
            in Inr (exchange_value j v t2)
        else if cell_hash (cells t ! j) = tHash then Inr (exchange_value j v t)
        else neighbourhood tHash v prev (d + 1) todo t
      else Inl Out_Of_Bounds)"

definition insertOrUpdate :: "hash_table \<Rightarrow> i64 \<Rightarrow> u64 \<Rightarrow> (insert_outcome \<times> u64 \<times> hash_table) result" where
  "insertOrUpdate t tHash v =
     and_then (walk t tHash (home t tHash) 0 0) (\<lambda>w.
       case w of
         Too_Many_Jumps \<Rightarrow> Inr (INSERT_OVERFLOW, MapValEmpty, t)
       | Same_Hash i \<Rightarrow> Inr (exchange_value i v t)
       | Tail prev \<Rightarrow> neighbourhood tHash v prev 0 kNeighbourhood (set_delta prev MapDeltaExtend t))"

subsection \<open>Indices\<close>

lemma unat_and_pow2:
  fixes w :: "'a::len word"
  assumes "k \<le> LENGTH('a)"
  shows "unat (w AND word_of_nat (2 ^ k - 1)) = unat w mod 2 ^ k"
proof -
  have "(word_of_nat (2 ^ k - 1) :: 'a word) = mask k"
    by (metis of_nat_mask_eq mask_nat_def)
  then have "w AND word_of_nat (2 ^ k - 1) = take_bit k w" by (simp only: take_bit_eq_mask)
  then show ?thesis by (simp only: unsigned_take_bit_eq flip: take_bit_eq_mod)
qed
lemma unat_plus_mod:
  assumes "k \<le> 32"
  shows "unat (word_of_nat i + d :: 32 word) mod 2 ^ k = (i + unat d) mod 2 ^ k"
proof -
  have d: "(2 :: nat) ^ k dvd 2 ^ 32" using assms by (rule le_imp_power_dvd)
  have "unat (word_of_nat i + d :: 32 word) = (i + unat d) mod 2 ^ 32"
    by (simp add: unat_word_ariths unat_of_nat mod_add_left_eq)
  then show ?thesis using d by (simp only: mod_mod_cancel)
qed
text \<open>A table of \<open>2 ^ k\<close> cells.\<close>

definition shaped :: "nat \<Rightarrow> hash_table \<Rightarrow> bool" where
  "shaped k t \<longleftrightarrow> 5 \<le> k \<and> k \<le> 30 \<and> length (cells t) = 2 ^ k \<and> sizeMask t = 2 ^ k - 1"

lemma probe_eq: "shaped k t \<Longrightarrow> probe t i d = (i + unat d) mod 2 ^ k"
  unfolding probe_def shaped_def by (auto simp only: unat_and_pow2 unat_plus_mod len_num1 len_bit0 len_bit1)

lemma home_eq: "shaped k t \<Longrightarrow> home t h = unat h mod 2 ^ k"
  using unat_and_pow2[of k h] by (auto simp: home_def shaped_def simp del: of_nat_diff)

lemma shaped_length: "shaped k t \<Longrightarrow> length (cells t) = 2 ^ k"
  by (simp add: shaped_def)

lemma probe_less: "shaped k t \<Longrightarrow> probe t i d < length (cells t)"
  by (simp add: probe_eq shaped_length)

lemma home_less: "shaped k t \<Longrightarrow> home t h < length (cells t)"
  by (simp add: home_eq shaped_length)

lemma probe_0: "shaped k t \<Longrightarrow> i < length (cells t) \<Longrightarrow> probe t i 0 = i"
  by (simp add: probe_eq shaped_length)

subsection \<open>Chains\<close>

inductive reach :: "hash_table \<Rightarrow> nat \<Rightarrow> nat \<Rightarrow> bool" for t where
  reach_refl: "reach t i i"
| reach_step: "cell_hash (cells t ! i) \<noteq> MapHashEmpty \<Longrightarrow> \<not> ends_chain (deltaNext (cells t ! i)) \<Longrightarrow>
    reach t (probe t i (deltaNext (cells t ! i))) j \<Longrightarrow> reach t i j"

inductive finite_chain :: "hash_table \<Rightarrow> nat \<Rightarrow> bool" for t where
  chain_end: "ends_chain (deltaNext (cells t ! i)) \<Longrightarrow> finite_chain t i"
| chain_step: "\<not> ends_chain (deltaNext (cells t ! i)) \<Longrightarrow>
    finite_chain t (probe t i (deltaNext (cells t ! i))) \<Longrightarrow> finite_chain t i"

inductive_cases reachE: "reach t i j"

definition used_cells :: "hash_table \<Rightarrow> nat set" where
  "used_cells t = {i. i < length (cells t) \<and> cell_hash (cells t ! i) \<noteq> MapHashEmpty}"

definition wf_cell :: "entry \<Rightarrow> bool" where
  "wf_cell e \<longleftrightarrow> deltaNext e \<noteq> MapDeltaExtend \<and>
     (cell_hash e = MapHashEmpty \<longrightarrow> deltaNext e = MapDeltaEmpty \<and> cell_value e \<in> {MapValEmpty, MapValMove})"

text \<open>
  The invariant: from the home cell of every stored hash its chain leads to the one cell that stores
  it, chains end, no cell is being extended, and \<open>freeBuckets\<close> counts the cells left of three quarters.
\<close>

definition wf_table :: "nat \<Rightarrow> hash_table \<Rightarrow> bool" where
  "wf_table k t \<longleftrightarrow> shaped k t \<and>
     (\<forall>e\<in>set (cells t). wf_cell e) \<and>
     (\<forall>i<length (cells t). finite_chain t i) \<and>
     (\<forall>i\<in>used_cells t. reach t (home t (cell_hash (cells t ! i))) i) \<and>
     (\<forall>i\<in>used_cells t. \<forall>j\<in>used_cells t. cell_hash (cells t ! i) = cell_hash (cells t ! j) \<longrightarrow> i = j) \<and>
     0 \<le> freeBuckets t \<and> freeBuckets t + int (card (used_cells t)) = 3 * 2 ^ k div 4"

lemma wf_tableD:
  assumes "wf_table k t"
  shows "shaped k t" and "i < length (cells t) \<Longrightarrow> wf_cell (cells t ! i)"
    and "i < length (cells t) \<Longrightarrow> finite_chain t i"
    and "i \<in> used_cells t \<Longrightarrow> reach t (home t (cell_hash (cells t ! i))) i"
    and "i \<in> used_cells t \<Longrightarrow> j \<in> used_cells t \<Longrightarrow> cell_hash (cells t ! i) = cell_hash (cells t ! j) \<Longrightarrow> i = j"
  using assms by (auto simp: wf_table_def)

text \<open>The map a table stands for. An absent key and a deleted one both read as \<open>MapValEmpty\<close>.\<close>

definition lookup :: "hash_table \<Rightarrow> i64 \<Rightarrow> u64" where
  "lookup t h =
     (if h = MapHashEmpty then MapValEmpty
      else case find (\<lambda>e. cell_hash e = h) (cells t) of None \<Rightarrow> MapValEmpty | Some e \<Rightarrow> cell_value e)"

lemma lookup_stored:
  assumes "wf_table k t" and "i \<in> used_cells t"
  shows "lookup t (cell_hash (cells t ! i)) = cell_value (cells t ! i)"
proof -
  let ?h = "cell_hash (cells t ! i)"
  have i: "i < length (cells t)" "?h \<noteq> MapHashEmpty" using assms(2) by (simp_all add: used_cells_def)
  then have "find (\<lambda>e. cell_hash e = ?h) (cells t) \<noteq> None"
    by (auto simp: find_None_iff dest: nth_mem)
  then obtain e where e: "find (\<lambda>e. cell_hash e = ?h) (cells t) = Some e" by blast
  then obtain j where j: "j < length (cells t)" "cell_hash (cells t ! j) = ?h" "e = cells t ! j"
    by (auto simp: find_Some_iff)
  then have "j = i" using wf_tableD(5)[OF assms(1), of j i] assms(2) i by (simp add: used_cells_def)
  then show ?thesis using e j i by (simp add: lookup_def)
qed

lemma lookup_absent:
  "\<forall>i<length (cells t). cell_hash (cells t ! i) \<noteq> h \<Longrightarrow> lookup t h = MapValEmpty"
  by (auto simp: lookup_def split: option.split simp: find_Some_iff)

subsection \<open>find\<close>

lemma reach_ends: "reach t i j \<Longrightarrow> ends_chain (deltaNext (cells t ! i)) \<Longrightarrow> j = i"
  by (auto elim: reachE)

lemma ends_chain_simps [simp]: "ends_chain MapDeltaEmpty" "ends_chain MapDeltaExtend"
  by (simp_all add: ends_chain_def)

lemma find_from_spec:
  assumes "finite_chain t i" and "wf_table k t" and "i < length (cells t)" and "h \<noteq> MapHashEmpty"
  shows "\<exists>r. find_from t h i = Some (Inr r) \<and>
    (case r of None \<Rightarrow> \<forall>j. reach t i j \<longrightarrow> cell_hash (cells t ! j) \<noteq> h
     | Some j \<Rightarrow> j < length (cells t) \<and> cell_hash (cells t ! j) = h)"
  using assms
proof (induction rule: finite_chain.induct)
  case (chain_end i)
  have "cell_hash (cells t ! j) = cell_hash (cells t ! i)" if "reach t i j" for j
    using reach_ends[OF that chain_end(1)] by simp
  then show ?case
    using chain_end by (subst find_from.simps) (cases "cell_hash (cells t ! i) = h"; auto)
next
  case (chain_step i)
  let ?n = "probe t i (deltaNext (cells t ! i))"
  have ne: "cell_hash (cells t ! i) \<noteq> MapHashEmpty"
    using wf_tableD(2)[OF chain_step.prems(1,2)] chain_step.hyps(1) by (auto simp: wf_cell_def)
  have n: "?n < length (cells t)" using probe_less[OF wf_tableD(1)[OF chain_step.prems(1)]] .
  show ?case
  proof (cases "cell_hash (cells t ! i) = h")
    case True
    then show ?thesis using chain_step.prems by (subst find_from.simps) auto
  next
    case False
    obtain r where r: "find_from t h ?n = Some (Inr r)"
      "case r of None \<Rightarrow> \<forall>j. reach t ?n j \<longrightarrow> cell_hash (cells t ! j) \<noteq> h
       | Some j \<Rightarrow> j < length (cells t) \<and> cell_hash (cells t ! j) = h"
      using chain_step.IH[OF chain_step.prems(1) n chain_step.prems(3)] by blast
    have "find_from t h i = Some (Inr r)"
      using False ne chain_step.hyps(1) chain_step.prems(2) r(1) by (subst find_from.simps) simp
    moreover have "cell_hash (cells t ! j) \<noteq> h" if "r = None" "reach t i j" for j
      using that(2) by (rule reachE) (use False r(2) that(1) in auto)
    ultimately show ?thesis using r(2) by (auto split: option.splits)
  qed
qed

lemma find_cell_spec:
  assumes "wf_table k t" and "h \<noteq> MapHashEmpty"
  shows "\<exists>r. find_cell t h = Some (Inr r) \<and>
    (case r of None \<Rightarrow> \<forall>j<length (cells t). cell_hash (cells t ! j) \<noteq> h
     | Some j \<Rightarrow> j < length (cells t) \<and> cell_hash (cells t ! j) = h)"
proof -
  have i: "home t h < length (cells t)" using home_less[OF wf_tableD(1)[OF assms(1)]] .
  obtain r where r: "find_from t h (home t h) = Some (Inr r)"
    "case r of None \<Rightarrow> \<forall>j. reach t (home t h) j \<longrightarrow> cell_hash (cells t ! j) \<noteq> h
     | Some j \<Rightarrow> j < length (cells t) \<and> cell_hash (cells t ! j) = h"
    using find_from_spec[OF wf_tableD(3)[OF assms(1) i] assms(1) i assms(2)] by blast
  have "cell_hash (cells t ! j) \<noteq> h" if "r = None" "j < length (cells t)" for j
    using r(2) that wf_tableD(4)[OF assms(1), of j] assms(2) by (auto simp: used_cells_def)
  then show ?thesis using r by (auto simp: find_cell_def split: option.splits)
qed

text \<open>What \<open>find\<close> leads to is the map's value.\<close>

lemma find_cell_lookup:
  assumes "wf_table k t" and "h \<noteq> MapHashEmpty"
  shows "\<exists>r. find_cell t h = Some (Inr r) \<and>
    (case r of None \<Rightarrow> lookup t h = MapValEmpty
     | Some i \<Rightarrow> i \<in> used_cells t \<and> cell_hash (cells t ! i) = h \<and> lookup t h = cell_value (cells t ! i))"
proof -
  obtain r where r: "find_cell t h = Some (Inr r)"
    "case r of None \<Rightarrow> \<forall>j<length (cells t). cell_hash (cells t ! j) \<noteq> h
     | Some j \<Rightarrow> j < length (cells t) \<and> cell_hash (cells t ! j) = h"
    using find_cell_spec[OF assms] by blast
  show ?thesis
  proof (cases r)
    case None
    then show ?thesis using r lookup_absent by simp
  next
    case (Some i)
    then have "i \<in> used_cells t" using r assms(2) by (auto simp: used_cells_def)
    then show ?thesis using r Some lookup_stored[OF assms(1), of i] by simp
  qed
qed

subsection \<open>insertOrUpdate\<close>

lemma cells_set_cell:
  "i < length (cells t) \<Longrightarrow> cells (set_cell i f t) ! j = (if j = i then f (cells t ! i) else cells t ! j)"
  by (simp add: set_cell_def nth_list_update)

lemma set_cell_simps [simp]:
  "length (cells (set_cell i f t)) = length (cells t)" "sizeMask (set_cell i f t) = sizeMask t"
  "freeBuckets (set_cell i f t) = freeBuckets t" "shaped k (set_cell i f t) = shaped k t"
  "probe (set_cell i f t) = probe t" "home (set_cell i f t) = home t"
  by (simp_all add: set_cell_def shaped_def probe_def home_def fun_eq_iff)

lemma set_delta_simps [simp]:
  "length (cells (set_delta i d t)) = length (cells t)" "sizeMask (set_delta i d t) = sizeMask t"
  "freeBuckets (set_delta i d t) = freeBuckets t" "shaped k (set_delta i d t) = shaped k t"
  "probe (set_delta i d t) = probe t" "home (set_delta i d t) = home t"
  by (simp_all add: set_delta_def)

lemma walk_spec:
  assumes "wf_table k t" and "h \<noteq> MapHashEmpty"
  shows "\<exists>w. walk t h i delta jumps = Inr w \<and>
    (case w of
       Same_Hash j \<Rightarrow> j < length (cells t) \<and> cell_hash (cells t ! j) = h
     | Tail p \<Rightarrow> p < length (cells t) \<and> reach t (probe t i delta) p \<and> deltaNext (cells t ! p) = MapDeltaEmpty \<and>
         (\<forall>x. reach t (probe t i delta) x \<longrightarrow> cell_hash (cells t ! x) \<noteq> h)
     | Too_Many_Jumps \<Rightarrow> True)"
  using assms
proof (induction t h i delta jumps rule: walk.induct)
  case (1 t h i delta jumps)
  let ?j = "probe t i delta" and ?n = "deltaNext (cells t ! probe t i delta)"
  have j: "?j < length (cells t)" using probe_less[OF wf_tableD(1)[OF "1.prems"(1)]] .
  note wfc = wf_tableD(2)[OF "1.prems"(1) j]
  consider (many) "jumps > kMaxJumpsAllowed"
    | (same) "jumps \<le> kMaxJumpsAllowed" "cell_hash (cells t ! ?j) = h"
    | (tail) "jumps \<le> kMaxJumpsAllowed" "cell_hash (cells t ! ?j) \<noteq> h" "ends_chain ?n"
    | (step) "jumps \<le> kMaxJumpsAllowed" "cell_hash (cells t ! ?j) \<noteq> h" "\<not> ends_chain ?n"
    by linarith
  then show ?case
  proof cases
    case many
    then show ?thesis by (simp add: walk.simps[of t h i delta jumps])
  next
    case same
    then show ?thesis using j by (simp add: walk.simps[of t h i delta jumps])
  next
    case tail
    have d: "?n = MapDeltaEmpty" using tail(3) wfc by (auto simp: ends_chain_def wf_cell_def)
    have "x = ?j" if "reach t ?j x" for x using reach_ends[OF that tail(3)] .
    then show ?thesis
      using tail j d by (auto simp: walk.simps[of t h i delta jumps] intro: reach_refl)
  next
    case step
    have ne: "cell_hash (cells t ! ?j) \<noteq> MapHashEmpty" using wfc step(3) by (auto simp: wf_cell_def)
    obtain w where w: "walk t h ?j ?n (jumps + 1) = Inr w"
      "case w of
         Same_Hash j \<Rightarrow> j < length (cells t) \<and> cell_hash (cells t ! j) = h
       | Tail p \<Rightarrow> p < length (cells t) \<and> reach t (probe t ?j ?n) p \<and> deltaNext (cells t ! p) = MapDeltaEmpty \<and>
           (\<forall>x. reach t (probe t ?j ?n) x \<longrightarrow> cell_hash (cells t ! x) \<noteq> h)
       | Too_Many_Jumps \<Rightarrow> True"
      using "1.IH"[of ?j] step j "1.prems" by auto
    have rp: "reach t ?j p" if "reach t (probe t ?j ?n) p" for p
      using reach_step[OF ne step(3) that] .
    have rh: "cell_hash (cells t ! x) \<noteq> h"
      if "reach t ?j x" "\<forall>x. reach t (probe t ?j ?n) x \<longrightarrow> cell_hash (cells t ! x) \<noteq> h" for x
      using that(1) by (rule reachE) (use step(2) that(2) in auto)
    have "walk t h i delta jumps = Inr w"
      using w(1) step j by (simp add: walk.simps[of t h i delta jumps])
    moreover have "case w of
         Same_Hash j \<Rightarrow> j < length (cells t) \<and> cell_hash (cells t ! j) = h
       | Tail p \<Rightarrow> p < length (cells t) \<and> reach t ?j p \<and> deltaNext (cells t ! p) = MapDeltaEmpty \<and>
           (\<forall>x. reach t ?j x \<longrightarrow> cell_hash (cells t ! x) \<noteq> h)
       | Too_Many_Jumps \<Rightarrow> True"
      using w(2) rp rh by (cases w) simp_all
    ultimately show ?thesis by blast
  qed
qed

text \<open>A new cell \<open>j\<close> for the hash \<open>h\<close>, linked from \<open>p\<close> at distance \<open>e\<close>.\<close>

definition linked :: "i64 \<Rightarrow> nat \<Rightarrow> nat \<Rightarrow> nat \<Rightarrow> hash_table \<Rightarrow> hash_table" where
  "linked h p j e t = set_delta p (if e > 0 then word_of_nat e else MapDeltaEmpty)
     (set_cell j (\<lambda>x. x\<lparr>cell_hash := h\<rparr>) (t\<lparr>freeBuckets := freeBuckets t - 1\<rparr>))"

lemma set_delta_absorb:
  "p < length (cells t) \<Longrightarrow> set_delta p d (set_delta p d' t) = set_delta p d t"
  by (simp add: set_delta_def set_cell_def)

lemma set_delta_same: "p < length (cells t) \<Longrightarrow> deltaNext (cells t ! p) = d \<Longrightarrow> set_delta p d t = t"
proof -
  assume p: "p < length (cells t)" and d: "deltaNext (cells t ! p) = d"
  have "(cells t ! p)\<lparr>deltaNext := d\<rparr> = cells t ! p" using d by auto
  then show ?thesis by (simp add: set_delta_def set_cell_def)
qed

lemma linked_extend:
  assumes "p < length (cells t)" and "j < length (cells t)"
  shows "linked h p j e (set_delta p d t) = linked h p j e t"
proof (cases "p = j")
  case True
  then show ?thesis using assms by (simp add: linked_def set_delta_def set_cell_def)
next
  case False
  then show ?thesis
    using assms by (simp add: linked_def set_delta_def set_cell_def list_update_swap[of p j])
qed

lemma neighbourhood_effect:
  assumes "shaped k t" and "p < length (cells t)" and "deltaNext (cells t ! p) = MapDeltaEmpty"
    and "\<forall>i<length (cells t). cell_hash (cells t ! i) \<noteq> h"
    and "\<forall>e<d. cell_hash (cells t ! probe t p (word_of_nat e)) \<noteq> MapHashEmpty"
  shows "\<exists>r. neighbourhood h v p d todo (set_delta p MapDeltaExtend t) = Inr r \<and>
    (r = (INSERT_OVERFLOW, MapValEmpty, t) \<or>
     (\<exists>e. d \<le> e \<and> e < d + todo \<and> 0 < freeBuckets t \<and>
        (\<forall>e'<e. cell_hash (cells t ! probe t p (word_of_nat e')) \<noteq> MapHashEmpty) \<and>
        cell_hash (cells t ! probe t p (word_of_nat e)) = MapHashEmpty \<and>
        r = exchange_value (probe t p (word_of_nat e)) v (linked h p (probe t p (word_of_nat e)) e t)))"
  using assms(5)
proof (induction todo arbitrary: d)
  case 0
  show ?case using assms(2,3) by (simp add: set_delta_absorb set_delta_same)
next
  case (Suc todo)
  let ?t = "set_delta p MapDeltaExtend t" and ?j = "probe t p (word_of_nat d)"
  have j: "?j < length (cells t)" using probe_less[OF assms(1)] .
  have same: "cell_hash (cells ?t ! x) = cell_hash (cells t ! x)" for x
    using assms(2) by (simp add: set_delta_def cells_set_cell)
  consider (full) "cell_hash (cells t ! ?j) = MapHashEmpty" "freeBuckets t \<le> 0"
    | (place) "cell_hash (cells t ! ?j) = MapHashEmpty" "0 < freeBuckets t"
    | (taken) "cell_hash (cells t ! ?j) \<noteq> MapHashEmpty"
    by linarith
  then show ?case
  proof cases
    case full
    then show ?thesis using j assms(2,3) by (simp add: same set_delta_absorb set_delta_same Let_def)
  next
    case place
    have "neighbourhood h v p d (Suc todo) ?t = Inr (exchange_value ?j v (linked h p ?j d ?t))"
      using place j by (simp add: same Let_def linked_def)
    then show ?thesis
      using place Suc.prems linked_extend[OF assms(2) j, of h d MapDeltaExtend]
      by (intro exI[of _ "exchange_value ?j v (linked h p ?j d t)"]) auto
  next
    case taken
    have "cell_hash (cells t ! ?j) \<noteq> h" using assms(4) j by simp
    then have step: "neighbourhood h v p d (Suc todo) ?t = neighbourhood h v p (d + 1) todo ?t"
      using taken j by (simp add: same Let_def)
    have "\<forall>e<d + 1. cell_hash (cells t ! probe t p (word_of_nat e)) \<noteq> MapHashEmpty"
      using Suc.prems taken by (auto simp: less_Suc_eq)
    from Suc.IH[OF this] obtain r where r: "neighbourhood h v p (d + 1) todo ?t = Inr r"
      and "r = (INSERT_OVERFLOW, MapValEmpty, t) \<or>
       (\<exists>e. d + 1 \<le> e \<and> e < d + 1 + todo \<and> 0 < freeBuckets t \<and>
        (\<forall>e'<e. cell_hash (cells t ! probe t p (word_of_nat e')) \<noteq> MapHashEmpty) \<and>
        cell_hash (cells t ! probe t p (word_of_nat e)) = MapHashEmpty \<and>
        r = exchange_value (probe t p (word_of_nat e)) v (linked h p (probe t p (word_of_nat e)) e t))"
      by blast
    moreover have "d \<le> e \<and> e < d + Suc todo" if "d + 1 \<le> e" "e < d + 1 + todo" for e using that by simp
    ultimately show ?thesis unfolding step by blast
  qed
qed

lemma linked_simps [simp]:
  "length (cells (linked h p j e t)) = length (cells t)" "sizeMask (linked h p j e t) = sizeMask t"
  "freeBuckets (linked h p j e t) = freeBuckets t - 1" "shaped k (linked h p j e t) = shaped k t"
  "probe (linked h p j e t) = probe t" "home (linked h p j e t) = home t"
  by (simp_all add: linked_def shaped_def probe_def home_def fun_eq_iff)

lemma linked_cell:
  assumes "p < length (cells t)" and "j < length (cells t)"
  shows "cell_hash (cells (linked h p j e t) ! x) = (if x = j then h else cell_hash (cells t ! x))"
    and "deltaNext (cells (linked h p j e t) ! x) =
      (if x = p then if e > 0 then word_of_nat e else MapDeltaEmpty else deltaNext (cells t ! x))"
    and "cell_value (cells (linked h p j e t) ! x) = cell_value (cells t ! x)"
  using assms by (simp_all add: linked_def set_delta_def set_cell_def nth_list_update)

lemma small_delta:
  assumes "0 < e" and "e < 16"
  shows "\<not> ends_chain (word_of_nat e)" and "unat (word_of_nat e :: u32) = e"
proof -
  show u: "unat (word_of_nat e :: u32) = e" using assms by (simp add: unat_of_nat)
  have "unat MapDeltaEmpty = 0" by (simp add: MapDeltaEmpty_def)
  moreover have "unat MapDeltaExtend = 2 ^ 32 - 1"
    by (simp add: MapDeltaExtend_def unsigned_minus_1_eq_mask mask_eq_exp_minus_1)
  ultimately show "\<not> ends_chain (word_of_nat e)" using u assms by (auto simp: ends_chain_def dest: arg_cong[of _ _ unat])
qed

text \<open>The circumstances in which \<open>insertOrUpdate\<close> allocates a cell.\<close>

definition linkable :: "nat \<Rightarrow> i64 \<Rightarrow> nat \<Rightarrow> nat \<Rightarrow> nat \<Rightarrow> hash_table \<Rightarrow> bool" where
  "linkable k h p j e t \<longleftrightarrow> wf_table k t \<and> h \<noteq> MapHashEmpty \<and> p < length (cells t) \<and>
     reach t (home t h) p \<and> deltaNext (cells t ! p) = MapDeltaEmpty \<and>
     (\<forall>i<length (cells t). cell_hash (cells t ! i) \<noteq> h) \<and> e < 16 \<and> 0 < freeBuckets t \<and>
     (\<forall>e'<e. cell_hash (cells t ! probe t p (word_of_nat e')) \<noteq> MapHashEmpty) \<and>
     j = probe t p (word_of_nat e) \<and> cell_hash (cells t ! j) = MapHashEmpty"

lemma linkableD:
  assumes "linkable k h p j e t"
  shows "wf_table k t" "shaped k t" "p < length (cells t)" "j < length (cells t)" "h \<noteq> MapHashEmpty"
    and "cell_hash (cells t ! j) = MapHashEmpty" "deltaNext (cells t ! p) = MapDeltaEmpty"
    and "deltaNext (cells t ! j) = MapDeltaEmpty"
    and "0 < e \<Longrightarrow> cell_hash (cells t ! p) \<noteq> MapHashEmpty \<and> \<not> ends_chain (word_of_nat e) \<and> j \<noteq> p"
    and "e = 0 \<Longrightarrow> j = p"
proof -
  show w: "wf_table k t" and sh: "shaped k t" and p: "p < length (cells t)" and "h \<noteq> MapHashEmpty"
    and e: "cell_hash (cells t ! j) = MapHashEmpty" and "deltaNext (cells t ! p) = MapDeltaEmpty"
    using assms wf_tableD(1) by (auto simp: linkable_def)
  show j: "j < length (cells t)" using assms probe_less[OF sh] by (simp add: linkable_def)
  show "deltaNext (cells t ! j) = MapDeltaEmpty" using wf_tableD(2)[OF w j] e by (simp add: wf_cell_def)
  have j0: "j = p" if "e = 0" using assms that probe_0[OF sh p] by (simp add: linkable_def)
  show "j = p" if "e = 0" using j0 that .
  show "cell_hash (cells t ! p) \<noteq> MapHashEmpty \<and> \<not> ends_chain (word_of_nat e) \<and> j \<noteq> p" if "0 < e"
  proof -
    have "cell_hash (cells t ! probe t p (word_of_nat 0)) \<noteq> MapHashEmpty"
      using assms that unfolding linkable_def by blast
    then have "cell_hash (cells t ! p) \<noteq> MapHashEmpty" using probe_0[OF sh p] by simp
    then show ?thesis using small_delta(1)[OF that] assms e by (auto simp: linkable_def)
  qed
qed

lemma reach_trans: "reach t a b \<Longrightarrow> reach t b c \<Longrightarrow> reach t a c"
  by (induction rule: reach.induct) (auto intro: reach_step)

lemma reach_linked:
  assumes "linkable k h p j e t" and "reach t a b"
  shows "reach (linked h p j e t) a b"
  using assms(2)
proof (induction rule: reach.induct)
  case (reach_step i j')
  note D = linkableD[OF assms(1)]
  have i: "i \<noteq> p" "i \<noteq> j" using reach_step.hyps(1,2) D(6-8) by auto
  then have "cells (linked h p j e t) ! i = cells t ! i"
    using linked_cell[OF D(3,4), of h e i] by (auto intro: entry.equality)
  then show ?case
    using reach_step.IH reach_step.hyps(1,2) by (intro reach.reach_step[of "linked h p j e t" i]) simp_all
qed (rule reach_refl)

lemma reach_linked_new:
  assumes "linkable k h p j e t"
  shows "reach (linked h p j e t) (home t h) j"
proof -
  note D = linkableD[OF assms(1)]
  have step: "reach (linked h p j e t) p j"
  proof (cases "e = 0")
    case True
    then show ?thesis using D(10) by (simp add: reach_refl)
  next
    case False
    then have pos: "0 < e" by simp
    have d: "deltaNext (cells (linked h p j e t) ! p) = word_of_nat e"
      using linked_cell(2)[OF D(3,4), of h e p] pos by simp
    have "probe t p (word_of_nat e) = j" using assms by (simp add: linkable_def)
    then show ?thesis
      using D(9)[OF pos] linked_cell(1)[OF D(3,4), of h e p] d
      by (intro reach_step[of "linked h p j e t" p]) (simp_all add: reach_refl)
  qed
  have "reach t (home t h) p" using assms by (simp add: linkable_def)
  from reach_trans[OF reach_linked[OF assms this] step] show ?thesis .
qed

lemma finite_chain_linked:
  assumes "linkable k h p j e t" and "finite_chain t i"
  shows "finite_chain (linked h p j e t) i"
  using assms(2)
proof (induction rule: finite_chain.induct)
  case (chain_end i)
  note D = linkableD[OF assms(1)]
  have pj: "probe t p (word_of_nat e) = j" using assms by (simp add: linkable_def)
  show ?case
  proof (cases "i = p \<and> 0 < e")
    case True
    note De = D(9)[OF conjunct2[OF True]]
    have "deltaNext (cells (linked h p j e t) ! j) = MapDeltaEmpty"
      using D(8) De linked_cell(2)[OF D(3,4), of h e j] by simp
    then have "finite_chain (linked h p j e t) j" by (simp add: finite_chain.chain_end)
    moreover have "deltaNext (cells (linked h p j e t) ! i) = word_of_nat e"
      using True linked_cell(2)[OF D(3,4), of h e i] by simp
    ultimately show ?thesis
      using True De pj finite_chain.chain_step[of "linked h p j e t" i] by simp
  next
    case False
    then have "deltaNext (cells (linked h p j e t) ! i) = MapDeltaEmpty \<or>
        deltaNext (cells (linked h p j e t) ! i) = deltaNext (cells t ! i)"
      unfolding linked_cell(2)[OF D(3,4)] by (cases "i = p"; cases "0 < e") simp_all
    then have "ends_chain (deltaNext (cells (linked h p j e t) ! i))"
      using chain_end.hyps by (elim disjE) simp_all
    then show ?thesis by (rule finite_chain.chain_end)
  qed
next
  case (chain_step i)
  note D = linkableD[OF assms(1)]
  have "i \<noteq> p" using chain_step.hyps(1) D(7) by auto
  then show ?case
    using chain_step.hyps(1) chain_step.IH linked_cell(2)[OF D(3,4), of h e i]
    by (simp add: finite_chain.chain_step)
qed

lemma used_linked:
  assumes "linkable k h p j e t"
  shows "used_cells (linked h p j e t) = insert j (used_cells t)" and "j \<notin> used_cells t"
  using linkableD[OF assms] linked_cell(1)[of p t j h e]
  by (auto simp: used_cells_def split: if_splits)

lemma finite_used [simp]: "finite (used_cells t)"
  by (simp add: used_cells_def)

lemma wf_linked:
  assumes "linkable k h p j e t"
  shows "wf_table k (linked h p j e t)"
proof -
  note D = linkableD[OF assms] and U = used_linked[OF assms]
  let ?t = "linked h p j e t"
  note lc = linked_cell[OF D(3,4), of h e]
  have absent: "cell_hash (cells t ! i) \<noteq> h" if "i \<in> used_cells t" for i
    using assms that by (auto simp: linkable_def used_cells_def)
  have "wf_cell (cells ?t ! i)" if i: "i < length (cells t)" for i
  proof -
    have ext: "(word_of_nat e :: u32) \<noteq> MapDeltaExtend" if "0 < e"
      using D(9)[OF that] by (auto simp: ends_chain_def)
    show ?thesis
    proof (cases "0 < e \<and> i = p")
      case True
      then show ?thesis using D(9) ext lc[of i] by (simp add: wf_cell_def)
    next
      case False
      then show ?thesis
        using wf_tableD(2)[OF D(1) i] lc[of i] D(5,7,10)
        by (auto simp: wf_cell_def MapDeltaEmpty_def MapDeltaExtend_def)
    qed
  qed
  then have "\<forall>x\<in>set (cells ?t). wf_cell x" by (auto simp: in_set_conv_nth)
  moreover have "finite_chain ?t i" if "i < length (cells ?t)" for i
    using finite_chain_linked[OF assms] wf_tableD(3)[OF D(1)] that by simp
  moreover have "reach ?t (home ?t (cell_hash (cells ?t ! i))) i" if "i \<in> used_cells ?t" for i
  proof (cases "i = j")
    case True
    then show ?thesis using reach_linked_new[OF assms] lc(1)[of j] by simp
  next
    case False
    then have "i \<in> used_cells t" using that U by simp
    then show ?thesis using False reach_linked[OF assms wf_tableD(4)[OF D(1)]] lc(1)[of i] by simp
  qed
  moreover have "a = b" if "a \<in> used_cells ?t" "b \<in> used_cells ?t"
    "cell_hash (cells ?t ! a) = cell_hash (cells ?t ! b)" for a b
    using that wf_tableD(5)[OF D(1), of a b] absent lc(1)[of a] lc(1)[of b] U by (auto split: if_splits)
  moreover have "freeBuckets ?t + int (card (used_cells ?t)) = 3 * 2 ^ k div 4 \<and> 0 \<le> freeBuckets ?t"
    using D(1) U assms by (simp add: wf_table_def linkable_def)
  ultimately show ?thesis using D(2) by (simp add: wf_table_def)
qed

subsection \<open>Values\<close>

definition set_value :: "nat \<Rightarrow> u64 \<Rightarrow> hash_table \<Rightarrow> hash_table" where
  "set_value i v = set_cell i (\<lambda>e. e\<lparr>cell_value := v\<rparr>)"

lemma set_value_simps [simp]:
  "length (cells (set_value i v t)) = length (cells t)" "sizeMask (set_value i v t) = sizeMask t"
  "freeBuckets (set_value i v t) = freeBuckets t" "shaped k (set_value i v t) = shaped k t"
  "probe (set_value i v t) = probe t" "home (set_value i v t) = home t"
  by (simp_all add: set_value_def)

lemma set_value_cell [simp]:
  assumes "i < length (cells t)"
  shows "cell_hash (cells (set_value i v t) ! x) = cell_hash (cells t ! x)"
    and "deltaNext (cells (set_value i v t) ! x) = deltaNext (cells t ! x)"
    and "cell_value (cells (set_value i v t) ! x) = (if x = i then v else cell_value (cells t ! x))"
  using assms by (simp_all add: set_value_def cells_set_cell)

lemma used_set_value [simp]: "i < length (cells t) \<Longrightarrow> used_cells (set_value i v t) = used_cells t"
  by (simp add: used_cells_def)

lemma reach_set_value: "reach t a b \<Longrightarrow> i < length (cells t) \<Longrightarrow> reach (set_value i v t) a b"
proof (induction rule: reach.induct)
  case (reach_step c d)
  then show ?case using reach.reach_step[of "set_value i v t" c] by simp
qed (rule reach_refl)

lemma finite_chain_set_value: "finite_chain t a \<Longrightarrow> i < length (cells t) \<Longrightarrow> finite_chain (set_value i v t) a"
proof (induction rule: finite_chain.induct)
  case (chain_end c)
  then show ?case using finite_chain.chain_end[of "set_value i v t" c] by simp
next
  case (chain_step c)
  then show ?case using finite_chain.chain_step[of "set_value i v t" c] by simp
qed

lemma wf_set_value:
  assumes "wf_table k t" and "i < length (cells t)" and "i \<in> used_cells t \<or> v \<in> {MapValEmpty, MapValMove}"
  shows "wf_table k (set_value i v t)"
proof -
  have "wf_cell (cells (set_value i v t) ! x)" if "x < length (cells t)" for x
    using wf_tableD(2)[OF assms(1) that] assms(2,3) by (auto simp: wf_cell_def used_cells_def)
  then have "\<forall>e\<in>set (cells (set_value i v t)). wf_cell e" by (auto simp: in_set_conv_nth)
  then show ?thesis
    using assms(1,2) unfolding wf_table_def
    by (simp add: reach_set_value finite_chain_set_value)
qed

text \<open>Tables outside a migration: no cell is marked as moved.\<close>

definition settled :: "hash_table \<Rightarrow> bool" where
  "settled t \<longleftrightarrow> (\<forall>e\<in>set (cells t). cell_value e \<noteq> MapValMove)"

lemma settledD: "settled t \<Longrightarrow> i < length (cells t) \<Longrightarrow> cell_value (cells t ! i) \<noteq> MapValMove"
  by (simp add: settled_def)

lemma settled_iff: "settled t \<longleftrightarrow> (\<forall>i<length (cells t). cell_value (cells t ! i) \<noteq> MapValMove)"
  by (metis settled_def in_set_conv_nth)

lemma settled_set_value: "settled t \<Longrightarrow> i < length (cells t) \<Longrightarrow> v \<noteq> MapValMove \<Longrightarrow> settled (set_value i v t)"
  by (simp add: settled_iff)

lemma exchange_settled:
  "settled t \<Longrightarrow> i < length (cells t) \<Longrightarrow>
   exchange_value i v t = (INSERT_OK, cell_value (cells t ! i), set_value i v t)"
  by (simp add: exchange_value_def settledD set_value_def Let_def)

lemma lookup_eq:
  assumes "wf_table k t" and "wf_table k' t'"
    and "\<And>i. i \<in> used_cells t \<Longrightarrow> \<exists>j\<in>used_cells t'. cell_hash (cells t' ! j) = cell_hash (cells t ! i) \<and>
      cell_value (cells t' ! j) = (if cell_hash (cells t ! i) = h then v else cell_value (cells t ! i))"
    and "\<And>j. j \<in> used_cells t' \<Longrightarrow> cell_hash (cells t' ! j) = h \<or>
      (\<exists>i\<in>used_cells t. cell_hash (cells t ! i) = cell_hash (cells t' ! j))"
    and "\<exists>j\<in>used_cells t'. cell_hash (cells t' ! j) = h \<and> cell_value (cells t' ! j) = v" and "h \<noteq> MapHashEmpty"
  shows "lookup t' = (lookup t)(h := v)"
proof
  fix x
  have n: "j \<in> used_cells s" if "j < length (cells s)" "cell_hash (cells s ! j) = x" "x \<noteq> MapHashEmpty" for s j
    using that by (auto simp: used_cells_def)
  consider (empty) "x = MapHashEmpty" | (h) "x = h" | (stored) i where "x \<noteq> h" "i \<in> used_cells t" "cell_hash (cells t ! i) = x"
    | (absent) "x \<noteq> h" "x \<noteq> MapHashEmpty" "\<forall>i\<in>used_cells t. cell_hash (cells t ! i) \<noteq> x"
    by blast
  then show "lookup t' x = ((lookup t)(h := v)) x"
  proof cases
    case empty
    then show ?thesis using assms(6) by (simp add: lookup_def)
  next
    case h
    then show ?thesis using assms(5) lookup_stored[OF assms(2)] by auto
  next
    case stored
    then obtain j where "j \<in> used_cells t'" "cell_hash (cells t' ! j) = x" "cell_value (cells t' ! j) = cell_value (cells t ! i)"
      using assms(3)[of i] by auto
    then show ?thesis using stored lookup_stored[OF assms(1), of i] lookup_stored[OF assms(2), of j] by simp
  next
    case absent
    have "lookup t x = MapValEmpty" using absent(2,3) n by (intro lookup_absent) blast
    moreover have "lookup t' x = MapValEmpty"
      using absent assms(4) n by (intro lookup_absent) metis
    ultimately show ?thesis using absent(1) by simp
  qed
qed

lemma lookup_set_value:
  assumes "wf_table k t" and "i \<in> used_cells t"
  shows "lookup (set_value i v t) = (lookup t)(cell_hash (cells t ! i) := v)"
proof -
  have i: "i < length (cells t)" using assms(2) by (simp add: used_cells_def)
  have "x = i" if "x \<in> used_cells t" "cell_hash (cells t ! x) = cell_hash (cells t ! i)" for x
    using wf_tableD(5)[OF assms(1) that(1) assms(2) that(2)] .
  note same = this
  show ?thesis
  proof (rule lookup_eq[OF assms(1) wf_set_value[OF assms(1) i disjI1[OF assms(2)]]])
    fix x assume x: "x \<in> used_cells t"
    then show "\<exists>j\<in>used_cells (set_value i v t).
        cell_hash (cells (set_value i v t) ! j) = cell_hash (cells t ! x) \<and>
        cell_value (cells (set_value i v t) ! j) =
          (if cell_hash (cells t ! x) = cell_hash (cells t ! i) then v else cell_value (cells t ! x))"
      using same[OF x] i by (intro bexI[of _ x]) auto
  qed (use assms(2) i in \<open>auto simp: used_cells_def\<close>)
qed

lemma lookup_linked:
  assumes "linkable k h p j e t" and "settled t"
  shows "lookup (set_value j v (linked h p j e t)) = (lookup t)(h := v)"
    and "cell_value (cells (linked h p j e t) ! j) = MapValEmpty" and "lookup t h = MapValEmpty"
proof -
  note D = linkableD[OF assms(1)] and U = used_linked[OF assms(1)]
  let ?t = "linked h p j e t"
  note lc = linked_cell[OF D(3,4), of h e]
  have j: "j < length (cells ?t)" "j \<in> used_cells ?t" using D(4) U by simp_all
  show v: "cell_value (cells ?t ! j) = MapValEmpty"
    using wf_tableD(2)[OF D(1,4)] D(6) settledD[OF assms(2) D(4)] lc(3)[of j] by (simp add: wf_cell_def)
  show a: "lookup t h = MapValEmpty" using assms(1) by (intro lookup_absent) (simp add: linkable_def)
  have "lookup ?t = (lookup t)(h := MapValEmpty)"
  proof (rule lookup_eq[OF D(1) wf_linked[OF assms(1)]])
    fix i assume i: "i \<in> used_cells t"
    then have "i \<noteq> j" "cell_hash (cells t ! i) \<noteq> h" using U assms(1) by (auto simp: linkable_def used_cells_def)
    then show "\<exists>x\<in>used_cells ?t. cell_hash (cells ?t ! x) = cell_hash (cells t ! i) \<and>
        cell_value (cells ?t ! x) = (if cell_hash (cells t ! i) = h then MapValEmpty else cell_value (cells t ! i))"
      using i U lc(1,3)[of i] by (intro bexI[of _ i]) simp_all
  next
    fix x assume "x \<in> used_cells ?t"
    then show "cell_hash (cells ?t ! x) = h \<or> (\<exists>i\<in>used_cells t. cell_hash (cells t ! i) = cell_hash (cells ?t ! x))"
      using U lc(1)[of x] by auto
  qed (use j v lc(1)[of j] D(5) in auto)
  then show "lookup (set_value j v ?t) = (lookup t)(h := v)"
    using lookup_set_value[OF wf_linked[OF assms(1)] j(2), of v] lc(1)[of j] by simp
qed

lemma settled_linked: "linkable k h p j e t \<Longrightarrow> settled t \<Longrightarrow> settled (linked h p j e t)"
  using linkableD(3,4) linked_cell(3) by (auto simp: settled_iff)

text \<open>\<open>insertOrUpdate\<close> on a settled table: it updates the map, or it changes nothing.\<close>

lemma insertOrUpdate_spec:
  assumes "wf_table k t" and "settled t" and "h \<noteq> MapHashEmpty"
  shows "insertOrUpdate t h v = Inr (INSERT_OVERFLOW, MapValEmpty, t) \<or>
    (\<exists>t'. insertOrUpdate t h v = Inr (INSERT_OK, lookup t h, t') \<and> wf_table k t' \<and>
       lookup t' = (lookup t)(h := v) \<and> (v \<noteq> MapValMove \<longrightarrow> settled t'))"
proof -
  note sh = wf_tableD(1)[OF assms(1)]
  obtain w where w: "walk t h (home t h) 0 0 = Inr w"
    "case w of
       Same_Hash j \<Rightarrow> j < length (cells t) \<and> cell_hash (cells t ! j) = h
     | Tail p \<Rightarrow> p < length (cells t) \<and> reach t (probe t (home t h) 0) p \<and> deltaNext (cells t ! p) = MapDeltaEmpty \<and>
         (\<forall>x. reach t (probe t (home t h) 0) x \<longrightarrow> cell_hash (cells t ! x) \<noteq> h)
     | Too_Many_Jumps \<Rightarrow> True"
    using walk_spec[OF assms(1,3)] by blast
  show ?thesis
  proof (cases w)
    case (Same_Hash j)
    then have j: "j < length (cells t)" "cell_hash (cells t ! j) = h" "j \<in> used_cells t"
      using w assms(3) by (auto simp: used_cells_def)
    have "insertOrUpdate t h v = Inr (INSERT_OK, lookup t h, set_value j v t)"
      using w(1) Same_Hash exchange_settled[OF assms(2) j(1)] lookup_stored[OF assms(1) j(3)] j(2)
      by (simp add: insertOrUpdate_def)
    then show ?thesis
      using wf_set_value[OF assms(1) j(1)] lookup_set_value[OF assms(1) j(3)] settled_set_value[OF assms(2) j(1)] j(2,3)
      by auto
  next
    case (Tail p)
    have p: "p < length (cells t)" "reach t (home t h) p" "deltaNext (cells t ! p) = MapDeltaEmpty"
      "\<forall>x. reach t (home t h) x \<longrightarrow> cell_hash (cells t ! x) \<noteq> h"
      using w(2) Tail probe_0[OF sh home_less[OF sh]] by auto
    have absent: "\<forall>i<length (cells t). cell_hash (cells t ! i) \<noteq> h"
    proof (intro allI impI)
      fix i assume "i < length (cells t)"
      then show "cell_hash (cells t ! i) \<noteq> h"
        using p(4) wf_tableD(4)[OF assms(1), of i] assms(3) by (auto simp: used_cells_def)
    qed
    obtain r where r: "neighbourhood h v p 0 kNeighbourhood (set_delta p MapDeltaExtend t) = Inr r"
      "r = (INSERT_OVERFLOW, MapValEmpty, t) \<or>
       (\<exists>e. 0 \<le> e \<and> e < 0 + kNeighbourhood \<and> 0 < freeBuckets t \<and>
        (\<forall>e'<e. cell_hash (cells t ! probe t p (word_of_nat e')) \<noteq> MapHashEmpty) \<and>
        cell_hash (cells t ! probe t p (word_of_nat e)) = MapHashEmpty \<and>
        r = exchange_value (probe t p (word_of_nat e)) v (linked h p (probe t p (word_of_nat e)) e t))"
      using neighbourhood_effect[OF sh p(1,3) absent, of 0 v kNeighbourhood] by auto
    have i: "insertOrUpdate t h v = Inr r" using w(1) Tail r(1) by (simp add: insertOrUpdate_def)
    from r(2) show ?thesis
    proof (elim disjE exE conjE)
      fix e
      let ?j = "probe t p (word_of_nat e)"
      assume "e < 0 + kNeighbourhood" "0 < freeBuckets t"
        "\<forall>e'<e. cell_hash (cells t ! probe t p (word_of_nat e')) \<noteq> MapHashEmpty"
        "cell_hash (cells t ! ?j) = MapHashEmpty"
      then have l: "linkable k h p ?j e t"
        using assms(1,3) p absent by (simp add: linkable_def kNeighbourhood_def)
      assume re: "r = exchange_value ?j v (linked h p ?j e t)"
      note D = linkableD[OF l]
      have "r = (INSERT_OK, lookup t h, set_value ?j v (linked h p ?j e t))"
        using re exchange_settled[OF settled_linked[OF l assms(2)], of ?j v] D(4) lookup_linked(2,3)[OF l assms(2)] by simp
      moreover have "wf_table k (set_value ?j v (linked h p ?j e t))"
        using wf_set_value[OF wf_linked[OF l], of ?j] D(4) used_linked[OF l] by simp
      ultimately show ?thesis
        using i lookup_linked(1)[OF l assms(2)] settled_set_value[OF settled_linked[OF l assms(2)], of ?j] D(4) by auto
    qed (use i in simp)
  next
    case Too_Many_Jumps
    then show ?thesis using w(1) by (simp add: insertOrUpdate_def)
  qed
qed

subsection \<open>Sizes and fresh tables\<close>

lemma or_shr_bit:
  assumes "\<not> bit x 31"
  shows "bit (or_shr n x) m \<longleftrightarrow> bit x m \<or> bit x (m + n)" and "\<not> bit (or_shr n x) 31"
proof -
  have hi: "\<not> bit x i" if "31 \<le> i" for i
    using assms that bit_imp_le_length[of x i] by (cases "i = 31") auto
  then have "drop_bit n x = signed_drop_bit n x"
    by (intro bit_word_eqI) (auto simp: bit_simps min_def add.commute)
  then have e: "or_shr n x = x OR drop_bit n x" by (simp add: or_shr_def)
  show "bit (or_shr n x) m \<longleftrightarrow> bit x m \<or> bit x (m + n)" by (simp add: e bit_simps add.commute)
  then show "\<not> bit (or_shr n x) 31" using hi by (simp add: e bit_simps)
qed

text \<open>Bits spread downwards over a window.\<close>

definition spread :: "nat \<Rightarrow> jint \<Rightarrow> jint \<Rightarrow> bool" where
  "spread n y x \<longleftrightarrow> \<not> bit x 31 \<and> (\<forall>m. bit x m \<longleftrightarrow> (\<exists>d<n. bit y (m + d)))"

lemma spread_double: "spread n y x \<Longrightarrow> spread (2 * n) y (or_shr n x)"
proof -
  assume s: "spread n y x"
  have "(\<exists>d<n. bit y (m + d)) \<or> (\<exists>d<n. bit y (m + n + d)) \<longleftrightarrow> (\<exists>d<2 * n. bit y (m + d))" for m
  proof
    assume "\<exists>d<2 * n. bit y (m + d)"
    then obtain d where d: "d < 2 * n" "bit y (m + d)" by blast
    show "(\<exists>d<n. bit y (m + d)) \<or> (\<exists>d<n. bit y (m + n + d))"
    proof (cases "d < n")
      case False
      then have "d - n < n" "m + n + (d - n) = m + d" using d(1) by simp_all
      then show ?thesis using d(2) by metis
    qed (use d in blast)
  next
    assume "(\<exists>d<n. bit y (m + d)) \<or> (\<exists>d<n. bit y (m + n + d))"
    then show "\<exists>d<2 * n. bit y (m + d)"
    proof
      assume "\<exists>d<n. bit y (m + n + d)"
      then obtain d where "d < n" "bit y (m + (n + d))" by (auto simp: add.assoc)
      then show ?thesis by (intro exI[of _ "n + d"]) simp
    qed (metis add_strict_increasing less_imp_le mult_2 order_le_less_trans trans_less_add1)
  qed
  note window = this
  have hi: "\<not> bit x 31" and lo: "bit x m \<longleftrightarrow> (\<exists>d<n. bit y (m + d))" for m
    using s by (auto simp: spread_def)
  show ?thesis
    unfolding spread_def or_shr_bit(1)[OF hi] window[symmetric] using or_shr_bit(2)[OF hi] lo
    by (simp only: or_shr_bit(1)[OF hi]) simp
qed

lemma bit_unat: "bit (y :: jint) n \<longleftrightarrow> odd (unat y div 2 ^ n)"
  unfolding bit_iff_odd[of "unat y", symmetric] by (simp add: bit_unsigned_iff)

lemma smear_eq:
  assumes "spread 32 y x" and "unat y < 2 ^ 31"
  shows "\<exists>k\<le>31. x = mask k \<and> unat y < 2 ^ k \<and> (k = 0 \<or> 2 ^ (k - 1) \<le> unat y)"
proof (cases "unat y = 0")
  case True
  then have "x = 0" using assms(1) by (intro bit_word_eqI) (simp add: spread_def bit_unat)
  then show ?thesis using True by (intro exI[of _ 0]) simp
next
  case False
  then obtain n where n: "2 ^ n \<le> unat y" "unat y < 2 ^ (n + 1)" using ex_power_ivl1[of 2 "unat y"] by auto
  have "n < 31" using n(1) assms(2) by (metis le_less_trans nat_power_less_imp_less zero_less_numeral)
  have top: "bit y n"
  proof -
    have "unat y div 2 ^ n = 1" using n by (intro div_nat_eqI) simp_all
    then show ?thesis by (simp add: bit_unat)
  qed
  have above: "\<not> bit y m" if "n < m" for m
  proof -
    have "(2 :: nat) ^ (n + 1) \<le> 2 ^ m" using that by (intro power_increasing) simp_all
    then have "unat y div 2 ^ m = 0" using n(2) by simp
    then show ?thesis by (simp add: bit_unat)
  qed
  have "bit x m \<longleftrightarrow> m < n + 1" if "m < 32" for m
  proof
    assume "bit x m"
    then obtain d where "bit y (m + d)" using assms(1) by (auto simp: spread_def)
    then show "m < n + 1" using above[of "m + d"] by (cases "n < m + d") simp_all
  next
    assume "m < n + 1"
    then show "bit x m" using assms(1) top \<open>n < 31\<close> by (auto simp: spread_def intro!: exI[of _ "n - m"])
  qed
  then have "x = mask (n + 1)" by (intro bit_word_eqI) (simp add: bit_mask_iff)
  then show ?thesis using n \<open>n < 31\<close> by (intro exI[of _ "n + 1"]) simp
qed

lemma nearestPow2_spec:
  assumes "0 < sint x" and "sint x \<le> 2 ^ 30"
  shows "\<exists>k\<le>30. sint (nearestPow2 x) = 2 ^ k \<and> sint x \<le> 2 ^ k \<and> (\<forall>j<k. 2 ^ j < sint x)"
proof -
  let ?y = "x - 1"
  have "take_bit 32 (sint x) = sint x" using assms by (intro take_bit_int_eq_self) simp_all
  then have ux: "int (unat x) = sint x" using uint_sint[of x] by simp
  have "x \<noteq> 0" using assms(1) by auto
  then have uy: "unat ?y = unat x - 1" by (simp add: unat_minus_one)
  have "sint x \<le> 1073741824" using assms(2) by simp
  then have "unat x \<le> 1073741824" using ux by linarith
  then have "unat x \<le> 2 ^ 30" by simp
  then have y: "unat ?y < 2 ^ 30" using uy assms(1) ux by simp
  have "\<not> bit ?y 31" using y by (simp add: bit_unat)
  then have "spread 1 ?y ?y" by (simp add: spread_def)
  then have "spread 32 ?y (or_shr 16 (or_shr 8 (or_shr 4 (or_shr 2 (or_shr 1 ?y)))))"
    using spread_double[of 1 ?y] spread_double[of 2 ?y] spread_double[of 4 ?y] spread_double[of 8 ?y]
      spread_double[of 16 ?y] by simp
  then obtain k where k: "k \<le> 31" "nearestPow2 x = mask k + 1" "unat ?y < 2 ^ k" "k = 0 \<or> 2 ^ (k - 1) \<le> unat ?y"
    using smear_eq[of ?y] y by (auto simp: nearestPow2_def Let_def)
  have "k \<le> 30"
  proof (rule ccontr)
    assume "\<not> k \<le> 30"
    then have "k = 31" using k(1) by simp
    then show False using k(4) y by simp
  qed
  have "nearestPow2 x = 2 ^ k" using k(2) by (simp add: mask_eq_exp_minus_1)
  moreover have "sint (2 ^ k :: jint) = 2 ^ k"
  proof -
    have "(2 :: int) ^ k \<le> 2 ^ 30" using \<open>k \<le> 30\<close> by (intro power_increasing) simp_all
    then have "signed_take_bit 31 (int (2 ^ k)) = 2 ^ k"
      by (intro trans[OF signed_take_bit_int_eq_self]) (simp_all add: order_trans[of _ 0])
    moreover have "sint (word_of_nat (2 ^ k) :: jint) = signed_take_bit 31 (int (2 ^ k))"
      by (simp only: signed_of_nat) simp
    ultimately have "sint (word_of_nat (2 ^ k) :: jint) = 2 ^ k" by simp
    then show ?thesis by simp
  qed
  moreover have "sint x \<le> 2 ^ k"
  proof -
    have "unat x \<le> 2 ^ k" using k(3) uy by linarith
    then have "int (unat x) \<le> int (2 ^ k)" by (simp only: of_nat_le_iff)
    then show ?thesis using ux by simp
  qed
  moreover have "2 ^ j < sint x" if "j < k" for j
  proof -
    have "(2 :: nat) ^ j \<le> 2 ^ (k - 1)" using that by (intro power_increasing) simp_all
    moreover have "2 ^ (k - 1) \<le> unat ?y" using k(4) that by auto
    ultimately have "2 ^ j \<le> unat ?y" by (rule order_trans)
    then have "2 ^ j < unat x" using uy ux assms(1) by linarith
    then have "int (2 ^ j) < int (unat x)" by (simp only: of_nat_less_iff)
    then show ?thesis using ux by simp
  qed
  ultimately show ?thesis using \<open>k \<le> 30\<close> by auto
qed

lemma new_table_eq:
  assumes "0 < sint x" and "sint x \<le> 2 ^ 30"
  shows "\<exists>k. 5 \<le> k \<and> k \<le> 30 \<and> sint x \<le> 2 ^ k \<and> (k = 5 \<or> 2 ^ (k - 1) < sint x) \<and>
    new_table x = \<lparr>sizeMask = 2 ^ k - 1, cells = replicate (2 ^ k) empty_entry,
      freeBuckets = 3 * 2 ^ k div 4\<rparr>"
proof -
  obtain k where k: "k \<le> 30" "sint (nearestPow2 x) = 2 ^ k" "sint x \<le> 2 ^ k" "\<forall>j<k. 2 ^ j < sint x"
    using nearestPow2_spec[OF assms] by blast
  show ?thesis
  proof (cases "5 \<le> k")
    case True
    then have "(2 :: int) ^ 5 \<le> 2 ^ k" by (intro power_increasing) simp_all
    then have "nat (max (sint (nearestPow2 x)) (int kSizeMin)) = 2 ^ k"
      by (simp add: k(2) kSizeMin_def max_def nat_power_eq)
    then show ?thesis using True k by (intro exI[of _ k]) (simp add: new_table_def Let_def nat_power_eq)
  next
    case False
    then have le: "(2 :: int) ^ k \<le> 2 ^ 5" by (intro power_increasing) simp_all
    then have "nat (max (sint (nearestPow2 x)) (int kSizeMin)) = 2 ^ 5"
      by (simp add: k(2) kSizeMin_def max_def)
    then show ?thesis using le k(3) by (intro exI[of _ 5]) (simp add: new_table_def Let_def)
  qed
qed

lemma empty_table_wf:
  assumes "5 \<le> k" and "k \<le> 30"
    and "t = \<lparr>sizeMask = 2 ^ k - 1, cells = replicate (2 ^ k) empty_entry, freeBuckets = 3 * 2 ^ k div 4\<rparr>"
  shows "wf_table k t" and "settled t" and "lookup t = (\<lambda>_. MapValEmpty)"
proof -
  have "used_cells t = {}" by (auto simp: used_cells_def assms(3) empty_entry_def)
  moreover have "finite_chain t i" if "i < length (cells t)" for i
    using that by (intro chain_end) (simp add: assms(3) empty_entry_def)
  moreover have "(0 :: int) \<le> 3 * 2 ^ k div 4" by (simp add: pos_imp_zdiv_nonneg_iff)
  ultimately show "wf_table k t"
    using assms by (simp add: wf_table_def shaped_def wf_cell_def empty_entry_def MapDeltaEmpty_def MapDeltaExtend_def)
  show "settled t" by (simp add: settled_def assms(3) empty_entry_def MapValEmpty_def MapValMove_def)
  show "lookup t = (\<lambda>_. MapValEmpty)"
  proof
    fix h
    show "lookup t h = MapValEmpty"
    proof (cases "h = MapHashEmpty")
      case False
      then show ?thesis by (intro lookup_absent) (simp add: assms(3) empty_entry_def)
    qed (simp add: lookup_def)
  qed
qed

lemma new_table_wf:
  assumes "0 < sint x" and "sint x \<le> 2 ^ 30"
  shows "\<exists>k. wf_table k (new_table x) \<and> settled (new_table x) \<and> lookup (new_table x) = (\<lambda>_. MapValEmpty) \<and>
    sint x \<le> 2 ^ k \<and> (k = 5 \<or> 2 ^ (k - 1) < sint x)"
  using new_table_eq[OF assms] empty_table_wf by metis

lemma insert_into_empty_home:
  assumes "wf_table k t" and "settled t" and "h \<noteq> MapHashEmpty"
    and "cell_hash (cells t ! home t h) = MapHashEmpty" and "0 < freeBuckets t"
  shows "\<exists>t'. insertOrUpdate t h v = Inr (INSERT_OK, lookup t h, t')"
proof -
  note sh = wf_tableD(1)[OF assms(1)]
  have i: "home t h < length (cells t)" using home_less[OF sh] .
  then have d: "deltaNext (cells t ! home t h) = MapDeltaEmpty"
    using wf_tableD(2)[OF assms(1) i] assms(4) by (simp add: wf_cell_def)
  have "walk t h (home t h) 0 0 = Inr (Tail (home t h))"
    using i d assms(3,4) probe_0[OF sh i] by (subst walk.simps) (simp add: Let_def)
  moreover have "kNeighbourhood = Suc 15" by (simp add: kNeighbourhood_def)
  moreover have "\<exists>r old t'. neighbourhood h v (home t h) 0 (Suc 15) (set_delta (home t h) MapDeltaExtend t) =
      Inr (r, old, t') \<and> r \<noteq> INSERT_OVERFLOW"
    unfolding neighbourhood.simps(2) using i assms(4,5) probe_0[OF sh i]
    by (simp add: set_delta_def cells_set_cell Let_def exchange_value_def)
  ultimately have "\<exists>r old t'. insertOrUpdate t h v = Inr (r, old, t') \<and> r \<noteq> INSERT_OVERFLOW"
    by (simp add: insertOrUpdate_def)
  then show ?thesis using insertOrUpdate_spec[OF assms(1-3), of v] by auto
qed

lemma sint_word_of_nat: "n < 2 ^ 31 \<Longrightarrow> sint (word_of_nat n :: jint) = int n"
  using signed_take_bit_int_eq_self[of 31 "int n"] by (simp add: signed_of_nat)

lemma nearestPow2_big:
  assumes "2 ^ 30 < sint x"
  shows "sint (nearestPow2 x) < 0"
proof -
  let ?y = "x - 1"
  have "sint x < 2 ^ 31" using sint_less[of x] by simp
  then have "take_bit 32 (sint x) = sint x" using assms by (intro take_bit_int_eq_self) simp_all
  then have ux: "int (unat x) = sint x" using uint_sint[of x] by simp
  then have bounds: "2 ^ 30 < unat x" "unat x < 2 ^ 31" using assms \<open>sint x < 2 ^ 31\<close>
    by (simp_all, linarith+)
  have "x \<noteq> 0" using assms by auto
  then have uy: "unat ?y = unat x - 1" by (simp add: unat_minus_one)
  have y: "2 ^ 30 \<le> unat ?y" "unat ?y < 2 ^ 31" using bounds uy by simp_all
  have "\<not> bit ?y 31" using y by (simp add: bit_unat)
  then have "spread 1 ?y ?y" by (simp add: spread_def)
  then have "spread 32 ?y (or_shr 16 (or_shr 8 (or_shr 4 (or_shr 2 (or_shr 1 ?y)))))"
    using spread_double[of 1 ?y] spread_double[of 2 ?y] spread_double[of 4 ?y] spread_double[of 8 ?y]
      spread_double[of 16 ?y] by simp
  then obtain k where k: "k \<le> 31" "nearestPow2 x = mask k + 1" "unat ?y < 2 ^ k"
    using smear_eq[of ?y] y by (auto simp: nearestPow2_def Let_def)
  have "k = 31"
  proof (rule ccontr)
    assume "k \<noteq> 31"
    then have "(2 :: nat) ^ k \<le> 2 ^ 30" using k(1) by (intro power_increasing) simp_all
    then show False using k(3) y(1) by linarith
  qed
  then have "nearestPow2 x = 0x80000000" using k(2) by (simp add: mask_eq_exp_minus_1)
  then show ?thesis by simp
qed

text \<open>The shape of a table of \<open>2 ^ k\<close> unused cells.\<close>

definition fresh_table :: "nat \<Rightarrow> hash_table" where
  "fresh_table k = \<lparr>sizeMask = 2 ^ k - 1, cells = replicate (2 ^ k) empty_entry, freeBuckets = 3 * 2 ^ k div 4\<rparr>"

lemma new_table_power:
  assumes "5 \<le> k" and "k \<le> 30" and "sint x = 2 ^ k"
  shows "new_table x = fresh_table k"
proof -
  have "(2 :: int) ^ k \<le> 2 ^ 30" using assms by (intro power_increasing) simp_all
  then obtain j where j: "5 \<le> j" "sint x \<le> 2 ^ j" "j = 5 \<or> 2 ^ (j - 1) < sint x" "new_table x = fresh_table j"
    using new_table_eq[of x] assms(3) unfolding fresh_table_def by auto
  have "(2 :: int) ^ k \<le> 2 ^ j" using j(2) assms(3) by simp
  then have "k \<le> j" by (simp add: power_increasing_iff)
  moreover have "j \<le> k"
  proof (rule ccontr)
    assume "\<not> j \<le> k"
    then have "(2 :: int) ^ k \<le> 2 ^ (j - 1)" by (intro power_increasing) simp_all
    then show False using j(3) assms \<open>\<not> j \<le> k\<close> by simp
  qed
  ultimately show ?thesis using j(4) by simp
qed

lemma new_table_overflow: "new_table 0x80000000 = fresh_table 5"
proof -
  have "sint (nearestPow2 0x80000000) < 0" by code_simp
  then show ?thesis by (simp add: new_table_def fresh_table_def kSizeMin_def Let_def max_def)
qed

lemma new_table_doubled:
  assumes "5 \<le> k" and "k \<le> 30"
  shows "new_table (word_of_nat (2 * 2 ^ k)) = fresh_table (if k = 30 then 5 else k + 1)"
proof (cases "k = 30")
  case True
  then show ?thesis using new_table_overflow by simp
next
  case False
  then have "(2 :: nat) ^ (k + 1) \<le> 2 ^ 30" using assms by (intro power_increasing) simp_all
  then have "sint (word_of_nat (2 * 2 ^ k) :: jint) = 2 ^ (k + 1)" by (subst sint_word_of_nat) simp_all
  then show ?thesis using new_table_power[of "k + 1"] assms False by simp
qed

lemma fresh_table_wf:
  assumes "5 \<le> k" and "k \<le> 30"
  shows "wf_table k (fresh_table k)" and "settled (fresh_table k)" and "lookup (fresh_table k) = (\<lambda>_. MapValEmpty)"
    and "used_cells (fresh_table k) = {}"
  using empty_table_wf[OF assms, of "fresh_table k"]
  by (auto simp: fresh_table_def used_cells_def empty_entry_def)

subsection \<open>Tables without displaced cells\<close>

text \<open>
  A set of hashes with pairwise distinct home cells, and no more of them than the bucket budget: at
  \<open>2 ^ J\<close> cells, and so at every larger power.
\<close>

definition roomy :: "nat \<Rightarrow> i64 set \<Rightarrow> bool" where
  "roomy J H \<longleftrightarrow> finite H \<and> inj_on (\<lambda>h. unat h mod 2 ^ J) H \<and> 4 * card H \<le> 3 * 2 ^ J"

definition tidy :: "i64 set \<Rightarrow> hash_table \<Rightarrow> bool" where
  "tidy H t \<longleftrightarrow> (\<forall>i\<in>used_cells t. cell_hash (cells t ! i) \<in> H \<and> home t (cell_hash (cells t ! i)) = i)"

lemma tidy_room:
  assumes "wf_table k t" and "tidy H t" and "roomy J H" and "J \<le> k" and "h \<in> H" and "h \<noteq> MapHashEmpty"
    and "\<forall>i<length (cells t). cell_hash (cells t ! i) \<noteq> h"
  shows "cell_hash (cells t ! home t h) = MapHashEmpty" and "0 < freeBuckets t"
proof -
  note sh = wf_tableD(1)[OF assms(1)]
  show "cell_hash (cells t ! home t h) = MapHashEmpty"
  proof (rule ccontr)
    let ?x = "cell_hash (cells t ! home t h)"
    assume "?x \<noteq> MapHashEmpty"
    then have u: "home t h \<in> used_cells t" using home_less[OF sh] by (simp add: used_cells_def)
    then have x: "?x \<in> H" "home t ?x = home t h" using assms(2) by (auto simp: tidy_def)
    then have "unat ?x mod 2 ^ k = unat h mod 2 ^ k" using home_eq[OF sh] by simp
    moreover have "(2 :: nat) ^ J dvd 2 ^ k" using assms(4) by (rule le_imp_power_dvd)
    ultimately have "unat ?x mod 2 ^ J = unat h mod 2 ^ J"
      using mod_mod_cancel[of "2 ^ J" "2 ^ k" "unat ?x"] mod_mod_cancel[of "2 ^ J" "2 ^ k" "unat h"] by simp
    then have "?x = h" using assms(3,5) x(1) by (simp add: roomy_def inj_on_def)
    then show False using assms(7) home_less[OF sh] by simp
  qed
  have "(\<lambda>i. cell_hash (cells t ! i)) ` used_cells t \<subseteq> H - {h}"
    using assms(2,7) by (auto simp: tidy_def used_cells_def)
  moreover have "inj_on (\<lambda>i. cell_hash (cells t ! i)) (used_cells t)"
    using wf_tableD(5)[OF assms(1)] by (auto simp: inj_on_def)
  ultimately have "card (used_cells t) \<le> card (H - {h})"
    using assms(3) by (metis card_image card_mono finite_Diff roomy_def)
  moreover have "card (H - {h}) < card H" using assms(3,5) by (intro psubset_card_mono) (auto simp: roomy_def)
  ultimately have "4 * card (used_cells t) < 3 * 2 ^ J" using assms(3) by (simp add: roomy_def)
  moreover have "(2 :: nat) ^ J \<le> 2 ^ k" using assms(4) by (intro power_increasing) simp_all
  ultimately have less: "4 * card (used_cells t) < 3 * 2 ^ k" by linarith
  have "int (card (used_cells t)) < 3 * 2 ^ k div 4"
  proof -
    have "5 \<le> k" using sh by (simp add: shaped_def)
    then obtain m where m: "k = 2 + m" using le_Suc_ex[of 2 k] by auto
    have "4 * card (used_cells t) < 3 * (4 * 2 ^ m)" using less by (simp add: m power_add)
    then have "card (used_cells t) < 3 * 2 ^ m" by linarith
    then have "int (card (used_cells t)) < int (3 * 2 ^ m)" by (simp only: of_nat_less_iff)
    then have "int (card (used_cells t)) < 3 * 2 ^ m" by simp
    moreover have "(3 :: int) * 2 ^ k div 4 = 3 * 2 ^ m" by (simp add: m power_add)
    ultimately show ?thesis by simp
  qed
  then show "0 < freeBuckets t" using assms(1) by (simp add: wf_table_def)
qed

lemma insert_tidy:
  assumes "wf_table k t" and "settled t" and "tidy H t" and "roomy J H" and "J \<le> k" and "h \<in> H"
    and "h \<noteq> MapHashEmpty"
  shows "\<exists>t'. insertOrUpdate t h v = Inr (INSERT_OK, lookup t h, t') \<and> tidy H t'"
proof -
  note sh = wf_tableD(1)[OF assms(1)]
  have i: "home t h < length (cells t)" using home_less[OF sh] .
  show ?thesis
  proof (cases "\<exists>j<length (cells t). cell_hash (cells t ! j) = h")
    case True
    then obtain j where j: "j < length (cells t)" "cell_hash (cells t ! j) = h" by blast
    then have u: "j \<in> used_cells t" using assms(7) by (simp add: used_cells_def)
    then have hj: "home t h = j" using assms(3) j(2) by (auto simp: tidy_def)
    then have "walk t h (home t h) 0 0 = Inr (Same_Hash j)"
      using i j probe_0[OF sh i] by (subst walk.simps) (simp add: Let_def)
    then have "insertOrUpdate t h v = Inr (INSERT_OK, lookup t h, set_value j v t)"
      using exchange_settled[OF assms(2) j(1)] lookup_stored[OF assms(1) u] j(2) by (simp add: insertOrUpdate_def)
    moreover have "tidy H (set_value j v t)" using assms(3) j(1) by (simp add: tidy_def)
    ultimately show ?thesis by blast
  next
    case False
    then have absent: "\<forall>j<length (cells t). cell_hash (cells t ! j) \<noteq> h" by blast
    note room = tidy_room[OF assms(1,3-7) absent]
    let ?p = "home t h"
    have d: "deltaNext (cells t ! ?p) = MapDeltaEmpty"
      using wf_tableD(2)[OF assms(1) i] room(1) by (simp add: wf_cell_def)
    have l: "linkable k h ?p ?p 0 t"
      using assms(1,7) i d absent room probe_0[OF sh i] by (simp add: linkable_def reach_refl)
    have w: "walk t h ?p 0 0 = Inr (Tail ?p)"
      using i d room(1) assms(7) probe_0[OF sh i] by (subst walk.simps) (simp add: Let_def)
    have ext: "cell_hash (cells (set_delta ?p MapDeltaExtend t) ! ?p) = MapHashEmpty"
      using i room(1) by (simp add: set_delta_def cells_set_cell)
    have "neighbourhood h v ?p 0 (Suc 15) (set_delta ?p MapDeltaExtend t) =
        Inr (exchange_value ?p v (linked h ?p ?p 0 (set_delta ?p MapDeltaExtend t)))"
      unfolding neighbourhood.simps(2) using i room(2) probe_0[OF sh i] ext
      by (simp add: linked_def Let_def)
    moreover have "kNeighbourhood = Suc 15" by (simp add: kNeighbourhood_def)
    ultimately have "insertOrUpdate t h v = Inr (exchange_value ?p v (linked h ?p ?p 0 t))"
      using w linked_extend[OF i i] by (simp add: insertOrUpdate_def)
    moreover have "exchange_value ?p v (linked h ?p ?p 0 t) = (INSERT_OK, lookup t h, set_value ?p v (linked h ?p ?p 0 t))"
      using exchange_settled[OF settled_linked[OF l assms(2)], of ?p v] i lookup_linked(2,3)[OF l assms(2)] by simp
    moreover have "tidy H (set_value ?p v (linked h ?p ?p 0 t))"
      using assms(3,6) i used_linked[OF l] linked_cell(1)[OF i i, of h 0] by (auto simp: tidy_def)
    ultimately show ?thesis by simp
  qed
qed

subsection \<open>Properties\<close>

text \<open>
  \<open>nearestPow2\<close> computes, on the bits of a 32 bit integer between 1 and \<open>2 ^ 30\<close>, the least
  power of two that is not below it.
\<close>

theorem nearestPow2_least:
  assumes "0 < sint x" and "sint x \<le> 2 ^ 30"
  shows "\<exists>k\<le>30. sint (nearestPow2 x) = 2 ^ k \<and> sint x \<le> 2 ^ k \<and> (\<forall>j<k. 2 ^ j < sint x)"
  by (rule nearestPow2_spec[OF assms])

theorem nearestPow2_least_witness: "\<exists>k\<le>30. sint (nearestPow2 600) = 2 ^ k \<and> (600 :: int) \<le> 2 ^ k \<and> (\<forall>j<k. 2 ^ j < (600 :: int))"
  using nearestPow2_least[of 600] by simp

text \<open>
  \<open>find\<close> returns on every well-formed table, reads only inside the array, and ends at the cell
  that stores the hash; when it finds none the key reads as empty.
\<close>

theorem find_returns_stored_cell:
  assumes "wf_table k t" and "h \<noteq> MapHashEmpty"
  shows "\<exists>r. find_cell t h = Some (Inr r) \<and>
    (case r of None \<Rightarrow> (\<forall>e\<in>set (cells t). cell_hash e \<noteq> h) \<and> lookup t h = MapValEmpty
     | Some i \<Rightarrow> i < length (cells t) \<and> cell_hash (cells t ! i) = h \<and> lookup t h = cell_value (cells t ! i))"
proof -
  obtain r where r: "find_cell t h = Some (Inr r)"
    "case r of None \<Rightarrow> \<forall>j<length (cells t). cell_hash (cells t ! j) \<noteq> h
     | Some j \<Rightarrow> j < length (cells t) \<and> cell_hash (cells t ! j) = h"
    using find_cell_spec[OF assms] by blast
  then show ?thesis
    using find_cell_lookup[OF assms] by (auto simp: in_set_conv_nth split: option.splits)
qed

theorem find_returns_stored_cell_witness:
  "\<exists>r. find_cell (new_table 2) 5 = Some (Inr r) \<and> (case r of None \<Rightarrow> True | Some i \<Rightarrow> i < 32)"
proof -
  obtain k where k: "wf_table k (new_table 2)" using new_table_wf[of 2] by auto
  have "length (cells (new_table 2)) = 32" by code_simp
  then show ?thesis
    using find_returns_stored_cell[OF k, of 5] by (auto simp: MapHashEmpty_def split: option.splits)
qed

text \<open>
  \<open>insertOrUpdate\<close> on a well-formed table outside a migration returns and keeps the table
  well formed. Either it reports an overflow and changes nothing, or it stores the value under the
  hash, changes no other key and returns the value that was there. It does store when the home cell
  of the hash is free and a free bucket is left.
\<close>

theorem insert_updates_map:
  assumes "wf_table k t" and "settled t" and "h \<noteq> MapHashEmpty" and "v \<noteq> MapValMove"
  shows "\<exists>r old t'. insertOrUpdate t h v = Inr (r, old, t') \<and> wf_table k t' \<and> settled t' \<and>
    (if r = INSERT_OK then old = lookup t h \<and> lookup t' = (lookup t)(h := v)
     else r = INSERT_OVERFLOW \<and> t' = t \<and>
       (cell_hash (cells t ! home t h) \<noteq> MapHashEmpty \<or> freeBuckets t \<le> 0))"
proof -
  consider "insertOrUpdate t h v = Inr (INSERT_OVERFLOW, MapValEmpty, t)"
    | t' where "insertOrUpdate t h v = Inr (INSERT_OK, lookup t h, t')" "wf_table k t'"
      "lookup t' = (lookup t)(h := v)" "settled t'"
    using insertOrUpdate_spec[OF assms(1-3), of v] assms(4) by blast
  then show ?thesis
  proof cases
    case 1
    then have "\<not> (cell_hash (cells t ! home t h) = MapHashEmpty \<and> 0 < freeBuckets t)"
      using insert_into_empty_home[OF assms(1-3), of v] by auto
    then show ?thesis using 1 assms(1,2) by auto
  next
    case 2
    then show ?thesis by auto
  qed
qed

theorem insert_updates_map_witness:
  "\<exists>old t'. insertOrUpdate (new_table 2) 5 77 = Inr (INSERT_OK, old, t') \<and> old = MapValEmpty \<and> lookup t' 5 = 77"
proof -
  obtain k where k: "wf_table k (new_table 2)" "settled (new_table 2)" "lookup (new_table 2) = (\<lambda>_. MapValEmpty)"
    using new_table_wf[of 2] by auto
  have "cell_hash (cells (new_table 2) ! home (new_table 2) 5) = MapHashEmpty \<and> 0 < freeBuckets (new_table 2)"
    by code_simp
  then show ?thesis
    using insert_updates_map[OF k(1,2), of 5 77] k(3)
    by (auto simp: MapHashEmpty_def MapValMove_def split: if_splits)
qed

end
