(* ===== verification/Table_Concurrency.thy ===== *)
theory Table_Concurrency
  imports Hash_Table
begin

text \<open>
  One hash table used by many threads (\<^verbatim>\<open>concurrent_map.h\<close>): \<open>insertOrUpdate\<close>, and \<open>get\<close> and \<open>remove\<close> with the
  \<open>find\<close> they call, as atomic steps. A step is one access to an atomic variable: a load, a store, a compare-and-swap
  or a fetch-and-add. Memory is sequentially consistent.

  The field \<open>history\<close> is auxiliary: the operations that took effect, in that order, with the value each returned.
\<close>

datatype operation = Put u64 | Get | Remove

text \<open>
  The program points. Arguments are the local variables: the index \<open>i\<close>, \<open>delta\<close> and \<open>jumps\<close>; the end \<open>prev\<close> of the
  chain and the distance \<open>d\<close>; what a failed compare-and-swap has read; whether the cell was met in the linear search; \<open>oldValue\<close>.
\<close>

datatype table_pc =
    T_Idle
  | T_Walk nat u32 nat
  | T_Delta nat nat
  | T_Extend nat nat
  | T_Wait nat nat
  | T_Search nat nat
  | T_Reserve nat nat
  | T_Full nat
  | T_Reset nat
  | T_Claim nat nat
  | T_Refund nat nat i64
  | T_Link nat nat
  | T_Find nat
  | T_Next nat
  | T_Value nat bool
  | T_Swap nat bool u64
  | T_Done insert_outcome u64

record table_sys =
  table :: hash_table
  pcs :: "nat \<Rightarrow> table_pc"
  ops :: "nat \<Rightarrow> i64 \<times> operation"
  history :: "(i64 \<times> operation \<times> u64) list"

definition move :: "nat \<Rightarrow> table_pc \<Rightarrow> table_sys \<Rightarrow> table_sys" where
  "move t l s = s\<lparr>pcs := (pcs s)(t := l)\<rparr>"

text \<open>The operation of \<open>t\<close> takes effect and is about to return \<open>old\<close>.\<close>

definition effect :: "nat \<Rightarrow> u64 \<Rightarrow> table_sys \<Rightarrow> table_sys" where
  "effect t old s = move t (T_Done INSERT_OK old) (s\<lparr>history := history s @ [(fst (ops s t), snd (ops s t), old)]\<rparr>)"

fun new_value :: "operation \<Rightarrow> u64 \<Rightarrow> u64" where
  "new_value (Put v) old = v"
| "new_value Get old = old"
| "new_value Remove old = MapValEmpty"

text \<open>One step of thread \<open>t\<close>; \<open>x\<close> is the operation it starts when it is idle.\<close>

definition table_step :: "nat \<Rightarrow> i64 \<times> operation \<Rightarrow> table_sys \<Rightarrow> table_sys" where
  "table_step t x s = (let T = table s; tHash = fst (ops s t) in
   case pcs s t of
     T_Idle \<Rightarrow> move t (case snd x of Put v \<Rightarrow> T_Walk (home T (fst x)) 0 0 | _ \<Rightarrow> T_Find (home T (fst x))) (s\<lparr>ops := (ops s)(t := x)\<rparr>)
   | T_Walk i delta jumps \<Rightarrow>
       if jumps > kMaxJumpsAllowed then move t (T_Done INSERT_OVERFLOW MapValEmpty) s
       else let j = probe T i delta in
         move t (if cell_hash (cells T ! j) = tHash then T_Value j False else T_Delta j (jumps + 1)) s
   | T_Delta i jumps \<Rightarrow>
       let delta = deltaNext (cells T ! i) in
       move t (if \<not> ends_chain delta then T_Walk i delta jumps else T_Extend i jumps) s
   | T_Extend i jumps \<Rightarrow>
       if deltaNext (cells T ! i) = MapDeltaEmpty then move t (T_Search i 0) (s\<lparr>table := set_delta i MapDeltaExtend T\<rparr>)
       else move t (T_Wait i jumps) s
   | T_Wait i jumps \<Rightarrow> if deltaNext (cells T ! i) = MapDeltaExtend then s else move t (T_Walk i 0 jumps) s
   | T_Search prev d \<Rightarrow>
       if d \<ge> kNeighbourhood then move t (T_Reset prev) s
       else let j = probe T prev (word_of_nat d); bucketHash = cell_hash (cells T ! j) in
         move t (if bucketHash = MapHashEmpty then T_Reserve prev d
                 else if bucketHash = tHash then T_Value j True else T_Search prev (d + 1)) s
   | T_Reserve prev d \<Rightarrow>
       move t (if freeBuckets T \<le> 0 then T_Full prev else T_Claim prev d) (s\<lparr>table := T\<lparr>freeBuckets := freeBuckets T - 1\<rparr>\<rparr>)
   | T_Full prev \<Rightarrow> move t (T_Reset prev) (s\<lparr>table := T\<lparr>freeBuckets := freeBuckets T + 1\<rparr>\<rparr>)
   | T_Reset prev \<Rightarrow> move t (T_Done INSERT_OVERFLOW MapValEmpty) (s\<lparr>table := set_delta prev MapDeltaEmpty T\<rparr>)
   | T_Claim prev d \<Rightarrow>
       let j = probe T prev (word_of_nat d); bucketHash = cell_hash (cells T ! j) in
       if bucketHash = MapHashEmpty
       then move t (T_Link prev d) (s\<lparr>table := set_cell j (\<lambda>e. e\<lparr>cell_hash := tHash\<rparr>) T\<rparr>)
       else move t (T_Refund prev d bucketHash) s
   | T_Refund prev d bucketHash \<Rightarrow>
       move t (if bucketHash = tHash then T_Value (probe T prev (word_of_nat d)) True else T_Search prev (d + 1))
         (s\<lparr>table := T\<lparr>freeBuckets := freeBuckets T + 1\<rparr>\<rparr>)
   | T_Link prev d \<Rightarrow>
       move t (T_Value (probe T prev (word_of_nat d)) True)
         (s\<lparr>table := set_delta prev (if d > 0 then word_of_nat d else MapDeltaEmpty) T\<rparr>)
   | T_Find i \<Rightarrow>
       if cell_hash (cells T ! i) = MapHashEmpty then effect t MapValEmpty s
       else move t (if cell_hash (cells T ! i) = tHash then T_Value i False else T_Next i) s
   | T_Next i \<Rightarrow>
       let delta = deltaNext (cells T ! i) in
       if ends_chain delta then effect t MapValEmpty s else move t (T_Find (probe T i delta)) s
   | T_Value i searched \<Rightarrow>
       let oldValue = cell_value (cells T ! i) in
       if oldValue = MapValMove then move t (T_Done INSERT_HELP_MIGRATION oldValue) s
       else if snd (ops s t) = Get then effect t oldValue s
       else move t (T_Swap i searched oldValue) s
   | T_Swap i searched oldValue \<Rightarrow>
       let now = cell_value (cells T ! i) in
       if now = oldValue
       then effect t oldValue (s\<lparr>table := set_cell i (\<lambda>e. e\<lparr>cell_value := new_value (snd (ops s t)) oldValue\<rparr>) T\<rparr>)
       else if snd (ops s t) = Remove then effect t MapValEmpty s
       else if searched \<and> now = MapValMove then move t (T_Done INSERT_HELP_MIGRATION now) s
       else effect t now s
   | T_Done r old \<Rightarrow> move t T_Idle s)"

definition quiet_table :: "hash_table \<Rightarrow> table_sys" where
  "quiet_table T = \<lparr>table = T, pcs = (\<lambda>t. T_Idle), ops = (\<lambda>t. (0, Get)), history = []\<rparr>"

text \<open>All histories; and those in which operations on one hash do not overlap.\<close>

fun proper :: "operation \<Rightarrow> bool" where
  "proper (Put v) = (v \<noteq> MapValMove)"
| "proper _ = True"

definition alone :: "nat \<Rightarrow> i64 \<times> operation \<Rightarrow> table_sys \<Rightarrow> bool" where
  "alone t x s \<longleftrightarrow> (pcs s t = T_Idle \<longrightarrow> fst x \<noteq> MapHashEmpty \<and> proper (snd x) \<and>
     (\<forall>t'. pcs s t' \<noteq> T_Idle \<longrightarrow> fst (ops s t') \<noteq> fst x))"

inductive separate :: "hash_table \<Rightarrow> table_sys \<Rightarrow> bool" for T0 where
  start: "separate T0 (quiet_table T0)"
| step: "separate T0 s \<Longrightarrow> alone t x s \<Longrightarrow> separate T0 (table_step t x s)"

subsection \<open>What a history means\<close>

text \<open>Every operation of the history returned what the map held, and changed it as it should.\<close>

fun account :: "(i64 \<times> operation \<times> u64) list \<Rightarrow> (i64 \<Rightarrow> u64) \<Rightarrow> (i64 \<Rightarrow> u64) option" where
  "account [] m = Some m"
| "account ((h, x, old) # es) m = (if m h = old then account es (m(h := new_value x old)) else None)"

lemma account_snoc: "account (es @ [(h, x, old)]) m =
    (case account es m of None \<Rightarrow> None | Some m' \<Rightarrow> if m' h = old then Some (m'(h := new_value x old)) else None)"
  by (induction es m rule: account.induct) (auto simp del: fun_upd_apply)

subsection \<open>How a table evolves\<close>

text \<open>The \<open>n\<close> cells from \<open>p\<close> on are taken.\<close>

definition full :: "hash_table \<Rightarrow> nat \<Rightarrow> nat \<Rightarrow> bool" where
  "full T p n \<longleftrightarrow> (\<forall>m<n. cell_hash (cells T ! ((p + m) mod length (cells T))) \<noteq> MapHashEmpty)"

text \<open>A link never skips a free cell.\<close>

definition dense :: "hash_table \<Rightarrow> bool" where
  "dense T \<longleftrightarrow> (\<forall>i<length (cells T). \<not> ends_chain (deltaNext (cells T ! i)) \<longrightarrow> full T i (Suc (unat (deltaNext (cells T ! i)))))"

definition grows :: "hash_table \<Rightarrow> hash_table \<Rightarrow> bool" where
  "grows T T' \<longleftrightarrow> length (cells T') = length (cells T) \<and> sizeMask T' = sizeMask T \<and>
     (\<forall>i<length (cells T). cell_hash (cells T ! i) \<noteq> MapHashEmpty \<longrightarrow> cell_hash (cells T' ! i) = cell_hash (cells T ! i)) \<and>
     (\<forall>i<length (cells T). \<not> ends_chain (deltaNext (cells T ! i)) \<longrightarrow> deltaNext (cells T' ! i) = deltaNext (cells T ! i))"

lemma probe_small: "shaped k T \<Longrightarrow> d < 2 ^ 32 \<Longrightarrow> probe T p (word_of_nat d) = (p + d) mod length (cells T)"
  by (simp add: probe_eq shaped_length unat_of_nat take_bit_nat_eq_self)

lemma probe_link: "shaped k T \<Longrightarrow> probe T i delta = (i + unat delta) mod length (cells T)"
  by (simp add: probe_eq shaped_length)

lemma grows_shaped: "grows T T' \<Longrightarrow> shaped k T \<Longrightarrow> shaped k T'"
  by (simp add: grows_def shaped_def)

lemma grows_indices: "grows T T' \<Longrightarrow> home T' = home T \<and> probe T' = probe T"
  by (simp add: grows_def home_def probe_def fun_eq_iff)

lemma grows_full: "grows T T' \<Longrightarrow> full T p n \<Longrightarrow> i < length (cells T) \<Longrightarrow> full T' p n"
  by (cases "cells T") (simp_all add: grows_def full_def)

lemma grows_reach:
  assumes "reach T i j" and "grows T T'" and "shaped k T" and "i < length (cells T)"
  shows "reach T' i j"
  using assms
proof (induction rule: reach.induct)
  case (reach_step i j)
  have same: "cell_hash (cells T' ! i) = cell_hash (cells T ! i)" "deltaNext (cells T' ! i) = deltaNext (cells T ! i)"
    using reach_step.hyps(1,2) reach_step.prems by (simp_all add: grows_def)
  have "reach T' (probe T i (deltaNext (cells T ! i))) j"
    by (rule reach_step.IH[OF reach_step.prems(1,2) probe_less[OF reach_step.prems(2)]])
  then show ?case using reach_step.hyps(1,2) same grows_indices[OF reach_step.prems(1)]
    by (metis reach.reach_step)
qed (rule reach_refl)

lemma full_0 [simp]: "full T p 0"
  by (simp add: full_def)

lemma full_Suc: "full T p (Suc n) \<longleftrightarrow> full T p n \<and> cell_hash (cells T ! ((p + n) mod length (cells T))) \<noteq> MapHashEmpty"
  by (auto simp: full_def less_Suc_eq)

lemma dense_taken: "dense T \<Longrightarrow> i < length (cells T) \<Longrightarrow> \<not> ends_chain (deltaNext (cells T ! i)) \<Longrightarrow>
    cell_hash (cells T ! i) \<noteq> MapHashEmpty"
  by (fastforce simp: dense_def full_def)

text \<open>Chains cannot run around the table past a free cell.\<close>

lemma dense_finite:
  assumes "dense T" and "shaped k T" and "e < length (cells T)" and "cell_hash (cells T ! e) = MapHashEmpty"
    and "i < length (cells T)"
  shows "finite_chain T i"
proof -
  let ?N = "length (cells T)"
  have "finite_chain T i" if "i < ?N" "(i + n) mod ?N = e" for n i
    using that
  proof (induction n arbitrary: i rule: less_induct)
    case (less n)
    define d where "d = unat (deltaNext (cells T ! i))"
    show ?case
    proof (cases "ends_chain (deltaNext (cells T ! i))")
      case False
      then have f: "full T i (Suc d)" using assms(1) less.prems(1) by (simp add: dense_def d_def)
      then have "d < n" using assms(4) less.prems(2) unfolding full_def by (metis less_Suc_eq_le not_le)
      moreover have "0 < d" using False by (auto simp: d_def ends_chain_def MapDeltaEmpty_def unat_gt_0)
      moreover have "((i + d) mod ?N + (n - d)) mod ?N = e"
        using less.prems(2) \<open>d < n\<close> mod_add_left_eq[of "i + d" ?N "n - d"] by simp
      moreover have "n - d < n" using \<open>0 < d\<close> \<open>d < n\<close> by simp
      moreover have "(i + d) mod ?N < ?N" using less.prems(1) by (intro mod_less_divisor) auto
      ultimately have "finite_chain T ((i + d) mod ?N)" by (intro less.IH[of "n - d"])
      then show ?thesis using chain_step[of T i] False by (simp add: d_def probe_link[OF assms(2)])
    qed (rule chain_end)
  qed
  moreover have "(i + (e + ?N - i)) mod ?N = e" using assms(3,5) by simp
  ultimately show ?thesis using assms(5) by blast
qed

subsection \<open>Where a thread can be\<close>

text \<open>All cells with hash \<open>h\<close> lie ahead of \<open>i\<close> on its chain.\<close>

definition at_pos :: "hash_table \<Rightarrow> i64 \<Rightarrow> nat \<Rightarrow> bool" where
  "at_pos T h i \<longleftrightarrow> i < length (cells T) \<and> reach T (home T h) i \<and>
     (\<forall>c<length (cells T). cell_hash (cells T ! c) = h \<longrightarrow> reach T i c)"

definition absent :: "hash_table \<Rightarrow> i64 \<Rightarrow> bool" where
  "absent T h \<longleftrightarrow> (\<forall>c<length (cells T). cell_hash (cells T ! c) \<noteq> h)"

definition holds_end :: "hash_table \<Rightarrow> i64 \<Rightarrow> nat \<Rightarrow> nat \<Rightarrow> bool" where
  "holds_end T h p d \<longleftrightarrow> p < length (cells T) \<and> reach T (home T h) p \<and> deltaNext (cells T ! p) = MapDeltaExtend \<and> full T p d"

fun pc_ok :: "hash_table \<Rightarrow> i64 \<Rightarrow> table_pc \<Rightarrow> bool" where
  "pc_ok T h (T_Walk i delta jumps) \<longleftrightarrow> at_pos T h (probe T i delta)"
| "pc_ok T h (T_Delta i jumps) \<longleftrightarrow> at_pos T h i \<and> cell_hash (cells T ! i) \<noteq> h"
| "pc_ok T h (T_Extend i jumps) \<longleftrightarrow> at_pos T h i \<and> cell_hash (cells T ! i) \<noteq> h"
| "pc_ok T h (T_Wait i jumps) \<longleftrightarrow> at_pos T h i"
| "pc_ok T h (T_Search p d) \<longleftrightarrow> holds_end T h p d \<and> absent T h \<and> d \<le> kNeighbourhood"
| "pc_ok T h (T_Reserve p d) \<longleftrightarrow> holds_end T h p d \<and> absent T h \<and> d < kNeighbourhood"
| "pc_ok T h (T_Claim p d) \<longleftrightarrow> holds_end T h p d \<and> absent T h \<and> d < kNeighbourhood"
| "pc_ok T h (T_Refund p d b) \<longleftrightarrow> holds_end T h p (Suc d) \<and> absent T h \<and> d < kNeighbourhood \<and> b \<noteq> h"
| "pc_ok T h (T_Full p) \<longleftrightarrow> holds_end T h p 0 \<and> absent T h"
| "pc_ok T h (T_Reset p) \<longleftrightarrow> holds_end T h p 0 \<and> absent T h"
| "pc_ok T h (T_Link p d) \<longleftrightarrow> holds_end T h p (Suc d) \<and> d < kNeighbourhood \<and> cell_hash (cells T ! ((p + d) mod length (cells T))) = h"
| "pc_ok T h (T_Find i) \<longleftrightarrow> at_pos T h i"
| "pc_ok T h (T_Next i) \<longleftrightarrow> at_pos T h i \<and> cell_hash (cells T ! i) \<noteq> h \<and> cell_hash (cells T ! i) \<noteq> MapHashEmpty"
| "pc_ok T h (T_Value i b) \<longleftrightarrow> i < length (cells T) \<and> cell_hash (cells T ! i) = h"
| "pc_ok T h (T_Swap i b old) \<longleftrightarrow> i < length (cells T) \<and> cell_hash (cells T ! i) = h \<and> cell_value (cells T ! i) = old"
| "pc_ok T h T_Idle \<longleftrightarrow> True"
| "pc_ok T h (T_Done r old) \<longleftrightarrow> True"

text \<open>The cell whose end a thread extends; the cell it has claimed and not yet linked; units of \<open>freeBuckets\<close> it has taken.\<close>

fun extends :: "table_pc \<Rightarrow> nat option" where
  "extends (T_Search p d) = Some p"
| "extends (T_Reserve p d) = Some p"
| "extends (T_Claim p d) = Some p"
| "extends (T_Refund p d b) = Some p"
| "extends (T_Full p) = Some p"
| "extends (T_Reset p) = Some p"
| "extends (T_Link p d) = Some p"
| "extends _ = None"

fun links :: "hash_table \<Rightarrow> table_pc \<Rightarrow> nat option" where
  "links T (T_Link p d) = Some ((p + d) mod length (cells T))"
| "links T _ = None"

fun overdrawn :: "table_pc \<Rightarrow> bool" where
  "overdrawn (T_Full p) = True"
| "overdrawn _ = False"

fun reserved :: "table_pc \<Rightarrow> bool" where
  "reserved (T_Claim p d) = True"
| "reserved (T_Refund p d b) = True"
| "reserved _ = False"

text \<open>Only \<open>get\<close> and \<open>remove\<close> call \<open>find\<close>.\<close>

fun fits_op :: "operation \<Rightarrow> table_pc \<Rightarrow> bool" where
  "fits_op (Put v) (T_Find i) = False"
| "fits_op (Put v) (T_Next i) = False"
| "fits_op _ _ = True"

lemma fits_op_extends: "extends l \<noteq> None \<Longrightarrow> fits_op x l"
  by (cases x; cases l) auto

text \<open>What the steps of others leave alone, seen by a thread with hash \<open>h\<close>.\<close>

definition elsewhere :: "i64 \<Rightarrow> hash_table \<Rightarrow> hash_table \<Rightarrow> bool" where
  "elsewhere h T T' \<longleftrightarrow> (\<forall>c<length (cells T). (cell_hash (cells T' ! c) = h \<longrightarrow> cell_hash (cells T ! c) = h) \<and>
     (cell_hash (cells T ! c) = h \<longrightarrow> cell_value (cells T' ! c) = cell_value (cells T ! c)))"

lemma at_pos_grows:
  assumes "at_pos T h i" and "grows T T'" and "elsewhere h T T'" and "shaped k T"
  shows "at_pos T' h i"
  using assms grows_reach[OF _ assms(2,4)] home_less[OF assms(4)] grows_indices[OF assms(2)]
  by (auto simp: at_pos_def elsewhere_def grows_def)

lemma holds_end_grows:
  assumes "holds_end T h p d" and "grows T T'" and "shaped k T" and "deltaNext (cells T' ! p) = deltaNext (cells T ! p)"
  shows "holds_end T' h p d"
proof -
  have "length (cells T') = length (cells T)" using assms(2) by (simp add: grows_def)
  then show ?thesis
    using assms grows_reach[OF _ assms(2,3) home_less[OF assms(3)]] grows_indices[OF assms(2)] grows_full[OF assms(2)]
    by (auto simp: holds_end_def)
qed

lemma pc_ok_elsewhere:
  assumes "pc_ok T h l" and "grows T T'" and "elsewhere h T T'" and "shaped k T" and "h \<noteq> MapHashEmpty"
    and "\<forall>p. extends l = Some p \<longrightarrow> deltaNext (cells T' ! p) = deltaNext (cells T ! p)"
  shows "pc_ok T' h l"
proof -
  note g = at_pos_grows[OF _ assms(2-4)] holds_end_grows[OF _ assms(2,4)]
  have len: "length (cells T') = length (cells T)" "probe T' = probe T"
    using assms(2) grows_indices[OF assms(2)] by (simp_all add: grows_def)
  have e: "i < length (cells T) \<Longrightarrow> cell_hash (cells T' ! i) = h \<longleftrightarrow> cell_hash (cells T ! i) = h"
    "i < length (cells T) \<Longrightarrow> cell_hash (cells T ! i) = h \<Longrightarrow> cell_value (cells T' ! i) = cell_value (cells T ! i)"
    "i < length (cells T) \<Longrightarrow> cell_hash (cells T ! i) \<noteq> MapHashEmpty \<Longrightarrow> cell_hash (cells T' ! i) \<noteq> MapHashEmpty" for i
    using assms(2,3,5) unfolding grows_def elsewhere_def by metis+
  have a: "absent T h \<Longrightarrow> absent T' h" using e(1) by (auto simp: absent_def len)
  have i: "at_pos T h i \<Longrightarrow> i < length (cells T)" for i by (simp add: at_pos_def)
  have p: "(p + d) mod length (cells T) < length (cells T)" if "holds_end T h p n" for p d n
    using that by (intro mod_less_divisor) (auto simp: holds_end_def)
  show ?thesis
  proof (cases l)
    case (T_Link p d)
    then show ?thesis using assms(1,6) g(2) e(1)[OF p] by (auto simp: len)
  next
    case (T_Next j)
    then show ?thesis using assms(1) g(1) e(1,3)[OF i] by (auto simp: len)
  next
    case (T_Value j b)
    then show ?thesis using assms(1) e(1) by (simp add: len)
  next
    case (T_Swap j b old)
    then show ?thesis using assms(1) e(1,2) by (simp add: len)
  next
    case (T_Delta j jumps)
    then show ?thesis using assms(1) g(1) e(1)[OF i] by (auto simp: len)
  next
    case (T_Extend j jumps)
    then show ?thesis using assms(1) g(1) e(1)[OF i] by (auto simp: len)
  qed (use assms(1,6) g a in \<open>auto simp: len\<close>)
qed

subsection \<open>The invariant\<close>

definition stored_once :: "hash_table \<Rightarrow> bool" where
  "stored_once T \<longleftrightarrow> (\<forall>i\<in>used_cells T. \<forall>j\<in>used_cells T. cell_hash (cells T ! i) = cell_hash (cells T ! j) \<longrightarrow> i = j)"

definition holds :: "(i64 \<Rightarrow> u64) \<Rightarrow> hash_table \<Rightarrow> bool" where
  "holds m T \<longleftrightarrow> m MapHashEmpty = MapValEmpty \<and> (\<forall>h. absent T h \<longrightarrow> m h = MapValEmpty) \<and>
     (\<forall>i<length (cells T). cell_value (cells T ! i) \<noteq> MapValMove \<and> cell_value (cells T ! i) = m (cell_hash (cells T ! i)))"

definition count :: "(table_pc \<Rightarrow> bool) \<Rightarrow> table_sys \<Rightarrow> int" where
  "count P s = int (card {t. P (pcs s t)})"

definition budget :: "nat \<Rightarrow> table_sys \<Rightarrow> bool" where
  "budget k s \<longleftrightarrow> finite {t. pcs s t \<noteq> T_Idle} \<and> 0 \<le> freeBuckets (table s) + count overdrawn s \<and>
     freeBuckets (table s) + count overdrawn s + count reserved s + int (card (used_cells (table s))) = 3 * 2 ^ k div 4"

definition cells_ok :: "nat \<Rightarrow> (i64 \<Rightarrow> u64) \<Rightarrow> hash_table \<Rightarrow> bool" where
  "cells_ok k m T \<longleftrightarrow> shaped k T \<and> dense T \<and> stored_once T \<and> holds m T"

definition threads_ok :: "table_sys \<Rightarrow> bool" where
  "threads_ok s \<longleftrightarrow>
     (\<forall>t. pcs s t \<noteq> T_Idle \<longrightarrow> fst (ops s t) \<noteq> MapHashEmpty \<and> proper (snd (ops s t)) \<and>
       fits_op (snd (ops s t)) (pcs s t) \<and> pc_ok (table s) (fst (ops s t)) (pcs s t)) \<and>
     (\<forall>t t'. pcs s t \<noteq> T_Idle \<and> pcs s t' \<noteq> T_Idle \<and> fst (ops s t) = fst (ops s t') \<longrightarrow> t = t')"

definition owners_ok :: "table_sys \<Rightarrow> bool" where
  "owners_ok s \<longleftrightarrow>
     (\<forall>t t' p. extends (pcs s t) = Some p \<and> extends (pcs s t') = Some p \<longrightarrow> t = t') \<and>
     (\<forall>p<length (cells (table s)). deltaNext (cells (table s) ! p) = MapDeltaExtend \<longrightarrow> (\<exists>t. extends (pcs s t) = Some p))"

definition located :: "table_sys \<Rightarrow> bool" where
  "located s \<longleftrightarrow> (\<forall>i\<in>used_cells (table s). reach (table s) (home (table s) (cell_hash (cells (table s) ! i))) i \<or>
     (\<exists>t. links (table s) (pcs s t) = Some i))"

definition table_inv :: "nat \<Rightarrow> (i64 \<Rightarrow> u64) \<Rightarrow> table_sys \<Rightarrow> bool" where
  "table_inv k m s \<longleftrightarrow> cells_ok k m (table s) \<and> threads_ok s \<and> owners_ok s \<and> located s \<and> budget k s"

lemma extends_end: "pc_ok T h l \<Longrightarrow> extends l = Some p \<Longrightarrow> p < length (cells T) \<and> deltaNext (cells T ! p) = MapDeltaExtend"
  by (cases l) (auto simp: holds_end_def)

lemma links_hash: "pc_ok T h l \<Longrightarrow> links T l = Some i \<Longrightarrow> cell_hash (cells T ! i) = h"
  by (cases l) auto

lemma idle_simps [simp]: "extends T_Idle = None" "links T T_Idle = None" "\<not> overdrawn T_Idle" "\<not> reserved T_Idle"
  by simp_all

lemma links_cong: "length (cells T') = length (cells T) \<Longrightarrow> links T' l = links T l"
  by (cases l) simp_all

text \<open>A step that leaves the counts right.\<close>

lemma budget_step:
  assumes "budget k s" and "pcs s' = (pcs s)(t := l)"
    and "freeBuckets (table s) \<le> freeBuckets (table s') + of_bool (overdrawn l) - of_bool (overdrawn (pcs s t)) \<or>
      0 \<le> freeBuckets (table s') + of_bool (overdrawn l) - of_bool (overdrawn (pcs s t))"
    and "freeBuckets (table s') + of_bool (overdrawn l) - of_bool (overdrawn (pcs s t)) + of_bool (reserved l) -
      of_bool (reserved (pcs s t)) + int (card (used_cells (table s'))) = freeBuckets (table s) + int (card (used_cells (table s)))"
  shows "budget k s'"
proof -
  have fin: "finite {t. pcs s t \<noteq> T_Idle}" using assms(1) by (simp add: budget_def)
  have sub: "finite {t. P (pcs s t)}" if "\<not> P T_Idle" for P
    by (rule finite_subset[OF _ fin]) (use that in auto)
  have c: "count P s' = count P s + of_bool (P l) - of_bool (P (pcs s t))" if "\<not> P T_Idle" for P
    using card_moved[of P "pcs s" t l] sub[of P] that by (simp add: count_def assms(2))
  have "0 \<le> count overdrawn s" by (simp add: count_def)
  moreover have "finite {t. pcs s' t \<noteq> T_Idle}"
    by (rule finite_subset[of _ "insert t {t. pcs s t \<noteq> T_Idle}"]) (use fin in \<open>auto simp: assms(2)\<close>)
  moreover have "count overdrawn s' = count overdrawn s + of_bool (overdrawn l) - of_bool (overdrawn (pcs s t))"
    "count reserved s' = count reserved s + of_bool (reserved l) - of_bool (reserved (pcs s t))" by (simp_all add: c)
  ultimately show ?thesis using assms(1,3,4) unfolding budget_def by linarith
qed

text \<open>Any step, by what it does to the table.\<close>

lemma table_inv_step:
  assumes "table_inv k m s" and "pcs s t \<noteq> T_Idle"
    and "pcs s' = (pcs s)(t := l)" and "ops s' = ops s" and "grows (table s) (table s')"
    and "dense (table s')" and "stored_once (table s')" and "holds m' (table s')"
    and "fits_op (snd (ops s t)) l \<and> pc_ok (table s') (fst (ops s t)) l"
    and "\<And>h. h \<noteq> fst (ops s t) \<Longrightarrow> elsewhere h (table s) (table s')"
    and "\<And>p. p < length (cells (table s)) \<Longrightarrow> deltaNext (cells (table s') ! p) \<noteq> deltaNext (cells (table s) ! p) \<Longrightarrow>
      extends (pcs s t) = Some p \<or> deltaNext (cells (table s) ! p) = MapDeltaEmpty"
    and "\<And>p. extends l = Some p \<Longrightarrow> extends (pcs s t) = Some p \<or> deltaNext (cells (table s) ! p) = MapDeltaEmpty"
    and "\<And>p. p < length (cells (table s)) \<Longrightarrow> deltaNext (cells (table s') ! p) = MapDeltaExtend \<Longrightarrow>
      extends l = Some p \<or> deltaNext (cells (table s) ! p) = MapDeltaExtend \<and> extends (pcs s t) \<noteq> Some p"
    and "\<And>i. i \<in> used_cells (table s') \<Longrightarrow> reach (table s') (home (table s) (cell_hash (cells (table s') ! i))) i \<or>
      links (table s) l = Some i \<or> i \<in> used_cells (table s) \<and> links (table s) (pcs s t) \<noteq> Some i"
    and "budget k s'"
  shows "table_inv k m' s'"
proof -
  let ?T = "table s" and ?T' = "table s'"
  have sh: "shaped k ?T" using assms(1) by (simp add: table_inv_def cells_ok_def)
  have len: "length (cells ?T') = length (cells ?T)" "home ?T' = home ?T"
    using assms(5) grows_indices[OF assms(5)] by (simp_all add: grows_def)
  have th: "fst (ops s u) \<noteq> MapHashEmpty \<and> proper (snd (ops s u)) \<and>
      fits_op (snd (ops s u)) (pcs s u) \<and> pc_ok ?T (fst (ops s u)) (pcs s u)" if "pcs s u \<noteq> T_Idle" for u
    using assms(1) that by (simp add: table_inv_def threads_ok_def)
  have uniq: "u = u'" if "pcs s u \<noteq> T_Idle" "pcs s u' \<noteq> T_Idle" "fst (ops s u) = fst (ops s u')" for u u'
    using assms(1) that by (simp add: table_inv_def threads_ok_def)
  have own: "\<And>u u' p. extends (pcs s u) = Some p \<Longrightarrow> extends (pcs s u') = Some p \<Longrightarrow> u = u'"
    "\<And>p. p < length (cells ?T) \<Longrightarrow> deltaNext (cells ?T ! p) = MapDeltaExtend \<Longrightarrow> \<exists>u. extends (pcs s u) = Some p"
    using assms(1) by (auto simp: table_inv_def owners_ok_def)
  have ext: "p < length (cells ?T) \<and> deltaNext (cells ?T ! p) = MapDeltaExtend" if "extends (pcs s u) = Some p" for u p
    using th[of u] extends_end[OF _ that] that by (cases "pcs s u = T_Idle") auto
  have empty: "MapDeltaEmpty \<noteq> MapDeltaExtend" by (simp add: MapDeltaEmpty_def MapDeltaExtend_def)
  have "pc_ok ?T' (fst (ops s u)) (pcs s u)" if u: "pcs s u \<noteq> T_Idle" "u \<noteq> t" for u
  proof (rule pc_ok_elsewhere[OF _ assms(5) assms(10) sh])
    show "fst (ops s u) \<noteq> fst (ops s t)" using uniq[OF u(1) assms(2)] u(2) by auto
    show "\<forall>p. extends (pcs s u) = Some p \<longrightarrow> deltaNext (cells ?T' ! p) = deltaNext (cells ?T ! p)"
      using assms(11) own(1) ext u(2) empty by metis
  qed (use th[OF u(1)] in auto)
  then have "threads_ok s'"
    using assms(2,9) th uniq unfolding threads_ok_def assms(3,4) by auto
  moreover have "owners_ok s'"
    unfolding owners_ok_def assms(3) len
  proof (intro conjI allI impI)
    fix u u' p assume a: "extends (((pcs s)(t := l)) u) = Some p \<and> extends (((pcs s)(t := l)) u') = Some p"
    show "u = u'" using a own(1) assms(12)[of p] ext empty by (auto split: if_splits)
  next
    fix p assume a: "p < length (cells ?T)" "deltaNext (cells ?T' ! p) = MapDeltaExtend"
    show "\<exists>u. extends (((pcs s)(t := l)) u) = Some p" using assms(13)[OF a] own(2)[OF a(1)] by (metis fun_upd_other fun_upd_same)
  qed
  moreover have "located s'"
    unfolding located_def assms(3) len
  proof
    fix i assume i: "i \<in> used_cells ?T'"
    consider "reach ?T' (home ?T (cell_hash (cells ?T' ! i))) i" | "links ?T l = Some i"
      | "i \<in> used_cells ?T" "links ?T (pcs s t) \<noteq> Some i" using assms(14)[OF i] by blast
    then show "reach ?T' (home ?T (cell_hash (cells ?T' ! i))) i \<or> (\<exists>u. links ?T' (((pcs s)(t := l)) u) = Some i)"
    proof cases
      case 2
      then show ?thesis by (intro disjI2 exI[of _ t]) (simp add: links_cong[OF len(1)])
    next
      case 3
      have "cell_hash (cells ?T' ! i) = cell_hash (cells ?T ! i)" using 3(1) assms(5) by (simp add: used_cells_def grows_def)
      moreover have "reach ?T (home ?T (cell_hash (cells ?T ! i))) i \<or> (\<exists>u. links ?T (pcs s u) = Some i)"
        using assms(1) 3(1) by (simp add: table_inv_def located_def)
      ultimately show ?thesis using grows_reach[OF _ assms(5) sh home_less[OF sh]] 3(2) links_cong[OF len(1)]
        by (metis fun_upd_other)
    qed blast
  qed
  ultimately show ?thesis using assms(6-8,15) grows_shaped[OF assms(5) sh] by (simp add: table_inv_def cells_ok_def)
qed

text \<open>Steps that leave the cells alone.\<close>

lemma reach_free [simp]: "reach (T\<lparr>freeBuckets := f\<rparr>) i j = reach T i j"
proof -
  have p: "probe (T\<lparr>freeBuckets := f\<rparr>) = probe T" for T f by (simp add: probe_def fun_eq_iff)
  have 1: "reach (T\<lparr>freeBuckets := f\<rparr>) i j" if "reach T i j" for T f
    using that by (induction rule: reach.induct) (auto intro: reach_refl reach_step simp: p)
  show ?thesis
  proof
    assume a: "reach (T\<lparr>freeBuckets := f\<rparr>) i j"
    show "reach T i j" using 1[OF a, of "freeBuckets T"] by simp
  qed (rule 1)
qed

lemma free_simps [simp]:
  "home (T\<lparr>freeBuckets := f\<rparr>) = home T" "probe (T\<lparr>freeBuckets := f\<rparr>) = probe T"
  "full (T\<lparr>freeBuckets := f\<rparr>) = full T" "dense (T\<lparr>freeBuckets := f\<rparr>) = dense T"
  "used_cells (T\<lparr>freeBuckets := f\<rparr>) = used_cells T" "holds m (T\<lparr>freeBuckets := f\<rparr>) = holds m T"
  "grows T (T\<lparr>freeBuckets := f\<rparr>)" "elsewhere h T (T\<lparr>freeBuckets := f\<rparr>)" "absent (T\<lparr>freeBuckets := f\<rparr>) h = absent T h"
  "stored_once (T\<lparr>freeBuckets := f\<rparr>) = stored_once T" "at_pos (T\<lparr>freeBuckets := f\<rparr>) h = at_pos T h"
  "holds_end (T\<lparr>freeBuckets := f\<rparr>) h = holds_end T h" "links (T\<lparr>freeBuckets := f\<rparr>) l = links T l"
  by (auto simp: home_def probe_def full_def dense_def used_cells_def holds_def grows_def elsewhere_def absent_def stored_once_def
      at_pos_def holds_end_def fun_eq_iff intro: links_cong)

lemma pc_ok_free [simp]: "pc_ok (T\<lparr>freeBuckets := f\<rparr>) h l = pc_ok T h l"
  by (cases l) simp_all

lemma table_inv_cells:
  assumes "table_inv k m s" and "pcs s t \<noteq> T_Idle"
    and "pcs s' = (pcs s)(t := l)" and "ops s' = ops s" and "table s' = (table s)\<lparr>freeBuckets := f\<rparr>"
    and "fits_op (snd (ops s t)) l \<and> pc_ok (table s) (fst (ops s t)) l" and "extends l = extends (pcs s t)" and "links (table s) (pcs s t) = None"
    and "freeBuckets (table s) \<le> f + of_bool (overdrawn l) - of_bool (overdrawn (pcs s t)) \<or>
      0 \<le> f + of_bool (overdrawn l) - of_bool (overdrawn (pcs s t))"
    and "f + of_bool (overdrawn l) - of_bool (overdrawn (pcs s t)) + of_bool (reserved l) -
      of_bool (reserved (pcs s t)) = freeBuckets (table s)"
  shows "table_inv k m s'"
proof (rule table_inv_step[OF assms(1-4)])
  show "budget k s'"
    by (rule budget_step[OF _ assms(3)]) (use assms(1,9,10) in \<open>simp_all add: table_inv_def assms(5)\<close>)
qed (use assms(1,6-8) in \<open>auto simp: table_inv_def cells_ok_def assms(5)\<close>)

lemma table_inv_local:
  assumes "table_inv k m s" and "pcs s t \<noteq> T_Idle" and "fits_op (snd (ops s t)) l \<and> pc_ok (table s) (fst (ops s t)) l"
    and "extends l = extends (pcs s t)" and "links (table s) (pcs s t) = None"
    and "overdrawn l = overdrawn (pcs s t)" and "reserved l = reserved (pcs s t)"
  shows "table_inv k m (move t l (s\<lparr>history := es\<rparr>))"
  by (rule table_inv_cells[OF assms(1,2), where l = l and f = "freeBuckets (table s)"])
    (use assms(3-7) in \<open>simp_all add: move_def\<close>)

subsection \<open>Positions\<close>

lemma at_pos_next:
  assumes "at_pos T h i" and "shaped k T" and "dense T" and "cell_hash (cells T ! i) \<noteq> h"
    and "\<not> ends_chain (deltaNext (cells T ! i))"
  shows "at_pos T h (probe T i (deltaNext (cells T ! i)))"
proof -
  let ?n = "probe T i (deltaNext (cells T ! i))"
  have i: "i < length (cells T)" "reach T (home T h) i" using assms(1) by (simp_all add: at_pos_def)
  have "reach T i ?n" by (rule reach_step[OF dense_taken[OF assms(3) i(1) assms(5)] assms(5) reach_refl])
  then have "reach T (home T h) ?n" by (rule reach_trans[OF i(2)])
  moreover have "reach T ?n c" if "c < length (cells T)" "cell_hash (cells T ! c) = h" for c
  proof -
    have "reach T i c" using assms(1) that by (simp add: at_pos_def)
    then show ?thesis by (rule reachE) (use assms(4) that(2) in auto)
  qed
  ultimately show ?thesis using probe_less[OF assms(2)] by (simp add: at_pos_def)
qed

lemma at_pos_end:
  assumes "at_pos T h i" and "cell_hash (cells T ! i) \<noteq> h"
    and "ends_chain (deltaNext (cells T ! i)) \<or> cell_hash (cells T ! i) = MapHashEmpty"
  shows "absent T h"
  unfolding absent_def
proof (intro allI impI notI)
  fix c assume c: "c < length (cells T)" "cell_hash (cells T ! c) = h"
  then have "reach T i c" using assms(1) by (simp add: at_pos_def)
  then have "c = i" by (rule reachE) (use assms(3) in auto)
  then show False using c(2) assms(2) by simp
qed

subsection \<open>Changes of a cell\<close>

lemma set_delta_cells:
  assumes "p < length (cells T)"
  shows "cell_hash (cells (set_delta p d T) ! i) = cell_hash (cells T ! i)"
    and "cell_value (cells (set_delta p d T) ! i) = cell_value (cells T ! i)"
    and "deltaNext (cells (set_delta p d T) ! i) = (if i = p then d else deltaNext (cells T ! i))"
  using assms by (simp_all add: set_delta_def cells_set_cell)

lemma set_delta_same_map:
  assumes "p < length (cells T)"
  shows "full (set_delta p d T) = full T" and "used_cells (set_delta p d T) = used_cells T"
    and "stored_once (set_delta p d T) = stored_once T" and "absent (set_delta p d T) = absent T"
    and "holds m (set_delta p d T) = holds m T" and "elsewhere h T (set_delta p d T)"
  using set_delta_cells[OF assms]
  by (simp_all add: full_def used_cells_def stored_once_def absent_def holds_def elsewhere_def fun_eq_iff)

lemma set_delta_grows: "p < length (cells T) \<Longrightarrow> ends_chain (deltaNext (cells T ! p)) \<Longrightarrow> grows T (set_delta p d T)"
  by (auto simp: grows_def set_delta_cells)

lemma set_delta_dense: "p < length (cells T) \<Longrightarrow> dense T \<Longrightarrow> ends_chain d \<or> full T p (Suc (unat d)) \<Longrightarrow> dense (set_delta p d T)"
  by (auto simp: dense_def set_delta_cells set_delta_same_map)

lemma claim_cell:
  assumes "shaped k T" and "dense T" and "stored_once T" and "holds m T" and "absent T h" and "h \<noteq> MapHashEmpty"
    and "j < length (cells T)" and "cell_hash (cells T ! j) = MapHashEmpty"
  defines "T' \<equiv> set_cell j (\<lambda>e. e\<lparr>cell_hash := h\<rparr>) T"
  shows "grows T T'" and "dense T'" and "stored_once T'" and "holds m T'"
    and "h' \<noteq> h \<Longrightarrow> elsewhere h' T T'" and "deltaNext (cells T' ! i) = deltaNext (cells T ! i)"
    and "cell_hash (cells T' ! i) = (if i = j then h else cell_hash (cells T ! i))"
    and "card (used_cells T') = Suc (card (used_cells T))" and "used_cells T' = insert j (used_cells T)"
proof -
  have c: "cell_hash (cells T' ! i) = (if i = j then h else cell_hash (cells T ! i))"
    "deltaNext (cells T' ! i) = deltaNext (cells T ! i)" "cell_value (cells T' ! i) = cell_value (cells T ! i)" for i
    using assms(7) by (simp_all add: T'_def cells_set_cell)
  have len: "length (cells T') = length (cells T)" "sizeMask T' = sizeMask T" by (simp_all add: T'_def)
  show g: "grows T T'" using assms(8) by (auto simp: grows_def c len)
  have f: "full T p n \<Longrightarrow> full T' p n" for p n using grows_full[OF g _ assms(7)] .
  show "dense T'" using assms(2) f by (auto simp: dense_def c len)
  show u: "used_cells T' = insert j (used_cells T)" using assms(6,7) by (auto simp: used_cells_def c len)
  have n: "j \<notin> used_cells T" "\<And>i. i \<in> used_cells T \<Longrightarrow> cell_hash (cells T ! i) \<noteq> h"
    using assms(5,8) by (auto simp: used_cells_def absent_def)
  then show "stored_once T'" using assms(3) by (auto simp: stored_once_def u c)
  have "m h = MapValEmpty" "m MapHashEmpty = MapValEmpty" using assms(4,5) by (auto simp: holds_def)
  moreover have "h' = MapHashEmpty \<or> absent T h'" if "absent T' h'" for h'
    using that assms(8) by (auto simp: absent_def c len split: if_splits)
  moreover have "cell_value (cells T ! i) = m (if i = j then h else cell_hash (cells T ! i))" if "i < length (cells T)" for i
    using assms(4,8) that calculation(1,2) by (auto simp: holds_def)
  moreover have "cell_value (cells T ! i) \<noteq> MapValMove" if "i < length (cells T)" for i
    using assms(4) that unfolding holds_def by blast
  moreover have "absent T h' \<Longrightarrow> m h' = MapValEmpty" for h' using assms(4) by (simp add: holds_def)
  ultimately show "holds m T'" unfolding holds_def c len by blast
  have "finite (used_cells T)" by (simp add: used_cells_def)
  then show "card (used_cells T') = Suc (card (used_cells T))" using n(1) by (simp add: u)
  show "h' \<noteq> h \<Longrightarrow> elsewhere h' T T'" by (auto simp: elsewhere_def c)
qed (use assms(7) in \<open>simp_all add: T'_def cells_set_cell\<close>)

subsection \<open>Every step keeps the invariant\<close>

text \<open>The map may change, by an operation that is then the last of the history.\<close>

definition goes_on :: "nat \<Rightarrow> (i64 \<Rightarrow> u64) \<Rightarrow> table_sys \<Rightarrow> table_sys \<Rightarrow> bool" where
  "goes_on k m s s' \<longleftrightarrow> (\<exists>m'. table_inv k m' s' \<and>
     (history s' = history s \<and> m' = m \<or>
      (\<exists>h x. history s' = history s @ [(h, x, m h)] \<and> m' = m(h := new_value x (m h)))))"

lemma goes_on_same: "table_inv k m s' \<Longrightarrow> history s' = history s \<Longrightarrow> goes_on k m s s'"
  by (auto simp: goes_on_def)

lemma goes_on_move:
  assumes "table_inv k m s" and "pcs s t \<noteq> T_Idle" and "fits_op (snd (ops s t)) l \<and> pc_ok (table s) (fst (ops s t)) l"
    and "extends l = extends (pcs s t)" and "links (table s) (pcs s t) = None"
    and "overdrawn l = overdrawn (pcs s t)" and "reserved l = reserved (pcs s t)"
  shows "goes_on k m s (move t l s)"
  using table_inv_local[OF assms, of "history s"] by (intro goes_on_same) (simp_all add: move_def)

lemma goes_on_read:
  assumes "table_inv k m s" and "pcs s t \<noteq> T_Idle" and "extends (pcs s t) = None"
    and "\<not> overdrawn (pcs s t)" and "\<not> reserved (pcs s t)"
    and "m (fst (ops s t)) = old" and "new_value (snd (ops s t)) old = old"
  shows "goes_on k m s (effect t old s)"
proof -
  have "links (table s) (pcs s t) = None" using assms(3) by (cases "pcs s t") auto
  then have "table_inv k m (effect t old s)"
    using table_inv_local[OF assms(1,2), of "T_Done INSERT_OK old"] assms(3-5) by (simp add: effect_def)
  moreover have "m = m(fst (ops s t) := new_value (snd (ops s t)) old)" using assms(6,7) by auto
  ultimately show ?thesis unfolding goes_on_def
    by (intro exI[of _ m] conjI) (auto simp: effect_def move_def assms(6))
qed

lemma table_inv_thread:
  assumes "table_inv k m s" and "pcs s t \<noteq> T_Idle"
  shows "pc_ok (table s) (fst (ops s t)) (pcs s t)" and "fst (ops s t) \<noteq> MapHashEmpty" and "proper (snd (ops s t))"
    and "shaped k (table s)" and "dense (table s)" and "stored_once (table s)" and "holds m (table s)" and "budget k s"
    and "fits_op (snd (ops s t)) (pcs s t)"
  using assms by (simp_all add: table_inv_def threads_ok_def cells_ok_def)

lemma goes_on_extend:
  assumes "table_inv k m s" and "pcs s t = T_Extend i jumps"
  shows "goes_on k m s (table_step t x s)"
proof -
  have busy: "pcs s t \<noteq> T_Idle" by (simp add: assms(2))
  note ti = table_inv_thread[OF assms(1) busy]
  have i: "at_pos (table s) (fst (ops s t)) i" "cell_hash (cells (table s) ! i) \<noteq> fst (ops s t)" using ti(1) by (simp_all add: assms(2))
  show ?thesis
  proof (cases "deltaNext (cells (table s) ! i) = MapDeltaEmpty")
    case True
    define T' where "T' = set_delta i MapDeltaExtend (table s)"
    have len: "i < length (cells (table s))" using i(1) by (simp add: at_pos_def)
    have g: "grows (table s) T'" unfolding T'_def by (rule set_delta_grows[OF len]) (simp add: True)
    have a: "absent (table s) (fst (ops s t))" by (rule at_pos_end[OF i]) (simp add: True)
    have reach: "reach T' (home (table s) (fst (ops s t))) i"
      by (rule grows_reach[OF _ g ti(4) home_less[OF ti(4)]]) (use i(1) in \<open>simp add: at_pos_def\<close>)
    have "table_inv k m (move t (T_Search i 0) (s\<lparr>table := T'\<rparr>))"
    proof (rule table_inv_step[OF assms(1) busy])
      show "budget k (move t (T_Search i 0) (s\<lparr>table := T'\<rparr>))"
        by (rule budget_step[OF ti(8), where t = t and l = "T_Search i 0"])
          (simp_all add: move_def T'_def assms(2) set_delta_same_map[OF len])
    qed (use g a reach len ti in \<open>auto simp: move_def T'_def assms(2) set_delta_same_map set_delta_cells set_delta_dense True
        holds_end_def used_cells_def split: if_splits\<close>)
    then show ?thesis using assms(2) True by (intro goes_on_same) (simp_all add: table_step_def Let_def move_def T'_def)
  next
    case False
    then show ?thesis using goes_on_move[OF assms(1) busy, of "T_Wait i jumps"] i assms(2) by (simp add: table_step_def Let_def)
  qed
qed

lemma goes_on_reset:
  assumes "table_inv k m s" and "pcs s t = T_Reset p"
  shows "goes_on k m s (table_step t x s)"
proof -
  have busy: "pcs s t \<noteq> T_Idle" by (simp add: assms(2))
  note ti = table_inv_thread[OF assms(1) busy]
  have p: "p < length (cells (table s))" "deltaNext (cells (table s) ! p) = MapDeltaExtend"
    using ti(1) by (simp_all add: assms(2) holds_end_def)
  define T' where "T' = set_delta p MapDeltaEmpty (table s)"
  have g: "grows (table s) T'" unfolding T'_def by (rule set_delta_grows[OF p(1)]) (simp add: p(2))
  have ne: "MapDeltaEmpty \<noteq> MapDeltaExtend" by (simp add: MapDeltaEmpty_def MapDeltaExtend_def)
  let ?s = "move t (T_Done INSERT_OVERFLOW MapValEmpty) (s\<lparr>table := T'\<rparr>)"
  have "table_inv k m ?s"
  proof (rule table_inv_step[OF assms(1) busy])
    show "budget k ?s"
      by (rule budget_step[OF ti(8), where t = t and l = "T_Done INSERT_OVERFLOW MapValEmpty"])
        (simp_all add: move_def T'_def assms(2) set_delta_same_map[OF p(1)])
  qed (use g p ti ne in \<open>auto simp: move_def T'_def assms(2) set_delta_same_map set_delta_cells set_delta_dense split: if_splits\<close>)
  then show ?thesis using assms(2) by (intro goes_on_same) (simp_all add: table_step_def Let_def move_def T'_def)
qed

lemma goes_on_claim:
  assumes "table_inv k m s" and "pcs s t = T_Claim p d"
  shows "goes_on k m s (table_step t x s)"
proof -
  have busy: "pcs s t \<noteq> T_Idle" by (simp add: assms(2))
  note ti = table_inv_thread[OF assms(1) busy]
  have he: "holds_end (table s) (fst (ops s t)) p d" "absent (table s) (fst (ops s t))" "d < kNeighbourhood"
    using ti(1) by (simp_all add: assms(2))
  define j where "j = (p + d) mod length (cells (table s))"
  have j: "probe (table s) p (word_of_nat d) = j" "j < length (cells (table s))"
    using probe_small[OF ti(4)] he by (auto simp: j_def kNeighbourhood_def holds_end_def intro!: mod_less_divisor)
  show ?thesis
  proof (cases "cell_hash (cells (table s) ! j) = MapHashEmpty")
    case True
    define T' where "T' = set_cell j (\<lambda>e. e\<lparr>cell_hash := fst (ops s t)\<rparr>) (table s)"
    note cc = claim_cell[OF ti(4-7) he(2) ti(2) j(2) True, folded T'_def]
    have len: "length (cells T') = length (cells (table s))" "freeBuckets T' = freeBuckets (table s)" by (simp_all add: T'_def)
    let ?s = "move t (T_Link p d) (s\<lparr>table := T'\<rparr>)"
    have "holds_end T' (fst (ops s t)) p d" by (rule holds_end_grows[OF he(1) cc(1) ti(4)]) (simp add: cc(6))
    then have "pc_ok T' (fst (ops s t)) (T_Link p d)"
      using he(3) ti(2) by (simp add: holds_end_def full_Suc cc(7) len j_def)
    then have "table_inv k m ?s"
      by (intro table_inv_step[OF assms(1) busy, where l = "T_Link p d"] budget_step[OF ti(8), where t = t and l = "T_Link p d"])
        (use cc len in \<open>auto simp: move_def assms(2) j_def[symmetric]\<close>)
    then show ?thesis using assms(2) j True by (intro goes_on_same) (simp_all add: table_step_def Let_def move_def T'_def)
  next
    case False
    then have "pc_ok (table s) (fst (ops s t)) (T_Refund p d (cell_hash (cells (table s) ! j)))"
      using he j(2) by (simp add: holds_end_def full_Suc j_def absent_def)
    then show ?thesis using goes_on_move[OF assms(1) busy] assms(2) False j(1) by (simp add: table_step_def Let_def)
  qed
qed

lemma goes_on_link:
  assumes "table_inv k m s" and "pcs s t = T_Link p d"
  shows "goes_on k m s (table_step t x s)"
proof -
  have busy: "pcs s t \<noteq> T_Idle" by (simp add: assms(2))
  note ti = table_inv_thread[OF assms(1) busy]
  let ?h = "fst (ops s t)"
  define j where "j = (p + d) mod length (cells (table s))"
  have he: "p < length (cells (table s))" "reach (table s) (home (table s) ?h) p" "full (table s) p (Suc d)"
    "deltaNext (cells (table s) ! p) = MapDeltaExtend" "d < 16" "cell_hash (cells (table s) ! j) = ?h"
    using ti(1) by (simp_all add: assms(2) holds_end_def kNeighbourhood_def j_def)
  have j: "probe (table s) p (word_of_nat d) = j" "j < length (cells (table s))"
    using probe_small[OF ti(4)] he(1,5) by (auto simp: j_def intro!: mod_less_divisor)
  define d' where "d' = (if d > 0 then word_of_nat d else MapDeltaEmpty)"
  define T' where "T' = set_delta p d' (table s)"
  have g: "grows (table s) T'" unfolding T'_def by (rule set_delta_grows[OF he(1)]) (simp add: he(4))
  have ne: "MapDeltaEmpty \<noteq> MapDeltaExtend" by (simp add: MapDeltaEmpty_def MapDeltaExtend_def)
  have d': "d' \<noteq> MapDeltaExtend" "0 < d \<Longrightarrow> \<not> ends_chain d' \<and> unat d' = d" "d = 0 \<Longrightarrow> ends_chain d'"
    using small_delta[of d] he(5) ne by (auto simp: d'_def ends_chain_def)
  have dense: "dense T'" unfolding T'_def by (rule set_delta_dense[OF he(1) ti(5)]) (use he(3) d' in \<open>cases "d = 0"; simp\<close>)
  have "reach T' (home (table s) ?h) p" by (rule grows_reach[OF he(2) g ti(4) home_less[OF ti(4)]])
  moreover have "reach T' p j"
  proof (cases "d = 0")
    case True
    then show ?thesis using he(1) by (simp add: j_def reach_refl)
  next
    case False
    have "cell_hash (cells (table s) ! p) \<noteq> MapHashEmpty" using he(1,3) by (auto simp: full_def)
    moreover have "reach T' (probe T' p (deltaNext (cells T' ! p))) j"
      using False j(1) he(1) by (simp add: T'_def set_delta_cells d'_def reach_refl)
    ultimately show ?thesis using reach_step[of T' p j] False d'(2) he(1) by (simp add: T'_def set_delta_cells)
  qed
  ultimately have linked: "reach T' (home (table s) ?h) j" by (rule reach_trans)
  let ?s = "move t (T_Value j True) (s\<lparr>table := T'\<rparr>)"
  have "table_inv k m ?s"
  proof (rule table_inv_step[OF assms(1) busy])
    show "budget k ?s"
      by (rule budget_step[OF ti(8), where t = t and l = "T_Value j True"])
        (simp_all add: move_def T'_def assms(2) set_delta_same_map[OF he(1)])
    show "reach (table ?s) (home (table s) (cell_hash (cells (table ?s) ! i))) i \<or> links (table s) (T_Value j True) = Some i \<or>
        i \<in> used_cells (table s) \<and> links (table s) (pcs s t) \<noteq> Some i" if "i \<in> used_cells (table ?s)" for i
      using that linked he(6) by (auto simp: move_def assms(2) j_def T'_def set_delta_same_map[OF he(1)] set_delta_cells[OF he(1)])
  qed (use g dense he j(2) ti ne d'(1) in \<open>auto simp: move_def T'_def assms(2) set_delta_same_map set_delta_cells split: if_splits\<close>)
  then show ?thesis using assms(2) j(1) by (intro goes_on_same) (simp_all add: table_step_def Let_def move_def T'_def d'_def)
qed

lemma goes_on_swap:
  assumes "table_inv k m s" and "pcs s t = T_Swap i b old"
  shows "goes_on k m s (table_step t x s)"
proof -
  have busy: "pcs s t \<noteq> T_Idle" by (simp add: assms(2))
  note ti = table_inv_thread[OF assms(1) busy]
  let ?h = "fst (ops s t)" and ?v = "new_value (snd (ops s t)) old"
  have i: "i < length (cells (table s))" "cell_hash (cells (table s) ! i) = ?h" "cell_value (cells (table s) ! i) = old"
    using ti(1) by (simp_all add: assms(2))
  have old: "old = m ?h" "old \<noteq> MapValMove" using ti(7) i by (auto simp: holds_def)
  have v: "?v \<noteq> MapValMove" using ti(3) old(2) by (cases "snd (ops s t)") (auto simp: MapValEmpty_def MapValMove_def)
  define T' where "T' = set_cell i (\<lambda>e. e\<lparr>cell_value := ?v\<rparr>) (table s)"
  have c: "cell_hash (cells T' ! a) = cell_hash (cells (table s) ! a)" "deltaNext (cells T' ! a) = deltaNext (cells (table s) ! a)"
    "cell_value (cells T' ! a) = (if a = i then ?v else cell_value (cells (table s) ! a))" for a
    using i(1) by (simp_all add: T'_def cells_set_cell)
  have len: "length (cells T') = length (cells (table s))" "sizeMask T' = sizeMask (table s)" "freeBuckets T' = freeBuckets (table s)"
    by (simp_all add: T'_def)
  have same: "used_cells T' = used_cells (table s)" "full T' = full (table s)" "absent T' = absent (table s)"
    by (simp_all add: used_cells_def full_def absent_def c len fun_eq_iff)
  have only: "a = i" if "a < length (cells (table s))" "cell_hash (cells (table s) ! a) = ?h" for a
    using ti(2,6) i that by (auto simp: stored_once_def used_cells_def)
  have holds': "holds (m(?h := ?v)) T'"
    unfolding holds_def
  proof (intro conjI allI impI)
    show "(m(?h := ?v)) MapHashEmpty = MapValEmpty" using ti(2,7) by (simp add: holds_def)
  next
    fix h assume "absent T' h"
    then have "absent (table s) h" "h \<noteq> ?h" using i by (auto simp: same absent_def)
    then show "(m(?h := ?v)) h = MapValEmpty" using ti(7) by (simp add: holds_def)
  next
    fix a assume a: "a < length (cells T')"
    have "cell_value (cells (table s) ! a) \<noteq> MapValMove" using ti(7) a len(1) unfolding holds_def by metis
    then show "cell_value (cells T' ! a) \<noteq> MapValMove" using v by (simp add: c)
    show "cell_value (cells T' ! a) = (m(?h := ?v)) (cell_hash (cells T' ! a))"
    proof (cases "a = i")
      case False
      then have "cell_hash (cells (table s) ! a) \<noteq> ?h" using only[of a] a by (auto simp: len)
      moreover have "cell_value (cells (table s) ! a) = m (cell_hash (cells (table s) ! a))"
        using ti(7) a unfolding holds_def len by blast
      ultimately show ?thesis using False by (simp add: c)
    qed (simp add: c i(2))
  qed
  have g: "grows (table s) T'" "dense T'" "stored_once T'" "h \<noteq> ?h \<Longrightarrow> elsewhere h (table s) T'" for h
    using ti(5,6) i(2) by (auto simp: grows_def dense_def stored_once_def elsewhere_def c len same)
  let ?s = "effect t old (s\<lparr>table := T'\<rparr>)"
  have "table_inv k (m(?h := ?v)) ?s"
    by (intro table_inv_step[OF assms(1) busy, where l = "T_Done INSERT_OK old"]
        budget_step[OF ti(8), where t = t and l = "T_Done INSERT_OK old"])
      (use g holds' in \<open>auto simp: effect_def move_def assms(2) c len same\<close>)
  then show ?thesis unfolding goes_on_def
    by (intro exI[of _ "m(?h := ?v)"] conjI)
      (auto simp: table_step_def Let_def assms(2) i(3) effect_def move_def T'_def old(1))
qed

lemma goes_on_count:
  assumes "table_inv k m s" and "pcs s t \<noteq> T_Idle" and "fits_op (snd (ops s t)) l \<and> pc_ok (table s) (fst (ops s t)) l"
    and "extends l = extends (pcs s t)" and "links (table s) (pcs s t) = None"
    and "freeBuckets (table s) \<le> f + of_bool (overdrawn l) - of_bool (overdrawn (pcs s t)) \<or>
      0 \<le> f + of_bool (overdrawn l) - of_bool (overdrawn (pcs s t))"
    and "f + of_bool (overdrawn l) - of_bool (overdrawn (pcs s t)) + of_bool (reserved l) -
      of_bool (reserved (pcs s t)) = freeBuckets (table s)"
  shows "goes_on k m s (move t l (s\<lparr>table := (table s)\<lparr>freeBuckets := f\<rparr>\<rparr>))"
  by (intro goes_on_same table_inv_cells[OF assms(1,2), where l = l and f = f]) (use assms(3-7) in \<open>simp_all add: move_def\<close>)

lemma holds_end_less: "holds_end T h p d \<Longrightarrow> holds_end T h p 0"
  by (simp add: holds_end_def)

lemma goes_on_start:
  assumes "table_inv k m s" and "pcs s t = T_Idle" and "alone t x s"
  shows "goes_on k m s (table_step t x s)"
proof -
  let ?T = "table s" and ?h = "fst x"
  have ok: "shaped k ?T" "threads_ok s" "owners_ok s" "located s" "budget k s" "cells_ok k m ?T"
    using assms(1) by (simp_all add: table_inv_def cells_ok_def)
  have x: "?h \<noteq> MapHashEmpty" "proper (snd x)" "\<forall>u. pcs s u \<noteq> T_Idle \<longrightarrow> fst (ops s u) \<noteq> ?h"
    using assms(2,3) by (auto simp: alone_def)
  have "reach ?T (home ?T ?h) c" if c: "c < length (cells ?T)" "cell_hash (cells ?T ! c) = ?h" for c
  proof -
    have "links ?T (pcs s u) \<noteq> Some c" for u
    proof
      assume l: "links ?T (pcs s u) = Some c"
      then have "pcs s u \<noteq> T_Idle" by auto
      then have "pc_ok ?T (fst (ops s u)) (pcs s u)" "fst (ops s u) \<noteq> ?h"
        using x(3) ok(2) unfolding threads_ok_def by blast+
      then show False using links_hash[OF _ l, of "fst (ops s u)"] c(2) by simp
    qed
    then show ?thesis using ok(4) c x(1) by (auto simp: located_def used_cells_def)
  qed
  then have pos: "at_pos ?T ?h (home ?T ?h)" using home_less[OF ok(1)] by (simp add: at_pos_def reach_refl)
  define l where "l = (case snd x of Put v \<Rightarrow> T_Walk (home ?T ?h) 0 0 | _ \<Rightarrow> T_Find (home ?T ?h))"
  define s' where "s' = move t l (s\<lparr>ops := (ops s)(t := x)\<rparr>)"
  have l: "extends l = None" "links ?T l = None" "\<not> overdrawn l" "\<not> reserved l" "l \<noteq> T_Idle"
    by (cases "snd x"; simp add: l_def)+
  have "probe ?T (home ?T ?h) 0 = home ?T ?h" by (rule probe_0[OF ok(1) home_less[OF ok(1)]])
  then have "fits_op (snd x) l \<and> pc_ok ?T ?h l" using pos by (cases "snd x") (simp_all add: l_def)
  then have "threads_ok s'"
    using ok(2) x unfolding threads_ok_def s'_def move_def by auto
  moreover have "owners_ok s'"
    using ok(3) assms(2) l(1) unfolding owners_ok_def s'_def move_def
    by (auto split: if_splits) (metis idle_simps(1) option.distinct(1))
  moreover have "located s'"
    using ok(4) assms(2) unfolding located_def s'_def move_def
    by simp (metis idle_simps(2) option.distinct(1))
  moreover have "budget k s'"
    by (rule budget_step[OF ok(5), where t = t and l = l]) (simp_all add: s'_def move_def assms(2) l)
  ultimately have "table_inv k m s'" using ok(6) by (simp add: table_inv_def s'_def move_def)
  then show ?thesis
    by (intro goes_on_same) (simp_all add: table_step_def Let_def assms(2) s'_def l_def move_def)
qed

lemma table_step_goes_on:
  assumes "table_inv k m s" and "alone t x s"
  shows "goes_on k m s (table_step t x s)"
proof (cases "pcs s t = T_Idle")
  case True
  then show ?thesis by (rule goes_on_start[OF assms(1) _ assms(2)])
next
  case busy: False
  note ti = table_inv_thread[OF assms(1) busy]
  note mv = goes_on_move[OF assms(1) busy]
  note rd = goes_on_read[OF assms(1) busy]
  let ?h = "fst (ops s t)"
  have m: "m ?h = MapValEmpty" if "absent (table s) ?h" using ti(7) that by (simp add: holds_def)
  have stays: "new_value (snd (ops s t)) MapValEmpty = MapValEmpty" if "\<And>v. snd (ops s t) \<noteq> Put v"
    using that by (cases "snd (ops s t)") auto
  show ?thesis
  proof (cases "pcs s t")
    case (T_Walk i delta jumps)
    then have "at_pos (table s) ?h (probe (table s) i delta)" using ti(1) by simp
    then show ?thesis using T_Walk by (auto simp: table_step_def Let_def at_pos_def intro!: mv)
  next
    case (T_Delta i jumps)
    then show ?thesis using ti(1) at_pos_next[OF _ ti(4,5), of ?h i] by (auto simp: table_step_def Let_def intro!: mv)
  next
    case (T_Wait i jumps)
    have "probe (table s) i 0 = i" using probe_0[OF ti(4)] ti(1) T_Wait by (simp add: at_pos_def)
    moreover have "goes_on k m s s" using assms(1) by (rule goes_on_same) simp
    ultimately show ?thesis using T_Wait ti(1) by (simp add: table_step_def Let_def mv)
  next
    case (T_Search p d)
    have he: "holds_end (table s) ?h p d" "absent (table s) ?h" "d \<le> kNeighbourhood" using ti(1) T_Search by simp_all
    have j: "probe (table s) p (word_of_nat d) = (p + d) mod length (cells (table s))"
      "(p + d) mod length (cells (table s)) < length (cells (table s))"
      using probe_small[OF ti(4)] he by (auto simp: kNeighbourhood_def holds_end_def intro!: mod_less_divisor)
    then have "cell_hash (cells (table s) ! ((p + d) mod length (cells (table s)))) \<noteq> ?h" using he(2) by (simp add: absent_def)
    then show ?thesis using T_Search he j(1) holds_end_less[OF he(1)]
      by (auto simp: table_step_def Let_def holds_end_def full_Suc intro!: mv)
  next
    case (T_Reserve p d)
    then show ?thesis using ti(1) goes_on_count[OF assms(1) busy, of "T_Full p" "freeBuckets (table s) - 1"]
        goes_on_count[OF assms(1) busy, of "T_Claim p d" "freeBuckets (table s) - 1"] holds_end_less[of "table s" ?h p d]
      by (simp add: table_step_def Let_def)
  next
    case (T_Full p)
    then show ?thesis using ti(1) goes_on_count[OF assms(1) busy, of "T_Reset p" "freeBuckets (table s) + 1"]
      by (simp add: table_step_def Let_def)
  next
    case (T_Refund p d b)
    then show ?thesis using ti(1) goes_on_count[OF assms(1) busy, of "T_Search p (d + 1)" "freeBuckets (table s) + 1"]
      by (simp add: table_step_def Let_def)
  next
    case (T_Find i)
    have pos: "at_pos (table s) ?h i" using ti(1) T_Find by simp
    then have "absent (table s) ?h" if "cell_hash (cells (table s) ! i) = MapHashEmpty"
      using at_pos_end[OF pos] that ti(2) by auto
    moreover have "\<And>v. snd (ops s t) \<noteq> Put v" using ti(9) T_Find by auto
    moreover have "fits_op (snd (ops s t)) (T_Next i)" using ti(9) T_Find by (cases "snd (ops s t)") auto
    ultimately show ?thesis using T_Find pos m stays
      by (auto simp: table_step_def Let_def at_pos_def intro!: mv rd)
  next
    case (T_Next i)
    have pos: "at_pos (table s) ?h i" "cell_hash (cells (table s) ! i) \<noteq> ?h" using ti(1) T_Next by simp_all
    moreover have "\<And>v. snd (ops s t) \<noteq> Put v" using ti(9) T_Next by auto
    moreover have "fits_op (snd (ops s t)) (T_Find j)" for j using ti(9) T_Next by (cases "snd (ops s t)") auto
    ultimately show ?thesis using T_Next m stays at_pos_end[OF pos] at_pos_next[OF pos(1) ti(4,5) pos(2)]
      by (auto simp: table_step_def Let_def intro!: mv rd)
  next
    case (T_Value i b)
    have i: "i < length (cells (table s))" "cell_hash (cells (table s) ! i) = ?h" using ti(1) T_Value by simp_all
    then have "cell_value (cells (table s) ! i) = m ?h" "cell_value (cells (table s) ! i) \<noteq> MapValMove"
      using ti(7) by (auto simp: holds_def)
    then show ?thesis using T_Value i by (auto simp: table_step_def Let_def intro!: mv rd)
  next
    case (T_Done r old)
    have "table_inv k m (move t T_Idle s)"
      by (rule table_inv_cells[OF assms(1) busy, where l = T_Idle and f = "freeBuckets (table s)"])
        (simp_all add: move_def T_Done)
    then show ?thesis using T_Done by (intro goes_on_same) (simp_all add: table_step_def Let_def move_def)
  qed (use goes_on_extend[OF assms(1)] goes_on_reset[OF assms(1)] goes_on_claim[OF assms(1)] goes_on_link[OF assms(1)]
      goes_on_swap[OF assms(1)] busy in auto)
qed

subsection \<open>Properties\<close>

lemma quiet_new_table:
  assumes "0 < sint n" and "sint n \<le> 2 ^ 30"
  shows "\<exists>k. table_inv k (\<lambda>h. MapValEmpty) (quiet_table (new_table n))"
proof -
  obtain k where k: "5 \<le> k" "k \<le> 30" "new_table n = \<lparr>sizeMask = 2 ^ k - 1, cells = replicate (2 ^ k) empty_entry, freeBuckets = 3 * 2 ^ k div 4\<rparr>"
    using new_table_eq[OF assms] by blast
  define T where "T = new_table n"
  have T: "sizeMask T = 2 ^ k - 1" "length (cells T) = 2 ^ k" "freeBuckets T = 3 * 2 ^ k div 4"
    "i < 2 ^ k \<Longrightarrow> cells T ! i = empty_entry" for i by (simp_all add: T_def k(3))
  have u: "used_cells T = {}" using T(4) by (auto simp: used_cells_def T(2) empty_entry_def)
  have ne: "MapValEmpty \<noteq> MapValMove" "MapDeltaEmpty \<noteq> MapDeltaExtend"
    by (simp_all add: MapValEmpty_def MapValMove_def MapDeltaEmpty_def MapDeltaExtend_def)
  have "cells_ok k (\<lambda>h. MapValEmpty) T"
    using k(1,2) ne(1) by (simp add: cells_ok_def stored_once_def dense_def holds_def shaped_def T u) (simp add: empty_entry_def)
  moreover have "0 \<le> (3 :: int) * 2 ^ k div 4" by (simp add: pos_imp_zdiv_nonneg_iff)
  ultimately have "table_inv k (\<lambda>h. MapValEmpty) (quiet_table T)"
    using ne(2) by (simp add: table_inv_def threads_ok_def owners_ok_def located_def budget_def count_def quiet_table_def u T)
      (simp add: empty_entry_def)
  then show ?thesis by (auto simp: T_def)
qed

lemma separate_inv:
  assumes "separate T0 s" and "table_inv k (\<lambda>h. MapValEmpty) (quiet_table T0)"
  shows "\<exists>m. table_inv k m s \<and> account (history s) (\<lambda>h. MapValEmpty) = Some m"
  using assms
proof (induction rule: separate.induct)
  case start
  then show ?case by (auto simp: quiet_table_def)
next
  case (step s t x)
  then obtain m where m: "table_inv k m s" "account (history s) (\<lambda>h. MapValEmpty) = Some m" by blast
  from table_step_goes_on[OF m(1) step.hyps(2)] show ?case
    unfolding goes_on_def using m(2) by (auto simp: account_snoc)
qed

lemma lookup_holds:
  assumes "cells_ok k m T"
  shows "lookup T = m"
proof
  fix h
  have holds: "holds m T" "stored_once T" using assms by (simp_all add: cells_ok_def)
  show "lookup T h = m h"
  proof (cases "h = MapHashEmpty \<or> absent T h")
    case True
    then show ?thesis using holds(1) lookup_absent[of T h] by (auto simp: lookup_def holds_def absent_def)
  next
    case False
    then obtain e where e: "find (\<lambda>e. cell_hash e = h) (cells T) = Some e"
      by (cases "find (\<lambda>e. cell_hash e = h) (cells T)") (auto simp: absent_def find_None_iff dest: nth_mem)
    then obtain i where "i < length (cells T)" "cell_hash (cells T ! i) = h" "e = cells T ! i" by (auto simp: find_Some_iff)
    then show ?thesis using e False holds(1) by (simp add: lookup_def holds_def)
  qed
qed

lemma card_used_less: "budget k s \<Longrightarrow> int (card (used_cells (table s))) \<le> 3 * int (2 ^ k) div 4"
  unfolding budget_def count_def of_nat_power of_nat_numeral by linarith

lemma three_quarters: "int c \<le> 3 * int n div 4 \<Longrightarrow> 4 * c \<le> 3 * n" "0 < n \<Longrightarrow> \<not> int n \<le> 3 * int n div 4"
  by presburger+

lemma quiet_wf:
  assumes "table_inv k m s" and "\<forall>t. pcs s t = T_Idle"
  shows "wf_table k (table s)"
proof -
  let ?T = "table s"
  have ok: "shaped k ?T" "dense ?T" "stored_once ?T" "holds m ?T" "owners_ok s" "located s" "budget k s"
    using assms(1) by (simp_all add: table_inv_def cells_ok_def)
  have no: "deltaNext (cells ?T ! p) \<noteq> MapDeltaExtend" if "p < length (cells ?T)" for p
    using ok(5) assms(2) that by (auto simp: owners_ok_def)
  have "card (used_cells ?T) \<noteq> 2 ^ k"
  proof
    assume c: "card (used_cells ?T) = 2 ^ k"
    have "\<not> int (2 ^ k) \<le> 3 * int (2 ^ k) div 4" by (rule three_quarters(2)) simp
    then show False using card_used_less[OF ok(7)] unfolding c by (rule notE)
  qed
  then have "used_cells ?T \<noteq> {..<length (cells ?T)}" using shaped_length[OF ok(1)] by (metis card_lessThan)
  then obtain e where e: "e < length (cells ?T)" "cell_hash (cells ?T ! e) = MapHashEmpty" by (auto simp: used_cells_def)
  have "wf_cell (cells ?T ! i)" if "i < length (cells ?T)" for i
    using no[OF that] dense_taken[OF ok(2) that] ok(4) that by (auto simp: wf_cell_def holds_def ends_chain_def)
  then have "\<forall>c\<in>set (cells ?T). wf_cell c" by (auto simp: in_set_conv_nth)
  moreover have "freeBuckets ?T + int (card (used_cells ?T)) = 3 * 2 ^ k div 4 \<and> 0 \<le> freeBuckets ?T"
    using ok(7) assms(2) by (simp add: budget_def count_def)
  moreover have "reach ?T (home ?T (cell_hash (cells ?T ! i))) i" if "i \<in> used_cells ?T" for i
    using ok(6) assms(2) that by (auto simp: located_def)
  ultimately show ?thesis
    using ok(1,3) dense_finite[OF ok(2,1) e] by (simp add: wf_table_def stored_once_def)
qed

text \<open>
  C11: one table used by any number of threads, each inserting, looking up and removing, under any interleaving of their atomic
  steps, as long as no two operations on the same hash overlap and no migration has begun: every operation is atomic. The
  operations that have taken effect account, in that order, for every value returned and for what the table holds; whenever
  no operation is under way the table is well-formed (each hash stored once and found from its home cell, no chain
  left locked, the counter of free cells exact), and never are more than three quarters of its cells in use.
\<close>

theorem table_operations_are_atomic:
  assumes "0 < sint n" and "sint n \<le> 2 ^ 30" and "separate (new_table n) s"
  shows "account (history s) (\<lambda>h. MapValEmpty) = Some (lookup (table s)) \<and>
    4 * card (used_cells (table s)) \<le> 3 * length (cells (table s)) \<and>
    ((\<forall>t. pcs s t = T_Idle) \<longrightarrow> (\<exists>k. wf_table k (table s)) \<and> settled (table s))"
proof -
  obtain k where k: "table_inv k (\<lambda>h. MapValEmpty) (quiet_table (new_table n))" using quiet_new_table[OF assms(1,2)] by blast
  obtain m where m: "table_inv k m s" "account (history s) (\<lambda>h. MapValEmpty) = Some m" using separate_inv[OF assms(3) k] by blast
  have ok: "cells_ok k m (table s)" "budget k s" using m(1) by (simp_all add: table_inv_def)
  have "lookup (table s) = m" by (rule lookup_holds[OF ok(1)])
  moreover have "4 * card (used_cells (table s)) \<le> 3 * length (cells (table s))"
    using three_quarters(1)[OF card_used_less[OF ok(2)]] ok(1) by (simp add: cells_ok_def shaped_def)
  moreover have "settled (table s)" using ok(1) unfolding cells_ok_def holds_def settled_iff by blast
  ultimately show ?thesis using m quiet_wf[OF m(1)] by auto
qed

fun table_run :: "(nat \<times> i64 \<times> operation) list \<Rightarrow> table_sys \<Rightarrow> table_sys" where
  "table_run [] s = s"
| "table_run ((t, x) # ts) s = table_run ts (table_step t x s)"

text \<open>
  Two threads put the hash 5. Thread 1 has come to the end of the chain and is about to extend it; thread 0 does its whole insertion;
  thread 1 goes on.
\<close>

definition same_hash :: "(nat \<times> i64 \<times> operation) list" where
  "same_hash = [(1, 5, Put 9), (1, 5, Put 9), (1, 5, Put 9)] @ replicate 11 (0, 5, Put 7) @ replicate 5 (1, 5, Put 9)"

definition seen :: "table_sys \<Rightarrow> table_pc \<times> table_pc \<times> u32 \<times> (i64 \<times> operation \<times> u64) list" where
  "seen s = (pcs s 0, pcs s 1, deltaNext (cells (table s) ! 5), history s)"

lemma same_hash_outcome:
  "seen (table_run same_hash (quiet_table (new_table 1))) = (T_Idle, T_Idle, MapDeltaExtend, [(5, Put 7, 0), (5, Put 9, 7)])"
  by code_simp

lemma other_pcs: "u \<noteq> t \<Longrightarrow> pcs (table_step t x s) u = pcs s u"
  by (cases "pcs s t") (simp_all add: table_step_def Let_def effect_def move_def)

lemma other_pcs_run: "u \<notin> fst ` set ts \<Longrightarrow> pcs (table_run ts s) u = pcs s u"
  by (induction ts s rule: table_run.induct) (simp_all add: other_pcs)

lemma table_run_append: "table_run (xs @ ys) s = table_run ys (table_run xs s)"
  by (induction xs s rule: table_run.induct) simp_all

lemma spinning_outcome:
  "(let s = table_run (replicate 4 (2, 37, Put 1)) (table_run same_hash (quiet_table (new_table 1)))
    in (pcs s 2, deltaNext (cells (table s) ! 5))) = (T_Wait 5 1, MapDeltaExtend)"
  by code_simp

lemma spins: "pcs s t = T_Wait i jumps \<Longrightarrow> deltaNext (cells (table s) ! i) = MapDeltaExtend \<Longrightarrow> table_run (replicate n (t, x)) s = s"
  by (induction n) (simp_all add: table_step_def)

text \<open>A history in which no thread starts a second operation is separate when its first steps are.\<close>

fun busy_run :: "nat list \<Rightarrow> table_sys \<Rightarrow> table_sys" where
  "busy_run [] s = s"
| "busy_run (t # ts) s = (if pcs s t = T_Idle then s else busy_run ts (table_step t (0, Get) s))"

lemma busy_run_separate: "separate T0 s \<Longrightarrow> separate T0 (busy_run ts s)"
  by (induction ts s rule: busy_run.induct) (simp_all add: separate.step alone_def)

definition two_puts :: table_sys where
  "two_puts = busy_run (concat (replicate 10 [0, 1]) @ replicate 8 1)
     (table_step 1 (37, Put 9) (table_step 0 (5, Put 7) (quiet_table (new_table 1))))"

lemma two_puts_outcome: "(history two_puts, pcs two_puts 0, pcs two_puts 1) = ([(5, Put 7, 0), (37, Put 9, 0)], T_Idle, T_Idle)"
  by code_simp

lemma two_puts_separate: "separate (new_table 1) two_puts"
proof -
  let ?q = "quiet_table (new_table 1)"
  have ne: "(5 :: i64) \<noteq> MapHashEmpty" "(37 :: i64) \<noteq> MapHashEmpty" "(7 :: u64) \<noteq> MapValMove" "(9 :: u64) \<noteq> MapValMove"
    by (simp_all add: MapHashEmpty_def MapValMove_def)
  have "alone 0 (5, Put 7) ?q" using ne by (simp add: alone_def quiet_table_def)
  then have 1: "separate (new_table 1) (table_step 0 (5, Put 7) ?q)" by (intro separate.step separate.start)
  have "alone 1 (37, Put 9) (table_step 0 (5, Put 7) ?q)"
    using ne by (simp add: alone_def quiet_table_def table_step_def Let_def move_def)
  then have "separate (new_table 1) (table_step 1 (37, Put 9) (table_step 0 (5, Put 7) ?q))" by (rule separate.step[OF 1])
  then show ?thesis unfolding two_puts_def by (rule busy_run_separate)
qed

theorem table_operations_are_atomic_witness:
  "lookup (table two_puts) 5 = 7 \<and> lookup (table two_puts) 37 = 9 \<and> 4 * card (used_cells (table two_puts)) \<le> 3 * length (cells (table two_puts))"
proof -
  have "account (history two_puts) (\<lambda>h. MapValEmpty) = Some (lookup (table two_puts))"
    and c: "4 * card (used_cells (table two_puts)) \<le> 3 * length (cells (table two_puts))"
    using table_operations_are_atomic[OF _ _ two_puts_separate] by simp_all
  moreover have "history two_puts = [(5, Put 7, 0), (37, Put 9, 0)]" using two_puts_outcome by simp
  ultimately have "lookup (table two_puts) = (\<lambda>h. MapValEmpty)(5 := 7, 37 := 9)" by (simp add: MapValEmpty_def)
  then show ?thesis using c by simp
qed


end
