(* ===== verification/Range_Migration.thy ===== *)
theory Range_Migration
  imports Table_Concurrency
begin

text \<open>
  \<open>Migration::migrateRange\<close> (\<^verbatim>\<open>concurrent_map.h\<close>) beside the operations of other threads on the source table:
  one thread goes through the cells of its range, marks each with \<open>MapValMove\<close> and inserts what it held into the new
  table, while any number of threads insert, look up and remove in the source as \<open>table_step\<close> says. Ranges are disjoint and
  the new table is not published yet, so only this thread writes to it; its insertions are those of \<open>insertOrUpdate\<close> undisturbed.

  The fields \<open>latest\<close> and \<open>taken\<close> are auxiliary: the value last written into each cell, and the entries moved.
\<close>

text \<open>The program points, with the locals \<open>srcHash\<close> and \<open>srcValue\<close>; at the end, whether the range overflowed.\<close>

datatype mig_pc =
    M_Hash
  | M_Unused
  | M_Read i64
  | M_Deleted i64
  | M_Take i64 u64
  | M_Insert i64 u64
  | M_Restore u64
  | M_Ended bool

record evacuation =
  source :: table_sys
  dest :: hash_table
  index :: nat
  last_index :: nat
  mig :: mig_pc
  latest :: "nat \<Rightarrow> u64"
  taken :: "(nat \<times> i64 \<times> u64) list"

definition start_evacuation :: "nat \<Rightarrow> hash_table \<Rightarrow> hash_table \<Rightarrow> evacuation" where
  "start_evacuation startIndex T D =
     (let last = min (startIndex + kMigrationChunkSize) (sizeMask T + 1) in
      \<lparr>source = quiet_table T, dest = D, index = startIndex, last_index = last,
       mig = (if startIndex < last then M_Hash else M_Ended False), latest = (\<lambda>c. cell_value (cells T ! c)), taken = []\<rparr>)"

definition source_value :: "evacuation \<Rightarrow> nat \<Rightarrow> u64" where
  "source_value e c = cell_value (cells (table (source e)) ! c)"

definition store :: "u64 \<Rightarrow> evacuation \<Rightarrow> evacuation" where
  "store v e = e\<lparr>source := (source e)\<lparr>table := set_value (index e) v (table (source e))\<rparr>\<rparr>"

text \<open>\<open>break\<close>, and on to the next element.\<close>

definition next_cell :: "evacuation \<Rightarrow> evacuation" where
  "next_cell e = e\<lparr>index := index e + 1, mig := (if index e + 1 < last_index e then M_Hash else M_Ended False)\<rparr>"

definition mig_step :: "evacuation \<Rightarrow> evacuation result" where
  "mig_step e = (let now = source_value e (index e) in
   case mig e of
     M_Hash \<Rightarrow>
       let srcHash = cell_hash (cells (table (source e)) ! index e) in
       Inr (e\<lparr>mig := (if srcHash = MapHashEmpty then M_Unused else M_Read srcHash)\<rparr>)
   | M_Unused \<Rightarrow>
       if now = MapValEmpty then Inr (next_cell (store MapValMove e))
       else if now = MapValMove then Inr (next_cell e)
       else Inr (e\<lparr>mig := M_Hash\<rparr>)
   | M_Read srcHash \<Rightarrow>
       if now = MapValEmpty then Inr (e\<lparr>mig := M_Deleted srcHash\<rparr>)
       else if now = MapValMove then Inr (next_cell e)
       else Inr (e\<lparr>mig := M_Take srcHash now\<rparr>)
   | M_Deleted srcHash \<Rightarrow>
       if now = MapValEmpty then Inr (next_cell (store MapValMove e))
       else Inr (e\<lparr>mig := M_Take srcHash now\<rparr>)
   | M_Take srcHash srcValue \<Rightarrow>
       if now = srcValue
       then Inr (if srcValue \<noteq> MapValEmpty then (store MapValMove e)\<lparr>mig := M_Insert srcHash srcValue\<rparr>
                 else next_cell (store MapValMove e))
       else Inr (e\<lparr>mig := M_Take srcHash now\<rparr>)
   | M_Insert srcHash srcValue \<Rightarrow>
       and_then (insertOrUpdate (dest e) srcHash srcValue) (\<lambda>(res, oldValue, D).
         if res = INSERT_OVERFLOW then Inr (e\<lparr>dest := D, mig := M_Restore srcValue\<rparr>)
         else Inr (next_cell (e\<lparr>dest := D, taken := taken e @ [(index e, srcHash, srcValue)]\<rparr>)))
   | M_Restore srcValue \<Rightarrow> Inr ((store srcValue e)\<lparr>mig := M_Ended True\<rparr>)
   | M_Ended overflow \<Rightarrow> Inr e)"

text \<open>A step of thread \<open>t\<close> on the source; a cell it changes has that value from now on.\<close>

definition other_step :: "nat \<Rightarrow> i64 \<times> operation \<Rightarrow> evacuation \<Rightarrow> evacuation" where
  "other_step t x e =
     (let s = table_step t x (source e) in
      e\<lparr>source := s, latest := (\<lambda>c. let v = cell_value (cells (table s) ! c) in
          if v \<noteq> source_value e c then v else latest e c)\<rparr>)"

inductive evacuating :: "evacuation \<Rightarrow> evacuation \<Rightarrow> bool" for e0 where
  start: "evacuating e0 e0"
| other: "evacuating e0 e \<Longrightarrow> proper (snd x) \<Longrightarrow> evacuating e0 (other_step t x e)"
| mig: "evacuating e0 e \<Longrightarrow> mig_step e = Inr e' \<Longrightarrow> evacuating e0 e'"

subsection \<open>What a step on the source does to its cells\<close>

definition writers_ok :: "table_sys \<Rightarrow> bool" where
  "writers_ok s \<longleftrightarrow> (\<forall>t. (pcs s t \<noteq> T_Idle \<longrightarrow> proper (snd (ops s t))) \<and> (\<forall>c b. pcs s t \<noteq> T_Swap c b MapValMove))"

lemma set_cell_value:
  assumes "\<And>e. cell_value (f e) = cell_value e"
  shows "cell_value (cells (set_cell j f T) ! c) = cell_value (cells T ! c)"
proof (cases "j < length (cells T)")
  case True
  then show ?thesis using assms by (simp add: cells_set_cell)
qed (simp add: set_cell_def list_update_beyond)

lemma set_delta_value: "cell_value (cells (set_delta j d T) ! c) = cell_value (cells T ! c)"
  by (simp add: set_delta_def set_cell_value)

lemma set_cell_hash:
  assumes "\<And>e. cell_hash (f e) = cell_hash e"
  shows "cell_hash (cells (set_cell j f T) ! c) = cell_hash (cells T ! c)"
proof (cases "j < length (cells T)")
  case True
  then show ?thesis using assms by (simp add: cells_set_cell)
qed (simp add: set_cell_def list_update_beyond)

lemma set_delta_hash: "cell_hash (cells (set_delta j d T) ! c) = cell_hash (cells T ! c)"
  by (simp add: set_delta_def set_cell_hash)

lemma new_value_proper: "proper x \<Longrightarrow> old \<noteq> MapValMove \<Longrightarrow> new_value x old \<noteq> MapValMove"
  by (cases x) (auto simp: MapValEmpty_def MapValMove_def)

lemma source_step:
  assumes "writers_ok s" and "proper (snd x)"
  shows "length (cells (table (table_step t x s))) = length (cells (table s))"
    and "cell_hash (cells (table s) ! c) \<noteq> MapHashEmpty \<Longrightarrow>
      cell_hash (cells (table (table_step t x s)) ! c) = cell_hash (cells (table s) ! c)"
    and "cell_value (cells (table (table_step t x s)) ! c) \<noteq> cell_value (cells (table s) ! c) \<Longrightarrow>
      cell_value (cells (table s) ! c) \<noteq> MapValMove \<and> cell_value (cells (table (table_step t x s)) ! c) \<noteq> MapValMove"
    and "writers_ok (table_step t x s)"
proof -
  show "length (cells (table (table_step t x s))) = length (cells (table s))"
    by (cases "pcs s t") (simp_all add: table_step_def Let_def move_def effect_def)
  show "cell_hash (cells (table (table_step t x s)) ! c) = cell_hash (cells (table s) ! c)"
    if "cell_hash (cells (table s) ! c) \<noteq> MapHashEmpty"
  proof (cases "pcs s t")
    case (T_Claim p d)
    then show ?thesis using that
      by (cases "probe (table s) p (word_of_nat d) < length (cells (table s))")
        (auto simp: table_step_def Let_def move_def cells_set_cell set_cell_def list_update_beyond nth_list_update)
  qed (simp_all add: table_step_def Let_def move_def effect_def set_delta_hash set_cell_hash)
  show "cell_value (cells (table s) ! c) \<noteq> MapValMove \<and> cell_value (cells (table (table_step t x s)) ! c) \<noteq> MapValMove"
    if "cell_value (cells (table (table_step t x s)) ! c) \<noteq> cell_value (cells (table s) ! c)"
  proof (cases "pcs s t")
    case (T_Swap i b old)
    have old: "old \<noteq> MapValMove" "proper (snd (ops s t))" using assms(1) T_Swap unfolding writers_ok_def by auto
    show ?thesis using that T_Swap old new_value_proper[OF old(2,1)]
      by (cases "i < length (cells (table s))"; cases "c = i")
        (auto simp: table_step_def Let_def move_def effect_def cells_set_cell set_cell_def list_update_beyond nth_list_update split: if_splits)
  qed (use that in \<open>simp_all add: table_step_def Let_def move_def effect_def set_delta_value set_cell_value split: if_splits\<close>)
  have others: "pcs (table_step t x s) u = pcs s u \<and> ops (table_step t x s) u = ops s u" if "u \<noteq> t" for u
    using that by (cases "pcs s t") (simp_all add: table_step_def Let_def move_def effect_def)
  have "(pcs (table_step t x s) t \<noteq> T_Idle \<longrightarrow> proper (snd (ops (table_step t x s) t))) \<and>
      (\<forall>c b. pcs (table_step t x s) t \<noteq> T_Swap c b MapValMove)"
  proof (cases "pcs s t")
    case T_Idle
    then show ?thesis using assms(2) by (cases "snd x") (simp_all add: table_step_def Let_def move_def)
  qed (use assms in \<open>auto simp: writers_ok_def table_step_def Let_def move_def effect_def dest: spec[of _ t]\<close>)
  then show "writers_ok (table_step t x s)" using assms(1) others unfolding writers_ok_def by metis
qed

subsection \<open>The invariant of the evacuation\<close>

definition moved_into :: "(nat \<times> i64 \<times> u64) list \<Rightarrow> (i64 \<Rightarrow> u64) \<Rightarrow> (i64 \<Rightarrow> u64)" where
  "moved_into es m = fold (\<lambda>(c, h, v) m. m(h := v)) es m"

definition source_hash :: "evacuation \<Rightarrow> nat \<Rightarrow> i64" where
  "source_hash e c = cell_hash (cells (table (source e)) ! c)"

text \<open>Whether the cell in turn has been taken out of the source.\<close>

fun holds_cell :: "mig_pc \<Rightarrow> bool" where
  "holds_cell (M_Insert h v) = True"
| "holds_cell (M_Restore v) = True"
| "holds_cell _ = False"

fun mig_ok :: "evacuation \<Rightarrow> mig_pc \<Rightarrow> bool" where
  "mig_ok e M_Hash \<longleftrightarrow> index e < last_index e"
| "mig_ok e M_Unused \<longleftrightarrow> index e < last_index e"
| "mig_ok e (M_Read h) \<longleftrightarrow> index e < last_index e \<and> source_hash e (index e) = h \<and> h \<noteq> MapHashEmpty"
| "mig_ok e (M_Deleted h) \<longleftrightarrow> index e < last_index e \<and> source_hash e (index e) = h \<and> h \<noteq> MapHashEmpty"
| "mig_ok e (M_Take h v) \<longleftrightarrow> index e < last_index e \<and> source_hash e (index e) = h \<and> h \<noteq> MapHashEmpty"
| "mig_ok e (M_Insert h v) \<longleftrightarrow> index e < last_index e \<and> source_hash e (index e) = h \<and> h \<noteq> MapHashEmpty \<and>
     v = latest e (index e) \<and> v \<noteq> MapValEmpty \<and> v \<noteq> MapValMove \<and> source_value e (index e) = MapValMove"
| "mig_ok e (M_Restore v) \<longleftrightarrow> index e < last_index e \<and> v = latest e (index e) \<and> v \<noteq> MapValMove \<and>
     source_value e (index e) = MapValMove"
| "mig_ok e (M_Ended b) \<longleftrightarrow> True"

definition taken_ok :: "nat \<Rightarrow> evacuation \<Rightarrow> bool" where
  "taken_ok lo e \<longleftrightarrow>
     (\<forall>(c, h, v)\<in>set (taken e). lo \<le> c \<and> c < index e \<and> source_hash e c = h \<and> h \<noteq> MapHashEmpty \<and> v = latest e c \<and> v \<noteq> MapValEmpty) \<and>
     (\<forall>c. lo \<le> c \<and> c < index e \<and> latest e c \<noteq> MapValEmpty \<longrightarrow> (c, source_hash e c, latest e c) \<in> set (taken e)) \<and>
     distinct (map fst (taken e))"

definition evac_inv :: "nat \<Rightarrow> nat \<Rightarrow> (i64 \<Rightarrow> u64) \<Rightarrow> evacuation \<Rightarrow> bool" where
  "evac_inv lo k m0 e \<longleftrightarrow>
     writers_ok (source e) \<and> last_index e \<le> length (cells (table (source e))) \<and> lo \<le> index e \<and>
     (\<forall>c. lo \<le> c \<and> c < index e \<longrightarrow> source_value e c = MapValMove) \<and>
     (\<forall>c<length (cells (table (source e))). (c < lo \<or> index e < c \<or> c = index e \<and> \<not> holds_cell (mig e)) \<longrightarrow>
        source_value e c = latest e c \<and> latest e c \<noteq> MapValMove) \<and>
     mig_ok e (mig e) \<and> taken_ok lo e \<and>
     wf_table k (dest e) \<and> settled (dest e) \<and> lookup (dest e) = moved_into (taken e) m0"

lemma taken_okD:
  assumes "taken_ok lo e"
  shows "(c, h, v) \<in> set (taken e) \<Longrightarrow>
      lo \<le> c \<and> c < index e \<and> source_hash e c = h \<and> h \<noteq> MapHashEmpty \<and> v = latest e c \<and> v \<noteq> MapValEmpty"
    and "lo \<le> c \<Longrightarrow> c < index e \<Longrightarrow> latest e c \<noteq> MapValEmpty \<Longrightarrow> (c, source_hash e c, latest e c) \<in> set (taken e)"
    and "distinct (map fst (taken e))"
  using assms unfolding taken_ok_def by fast+

lemma evac_invD:
  assumes "evac_inv lo k m0 e"
  shows "writers_ok (source e)" and "last_index e \<le> length (cells (table (source e)))" and "lo \<le> index e"
    and "lo \<le> c \<Longrightarrow> c < index e \<Longrightarrow> source_value e c = MapValMove"
    and "c < length (cells (table (source e))) \<Longrightarrow> c < lo \<or> index e < c \<or> c = index e \<and> \<not> holds_cell (mig e) \<Longrightarrow>
      source_value e c = latest e c \<and> latest e c \<noteq> MapValMove"
    and "mig_ok e (mig e)" and "taken_ok lo e"
    and "wf_table k (dest e)" and "settled (dest e)" and "lookup (dest e) = moved_into (taken e) m0"
  using assms unfolding evac_inv_def by blast+

lemma evac_other:
  assumes "evac_inv lo k m0 e" and "proper (snd x)"
  shows "evac_inv lo k m0 (other_step t x e)"
proof -
  let ?e = "other_step t x e"
  note I = evac_invD[OF assms(1)]
  note st = source_step[OF I(1) assms(2), where t = t]
  have src: "source ?e = table_step t x (source e)" and same: "index ?e = index e" "last_index ?e = last_index e" "mig ?e = mig e"
    "dest ?e = dest e" "taken ?e = taken e" by (simp_all add: other_step_def Let_def)
  have hash: "source_hash e c \<noteq> MapHashEmpty \<Longrightarrow> source_hash ?e c = source_hash e c" for c
    using st(2) by (simp add: source_hash_def src)
  have vals: "source_value ?e c = source_value e c \<and> latest ?e c = latest e c \<or>
      latest ?e c = source_value ?e c \<and> source_value e c \<noteq> MapValMove \<and> source_value ?e c \<noteq> MapValMove" for c
  proof -
    have upd: "latest ?e c = (if source_value ?e c \<noteq> source_value e c then source_value ?e c else latest e c)"
      by (simp add: other_step_def Let_def source_value_def)
    show ?thesis
    proof (cases "source_value ?e c = source_value e c")
      case False
      then show ?thesis using st(3)[of c] upd by (simp add: source_value_def src)
    qed (simp add: upd)
  qed
  have moved: "source_value ?e c = MapValMove \<and> latest ?e c = latest e c" if "source_value e c = MapValMove" for c
    using vals[of c] that by auto
  have "mig_ok ?e (mig e)"
    using I(6) hash moved by (cases "mig e") (auto simp: same)
  moreover have "taken_ok lo ?e"
    unfolding taken_ok_def same
  proof (intro conjI)
    have gone: "source_value e c = MapValMove" if "lo \<le> c" "c < index e" for c using I(4) that .
    note tk0 = taken_okD[OF I(7)]
    have tk: "lo \<le> c \<and> c < index e \<and> source_hash e c = h \<and> h \<noteq> MapHashEmpty \<and> v = latest e c \<and> v \<noteq> MapValEmpty"
      if "(c, h, v) \<in> set (taken e)" for c h v using tk0(1)[OF that] .
    show "\<forall>(c, h, v)\<in>set (taken e). lo \<le> c \<and> c < index e \<and> source_hash ?e c = h \<and> h \<noteq> MapHashEmpty \<and> v = latest ?e c \<and> v \<noteq> MapValEmpty"
      using tk hash moved[OF gone] by fastforce
    show "\<forall>c. lo \<le> c \<and> c < index e \<and> latest ?e c \<noteq> MapValEmpty \<longrightarrow> (c, source_hash ?e c, latest ?e c) \<in> set (taken e)"
    proof (intro allI impI)
      fix c assume c: "lo \<le> c \<and> c < index e \<and> latest ?e c \<noteq> MapValEmpty"
      then have l: "latest ?e c = latest e c" using moved[OF gone[of c]] by simp
      then have i: "(c, source_hash e c, latest e c) \<in> set (taken e)" using tk0(2) c l by simp
      then show "(c, source_hash ?e c, latest ?e c) \<in> set (taken e)" using tk[OF i] hash[of c] l by simp
    qed
    show "distinct (map fst (taken e))" by (rule tk0(3))
  qed
  moreover have "\<forall>c. lo \<le> c \<and> c < index e \<longrightarrow> source_value ?e c = MapValMove" using I(4) moved by blast
  moreover have "\<forall>c<length (cells (table (source e))). (c < lo \<or> index e < c \<or> c = index e \<and> \<not> holds_cell (mig e)) \<longrightarrow>
      source_value ?e c = latest ?e c \<and> latest ?e c \<noteq> MapValMove"
    using I(5) vals by metis
  ultimately show ?thesis using I(2,3,8-10) st(1,4) unfolding evac_inv_def same by (simp add: src)
qed

text \<open>The cell in turn is dealt with, and nothing of it is to be moved, or it has been moved.\<close>

lemma store_simps:
  assumes "index e < length (cells (table (source e)))"
  shows "source_value (store v e) c = (if c = index e then v else source_value e c)"
    and "source_hash (store v e) c = source_hash e c" and "writers_ok (source (store v e)) = writers_ok (source e)"
    and "length (cells (table (source (store v e)))) = length (cells (table (source e)))"
    and "index (store v e) = index e" and "last_index (store v e) = last_index e" and "mig (store v e) = mig e"
    and "latest (store v e) = latest e" and "taken (store v e) = taken e" and "dest (store v e) = dest e"
  using assms by (simp_all add: store_def source_value_def source_hash_def writers_ok_def)

lemma evac_skip:
  assumes "evac_inv lo k m0 e" and "index e < last_index e" and "\<not> holds_cell (mig e)" and "source_value e (index e) = MapValEmpty"
  shows "evac_inv lo k m0 (next_cell (store MapValMove e))"
proof -
  note I = evac_invD[OF assms(1)]
  have i: "index e < length (cells (table (source e)))" using I(2) assms(2) by linarith
  note st = store_simps[OF i]
  have l: "latest e (index e) = MapValEmpty" using I(5)[OF i] assms(3,4) by simp
  have nx: "source (next_cell e) = source e" "last_index (next_cell e) = last_index e" "index (next_cell e) = Suc (index e)"
    "latest (next_cell e) = latest e" "taken (next_cell e) = taken e" "dest (next_cell e) = dest e"
    "mig (next_cell e) = (if Suc (index e) < last_index e then M_Hash else M_Ended False)"
    "source_value (next_cell e) = source_value e" "source_hash (next_cell e) = source_hash e" for e
    by (simp_all add: next_cell_def source_value_def source_hash_def fun_eq_iff)
  let ?e = "next_cell (store MapValMove e)"
  have "mig_ok ?e (mig ?e)" by (simp add: nx st)
  moreover have "taken_ok lo ?e"
    unfolding taken_ok_def nx st
  proof (intro conjI)
    note tk = taken_okD[OF I(7)]
    show "\<forall>(c, h, v)\<in>set (taken e). lo \<le> c \<and> c < Suc (index e) \<and> source_hash e c = h \<and> h \<noteq> MapHashEmpty \<and> v = latest e c \<and> v \<noteq> MapValEmpty"
      by (auto dest: tk(1))
    show "\<forall>c. lo \<le> c \<and> c < Suc (index e) \<and> latest e c \<noteq> MapValEmpty \<longrightarrow> (c, source_hash e c, latest e c) \<in> set (taken e)"
      using tk(2) l by (metis less_Suc_eq)
  qed (rule taken_okD(3)[OF I(7)])
  moreover have "\<forall>c. lo \<le> c \<and> c < index ?e \<longrightarrow> source_value ?e c = MapValMove" using I(4) by (simp add: nx st less_Suc_eq)
  moreover have "\<not> holds_cell (mig ?e)" by (simp add: nx st)
  moreover have "\<forall>c<length (cells (table (source e))). (c < lo \<or> Suc (index e) < c \<or> c = Suc (index e)) \<longrightarrow>
      source_value ?e c = latest e c \<and> latest e c \<noteq> MapValMove"
    using I(3,5) by (auto simp: nx st)
  ultimately show ?thesis using I(1-3,8-10) by (simp add: evac_inv_def nx st)
qed

lemma evac_moved:
  assumes "evac_inv lo k m0 e" and "mig e = M_Insert h v" and "wf_table k D" and "settled D" and "lookup D = (lookup (dest e))(h := v)"
  shows "evac_inv lo k m0 (next_cell (e\<lparr>dest := D, taken := taken e @ [(index e, h, v)]\<rparr>))"
proof -
  note I = evac_invD[OF assms(1)]
  have "mig_ok e (M_Insert h v)" using I(6) assms(2) by metis
  then have m: "index e < last_index e" "source_hash e (index e) = h" "h \<noteq> MapHashEmpty" "v = latest e (index e)"
    "v \<noteq> MapValEmpty" "source_value e (index e) = MapValMove" by auto
  let ?e = "next_cell (e\<lparr>dest := D, taken := taken e @ [(index e, h, v)]\<rparr>)"
  have nx: "source ?e = source e" "last_index ?e = last_index e" "index ?e = Suc (index e)"
    "latest ?e = latest e" "taken ?e = taken e @ [(index e, h, v)]" "dest ?e = D"
    "mig ?e = (if Suc (index e) < last_index e then M_Hash else M_Ended False)"
    "source_value ?e = source_value e" "source_hash ?e = source_hash e"
    by (simp_all add: next_cell_def source_value_def source_hash_def fun_eq_iff)
  note tk = taken_okD[OF I(7)]
  have "mig_ok ?e (mig ?e)" by (simp add: nx)
  moreover have "taken_ok lo ?e"
    unfolding taken_ok_def nx
  proof (intro conjI)
    show "\<forall>(c, h', v')\<in>set (taken e @ [(index e, h, v)]). lo \<le> c \<and> c < Suc (index e) \<and> source_hash e c = h' \<and>
        h' \<noteq> MapHashEmpty \<and> v' = latest e c \<and> v' \<noteq> MapValEmpty"
      using tk(1) m I(3) by (auto simp: less_SucI)
    show "\<forall>c. lo \<le> c \<and> c < Suc (index e) \<and> latest e c \<noteq> MapValEmpty \<longrightarrow>
        (c, source_hash e c, latest e c) \<in> set (taken e @ [(index e, h, v)])"
      using tk(2) m(2,4) by (auto simp: less_Suc_eq)
    show "distinct (map fst (taken e @ [(index e, h, v)]))" using tk(1,3) by fastforce
  qed
  moreover have "\<not> holds_cell (mig ?e)" by (simp add: nx)
  moreover have "lookup D = moved_into (taken e @ [(index e, h, v)]) m0" using I(10) assms(5) by (simp add: moved_into_def)
  moreover have "\<forall>c. lo \<le> c \<and> c < Suc (index e) \<longrightarrow> source_value e c = MapValMove" using I(4) m(6) by (auto simp: less_Suc_eq)
  moreover have "\<forall>c<length (cells (table (source e))). (c < lo \<or> Suc (index e) < c \<or> c = Suc (index e)) \<longrightarrow>
      source_value e c = latest e c \<and> latest e c \<noteq> MapValMove" using I(3,5) by auto
  ultimately show ?thesis using I(1-3) assms(3,4) by (simp add: evac_inv_def nx)
qed

lemma mig_update_simps [simp]:
  "source_value (e\<lparr>mig := l\<rparr>) = source_value e" "source_hash (e\<lparr>mig := l\<rparr>) = source_hash e"
  "taken_ok lo (e\<lparr>mig := l\<rparr>) = taken_ok lo e"
  by (simp_all add: source_value_def source_hash_def taken_ok_def fun_eq_iff)

lemma mig_ok_cong:
  "index e' = index e \<Longrightarrow> last_index e' = last_index e \<Longrightarrow> source e' = source e \<Longrightarrow> latest e' = latest e \<Longrightarrow> mig_ok e' l = mig_ok e l"
  by (cases l) (simp_all add: source_hash_def source_value_def)

lemma evac_goto:
  assumes "evac_inv lo k m0 e" and "holds_cell l = holds_cell (mig e)" and "mig_ok e l"
  shows "evac_inv lo k m0 (e\<lparr>mig := l\<rparr>)"
  using assms mig_ok_cong[of "e\<lparr>mig := l\<rparr>" e l]
  by (simp add: evac_inv_def source_value_def taken_ok_def source_hash_def)

lemma evac_take:
  assumes "evac_inv lo k m0 e" and "mig e = M_Take h v" and "source_value e (index e) = v" and "v \<noteq> MapValEmpty"
  shows "evac_inv lo k m0 ((store MapValMove e)\<lparr>mig := M_Insert h v\<rparr>)"
proof -
  note I = evac_invD[OF assms(1)]
  have m: "index e < last_index e" "source_hash e (index e) = h" "h \<noteq> MapHashEmpty" using I(6) by (simp_all add: assms(2))
  have i: "index e < length (cells (table (source e)))" using I(2) m(1) by linarith
  note st = store_simps[OF i]
  have l: "v = latest e (index e)" "v \<noteq> MapValMove" using I(5)[OF i] assms(2,3) by auto
  let ?e = "(store MapValMove e)\<lparr>mig := M_Insert h v\<rparr>"
  have "taken_ok lo ?e" using I(7) by (simp add: taken_ok_def st)
  then show ?thesis using I m l assms(4) by (simp add: evac_inv_def st)
qed

lemma evac_restore:
  assumes "evac_inv lo k m0 e" and "mig e = M_Restore v"
  shows "evac_inv lo k m0 ((store v e)\<lparr>mig := M_Ended True\<rparr>)"
proof -
  note I = evac_invD[OF assms(1)]
  have "mig_ok e (M_Restore v)" using I(6) assms(2) by metis
  then have m: "index e < last_index e" "v = latest e (index e)" "v \<noteq> MapValMove" by auto
  have i: "index e < length (cells (table (source e)))" using I(2) m(1) by linarith
  note st = store_simps[OF i]
  let ?e = "(store v e)\<lparr>mig := M_Ended True\<rparr>"
  have "taken_ok lo ?e" using I(7) by (simp add: taken_ok_def st)
  then show ?thesis using I m by (auto simp: evac_inv_def st)
qed

lemma evac_mig:
  assumes "evac_inv lo k m0 e"
  shows "\<exists>e'. mig_step e = Inr e' \<and> evac_inv lo k m0 e'"
proof -
  note I = evac_invD[OF assms]
  have i: "source_value e (index e) = latest e (index e) \<and> latest e (index e) \<noteq> MapValMove"
    if "index e < last_index e" "\<not> holds_cell (mig e)" using I(5)[of "index e"] I(2) that by simp
  note skip = evac_skip[OF assms] and go = evac_goto[OF assms]
  show ?thesis
  proof (cases "mig e")
    case M_Hash
    then show ?thesis using I(6) go by (simp add: mig_step_def Let_def source_hash_def)
  next
    case M_Unused
    then show ?thesis using I(6) i skip go by (simp add: mig_step_def Let_def)
  next
    case (M_Read h)
    then show ?thesis using I(6) i skip go by (simp add: mig_step_def Let_def)
  next
    case (M_Deleted h)
    then show ?thesis using I(6) i skip go by (simp add: mig_step_def Let_def)
  next
    case (M_Take h v)
    then show ?thesis using I(6) i skip go evac_take[OF assms M_Take] by (simp add: mig_step_def Let_def)
  next
    case (M_Insert h v)
    have mo: "mig_ok e (M_Insert h v)" using I(6) M_Insert by metis
    then have m: "h \<noteq> MapHashEmpty" "v \<noteq> MapValMove" by auto
    obtain r old D where ins: "insertOrUpdate (dest e) h v = Inr (r, old, D)" "wf_table k D" "settled D"
      "if r = INSERT_OK then old = lookup (dest e) h \<and> lookup D = (lookup (dest e))(h := v)
       else r = INSERT_OVERFLOW \<and> D = dest e \<and> (cell_hash (cells (dest e) ! home (dest e) h) \<noteq> MapHashEmpty \<or> freeBuckets (dest e) \<le> 0)"
      using insert_updates_map[OF I(8,9) m] by blast
    show ?thesis
    proof (cases "r = INSERT_OK")
      case True
      then have r: "r = INSERT_OK" "lookup D = (lookup (dest e))(h := v)" using ins(4) by simp_all
      have "mig_step e = Inr (next_cell (e\<lparr>dest := D, taken := taken e @ [(index e, h, v)]\<rparr>))"
        using ins(1) by (simp add: mig_step_def Let_def M_Insert r(1))
      then show ?thesis using evac_moved[OF assms M_Insert ins(2,3) r(2)] by blast
    next
      case False
      then have r: "r = INSERT_OVERFLOW" "D = dest e" using ins(4) by simp_all
      have "mig_step e = Inr (e\<lparr>mig := M_Restore v\<rparr>)" using ins(1) by (simp add: mig_step_def Let_def M_Insert r)
      moreover have "evac_inv lo k m0 (e\<lparr>mig := M_Restore v\<rparr>)" by (rule go) (use mo M_Insert in auto)
      ultimately show ?thesis by blast
    qed
  next
    case (M_Restore v)
    then show ?thesis using evac_restore[OF assms M_Restore] by (simp add: mig_step_def Let_def)
  qed (use assms in \<open>simp add: mig_step_def Let_def\<close>)
qed

lemma evac_start:
  assumes "wf_table j T" and "settled T" and "wf_table k D" and "settled D"
  shows "evac_inv lo k (lookup D) (start_evacuation lo T D)"
proof -
  have "last_index (start_evacuation lo T D) \<le> length (cells T)"
    using assms(1) by (simp add: start_evacuation_def Let_def wf_table_def shaped_def)
  moreover have "writers_ok (quiet_table T)" by (simp add: writers_ok_def quiet_table_def)
  ultimately show ?thesis using assms(2-4)
    by (auto simp: evac_inv_def start_evacuation_def Let_def source_value_def taken_ok_def moved_into_def settled_iff quiet_table_def)
qed

lemma evacuating_inv: "evacuating e0 e \<Longrightarrow> evac_inv lo k m0 e0 \<Longrightarrow> evac_inv lo k m0 e"
proof (induction rule: evacuating.induct)
  case (mig e e')
  then show ?case using evac_mig[of lo k m0 e] by auto
qed (auto intro: evac_other)

subsection \<open>Properties\<close>


text \<open>Histories of the migrating thread (\<open>None\<close>) and of others.\<close>

fun evac_run :: "(nat \<times> i64 \<times> operation) option list \<Rightarrow> evacuation \<Rightarrow> evacuation result" where
  "evac_run [] e = Inr e"
| "evac_run (None # xs) e = and_then (mig_step e) (evac_run xs)"
| "evac_run (Some (t, x) # xs) e = evac_run xs (other_step t x e)"

lemma evac_run_evacuating:
  "evacuating e0 e \<Longrightarrow> \<forall>t x. Some (t, x) \<in> set xs \<longrightarrow> proper (snd x) \<Longrightarrow> evac_run xs e = Inr e' \<Longrightarrow> evacuating e0 e'"
proof (induction xs e rule: evac_run.induct)
  case (2 xs e)
  then show ?case by (auto intro: evacuating.mig)
next
  case (3 t x xs e)
  have "proper (snd x)" using "3.prems"(2) by (cases x) auto
  then show ?case using 3 evacuating.other by auto
qed simp

text \<open>A table that holds 7 under the hash 5, and a thread that has read this value to change it before the cell is taken.\<close>

definition one_entry :: hash_table where
  "one_entry = table (table_run (replicate 11 (0, 5, Put 7)) (quiet_table (new_table 1)))"

definition late_write :: "operation \<Rightarrow> (nat \<times> i64 \<times> operation) option list" where
  "late_write x = replicate 3 (Some (1, 5, x)) @ replicate 13 None @ [Some (1, 5, x), None]"

definition evac_view :: "evacuation result \<Rightarrow> (fault + table_pc \<times> nat \<times> u64)" where
  "evac_view r = and_then r (\<lambda>e. Inr (pcs (source e) 1, index e, lookup (dest e) 5))"

lemma late_put_outcome:
  "evac_view (evac_run (late_write (Put 9)) (start_evacuation 0 one_entry (new_table 1))) = Inr (T_Done INSERT_OK MapValMove, 6, 7)"
  by code_simp

lemma late_remove_outcome:
  "evac_view (evac_run (late_write Remove) (start_evacuation 0 one_entry (new_table 1))) = Inr (T_Done INSERT_OK MapValEmpty, 6, 7)"
  by code_simp

definition early_write :: "(nat \<times> i64 \<times> operation) option list" where
  "early_write = replicate 11 (Some (1, 5, Put 7)) @ replicate 14 None"

lemma early_write_outcome:
  "(case evac_run early_write (start_evacuation 0 (new_table 1) (new_table 1)) of
      Inl f \<Rightarrow> Inl f | Inr e \<Rightarrow> Inr (index e, taken e)) = (Inr (6, [(5, 5, 7)]) :: fault + nat \<times> (nat \<times> i64 \<times> u64) list)"
  by code_simp


text \<open>
  C19: but a write that comes too late is reported as done. A thread that has read the value of a cell with its hash, when the
  migrating thread takes the cell, fails its compare-and-swap against \<open>MapValMove\<close> and takes this for a concurrent write of the
  same key: \<open>insertOrUpdate\<close> returns \<open>INSERT_OK\<close> with \<open>MapValMove\<close> as the old value, which the thread map would release as a bucket,
  and \<open>remove\<close> returns as if there had been nothing. The new table holds the value that should have been replaced or removed.
\<close>

theorem write_during_evacuation_is_lost:
  "(\<exists>e. evac_run (late_write (Put 9)) (start_evacuation 0 one_entry (new_table 1)) = Inr e \<and>
      evacuating (start_evacuation 0 one_entry (new_table 1)) e \<and> index e = 6 \<and>
      pcs (source e) 1 = T_Done INSERT_OK MapValMove \<and> lookup (dest e) 5 = 7) \<and>
   (\<exists>e. evac_run (late_write Remove) (start_evacuation 0 one_entry (new_table 1)) = Inr e \<and>
      evacuating (start_evacuation 0 one_entry (new_table 1)) e \<and> index e = 6 \<and>
      pcs (source e) 1 = T_Done INSERT_OK MapValEmpty \<and> lookup (dest e) 5 = 7)"
proof -
  let ?e0 = "start_evacuation 0 one_entry (new_table 1)"
  have ev: "evacuating ?e0 e" if "evac_run (late_write x) ?e0 = Inr e" "proper x" for x e
    by (rule evac_run_evacuating[OF evacuating.start _ that(1)]) (use that(2) in \<open>auto simp: late_write_def\<close>)
  have "proper (Put 9)" "proper Remove" by (simp_all add: MapValMove_def)
  moreover obtain e where "evac_run (late_write (Put 9)) ?e0 = Inr e"
    "pcs (source e) 1 = T_Done INSERT_OK MapValMove" "index e = 6" "lookup (dest e) 5 = 7"
    using late_put_outcome by (auto simp: evac_view_def)
  moreover obtain e' where "evac_run (late_write Remove) ?e0 = Inr e'"
    "pcs (source e') 1 = T_Done INSERT_OK MapValEmpty" "index e' = 6" "lookup (dest e') 5 = 7"
    using late_remove_outcome by (auto simp: evac_view_def)
  ultimately show ?thesis using ev by blast
qed

end
