(* ===== verification/Map_Ownership.thy ===== *)
theory Map_Ownership
  imports Base
begin

text \<open>
  Who frees what in the hash map (\<^verbatim>\<open>concurrent_map.h\<close>): the tables and the migration jobs that \<open>migrationStart\<close> and an
  overflowing \<open>Migration::run\<close> allocate, and the destructors \<open>~HashTable\<close> and \<open>~Migration\<close>. Tables and migrations are numbers, given
  out by a counter; the heap says of each live one which others it points to. The array of a table is part of the table, and its
  contents are the matter of other theories.
\<close>

record migration_block =
  sources :: "nat option list"
  dest_of :: nat
  prev :: "nat option"

record blocks =
  tables :: "nat \<rightharpoonup> nat option" \<comment> \<open>live tables, each with its \<open>victim\<close>\<close>
  migrations :: "nat \<rightharpoonup> migration_block"
  fresh :: nat

text \<open>\<open>migrationStart(table, targetSize)\<close> when there is no migration yet: the job, and then its destination.\<close>

definition start_migration :: "nat \<Rightarrow> blocks \<Rightarrow> nat \<times> blocks" where
  "start_migration t h =
     (let m = fresh h; d = Suc (fresh h) in
      (m, h\<lparr>tables := (tables h)(d \<mapsto> None), migrations := (migrations h)(m \<mapsto> \<lparr>sources = [Some t], dest_of = d, prev = None\<rparr>),
            fresh := Suc d\<rparr>))"

text \<open>The end of \<open>run\<close> after an overflow: a new job takes over the sources, with the destination as one more.\<close>

definition hand_over :: "nat \<Rightarrow> blocks \<Rightarrow> (nat \<times> blocks) result" where
  "hand_over this h = (case migrations h this of
     None \<Rightarrow> Inl Use_After_Free
   | Some b \<Rightarrow>
       let m = fresh h; d = Suc (fresh h) in
       Inr (m, h\<lparr>tables := (tables h)(d \<mapsto> None),
          migrations := (migrations h)
            (this \<mapsto> b\<lparr>sources := map (\<lambda>s. None) (sources b)\<rparr>,
             m \<mapsto> \<lparr>sources = sources b @ [Some (dest_of b)], dest_of = d, prev = Some this\<rparr>),
          fresh := Suc d\<rparr>))"

text \<open>The end of \<open>run\<close> without an overflow: \<open>sources[0].table->victim.store(this)\<close>; the result is the table that is now current.\<close>

definition succeed :: "nat \<Rightarrow> blocks \<Rightarrow> (nat \<times> blocks) result" where
  "succeed this h = (case migrations h this of
     None \<Rightarrow> Inl Use_After_Free
   | Some b \<Rightarrow>
       (case sources b of
          Some t # ss \<Rightarrow> if t \<in> dom (tables h) then Inr (dest_of b, h\<lparr>tables := (tables h)(t \<mapsto> Some this)\<rparr>) else Inl Use_After_Free
        | _ \<Rightarrow> Inl Null_Deref))"

text \<open>
  The destructors. Both walk the pointers of the block before the block itself is freed; \<open>None\<close> is more nesting than the fuel
  allows. A block that is not live is freed twice.
\<close>

fun delete_table :: "nat \<Rightarrow> nat \<Rightarrow> blocks \<Rightarrow> blocks result option"
and delete_migration :: "nat \<Rightarrow> nat \<Rightarrow> blocks \<Rightarrow> blocks result option"
and delete_sources :: "nat \<Rightarrow> nat option list \<Rightarrow> blocks \<Rightarrow> blocks result option" where
  "delete_table 0 t h = None"
| "delete_table (Suc n) t h =
     (case tables h t of
        None \<Rightarrow> Some (Inl Double_Free)
      | Some v \<Rightarrow>
          map_option (\<lambda>r. and_then r (\<lambda>h1. Inr (h1\<lparr>tables := (tables h1)(t := None)\<rparr>)))
            (case v of None \<Rightarrow> Some (Inr h) | Some m \<Rightarrow> delete_migration n m h))"
| "delete_migration 0 m h = None"
| "delete_migration (Suc n) m h =
     (case migrations h m of
        None \<Rightarrow> Some (Inl Double_Free)
      | Some b \<Rightarrow>
          (case (case prev b of None \<Rightarrow> Some (Inr h) | Some p \<Rightarrow> delete_migration n p h) of
             None \<Rightarrow> None
           | Some (Inl e) \<Rightarrow> Some (Inl e)
           | Some (Inr h1) \<Rightarrow>
               map_option (\<lambda>r. and_then r (\<lambda>h2. Inr (h2\<lparr>migrations := (migrations h2)(m := None)\<rparr>)))
                 (delete_sources n (tl (sources b)) h1)))"
| "delete_sources n [] h = Some (Inr h)"
| "delete_sources 0 (s # ss) h = None"
| "delete_sources (Suc n) (s # ss) h =
     (case (case s of None \<Rightarrow> Some (Inr h) | Some t \<Rightarrow> delete_table n t h) of
        None \<Rightarrow> None
      | Some (Inl e) \<Rightarrow> Some (Inl e)
      | Some (Inr h1) \<Rightarrow> delete_sources n ss h1)"

text \<open>\<open>~ConcurrentMapProvider\<close> deletes the current table.\<close>

definition delete_provider :: "nat \<Rightarrow> nat \<Rightarrow> blocks \<Rightarrow> blocks result option" where
  "delete_provider fuel current h = delete_table fuel current h"

text \<open>A migration of table \<open>t\<close> that overflows \<open>n\<close> times before it succeeds.\<close>

fun overflows :: "nat \<Rightarrow> nat \<times> blocks \<Rightarrow> (nat \<times> blocks) result" where
  "overflows 0 mh = Inr mh"
| "overflows (Suc n) mh = and_then (overflows n mh) (\<lambda>(m, h). hand_over m h)"

definition migrate_table :: "nat \<Rightarrow> nat \<Rightarrow> blocks \<Rightarrow> (nat \<times> blocks) result" where
  "migrate_table n t h = and_then (overflows n (start_migration t h)) (\<lambda>(m, h1). succeed m h1)"

section \<open>What a migration leaves behind\<close>

text \<open>With \<open>f\<close> as the first free number, the \<open>i\<close>-th job is \<open>f + 2 * i\<close> and its destination is the next number.\<close>

abbreviation job_no :: "nat \<Rightarrow> nat \<Rightarrow> nat" where
  "job_no f i \<equiv> f + 2 * i"

abbreviation dest_no :: "nat \<Rightarrow> nat \<Rightarrow> nat" where
  "dest_no f i \<equiv> Suc (f + 2 * i)"

definition job_before :: "nat \<Rightarrow> nat \<Rightarrow> nat option" where
  "job_before f i = (if i = 0 then None else Some (job_no f (i - 1)))"

definition emptied_job :: "nat \<Rightarrow> nat \<Rightarrow> migration_block" where
  "emptied_job f i = \<lparr>sources = replicate (Suc i) None, dest_of = dest_no f i, prev = job_before f i\<rparr>"

definition last_job :: "nat \<Rightarrow> nat \<Rightarrow> nat \<Rightarrow> migration_block" where
  "last_job f t n = \<lparr>sources = Some t # map (\<lambda>i. Some (dest_no f i)) [0..<n], dest_of = dest_no f n, prev = job_before f n\<rparr>"

definition handed_over :: "nat \<Rightarrow> nat \<Rightarrow> blocks \<Rightarrow> blocks \<Rightarrow> bool" where
  "handed_over n t h h1 \<longleftrightarrow>
     tables h1 = (\<lambda>x. if x \<in> dest_no (fresh h) ` {..n} then Some None else tables h x) \<and>
     migrations h1 (job_no (fresh h) n) = Some (last_job (fresh h) t n) \<and>
     (\<forall>i<n. migrations h1 (job_no (fresh h) i) = Some (emptied_job (fresh h) i)) \<and>
     (\<forall>x. x \<notin> job_no (fresh h) ` {..n} \<longrightarrow> migrations h1 x = migrations h x) \<and>
     fresh h1 = job_no (fresh h) (Suc n)"

lemma start_migration_hands_over:
  "fst (start_migration t h) = job_no (fresh h) 0" "handed_over 0 t h (snd (start_migration t h))"
  by (auto simp: start_migration_def Let_def handed_over_def last_job_def job_before_def)

lemma hand_over_step:
  assumes "handed_over n t h h1"
  obtains h2 where "hand_over (job_no (fresh h) n) h1 = Inr (job_no (fresh h) (Suc n), h2)" "handed_over (Suc n) t h h2"
proof -
  from assms have *: "migrations h1 (job_no (fresh h) n) = Some (last_job (fresh h) t n)" "fresh h1 = job_no (fresh h) (Suc n)"
    by (simp_all add: handed_over_def)
  define h2 where "h2 = snd (projr (hand_over (job_no (fresh h) n) h1))"
  have 1: "hand_over (job_no (fresh h) n) h1 = Inr (job_no (fresh h) (Suc n), h2)"
    using * by (simp add: h2_def hand_over_def Let_def)
  have 2: "tables h2 = (tables h1)(dest_no (fresh h) (Suc n) \<mapsto> None)"
    "migrations h2 = (migrations h1)(job_no (fresh h) n \<mapsto> emptied_job (fresh h) n,
       job_no (fresh h) (Suc n) \<mapsto> last_job (fresh h) t (Suc n))"
    "fresh h2 = job_no (fresh h) (Suc (Suc n))"
    using * by (auto simp: h2_def hand_over_def Let_def last_job_def emptied_job_def job_before_def map_replicate_const)
  have "handed_over (Suc n) t h h2"
    using assms by (auto simp: handed_over_def 2 atMost_Suc less_Suc_eq fun_eq_iff)
  with 1 show thesis by (rule that)
qed

lemma overflows_hand_over:
  "\<exists>h1. overflows n (start_migration t h) = Inr (job_no (fresh h) n, h1) \<and> handed_over n t h h1"
proof (induction n)
  case 0
  show ?case using start_migration_hands_over [of t h] by (metis overflows.simps(1) prod.collapse)
next
  case (Suc n)
  then obtain h1 where h1: "overflows n (start_migration t h) = Inr (job_no (fresh h) n, h1)" "handed_over n t h h1"
    by blast
  from h1(2) obtain h2 where "hand_over (job_no (fresh h) n) h1 = Inr (job_no (fresh h) (Suc n), h2)"
    "handed_over (Suc n) t h h2" by (rule hand_over_step)
  with h1(1) show ?case by auto
qed

section \<open>What the destructors free\<close>

lemma delete_sources_none: "k \<le> n \<Longrightarrow> delete_sources n (replicate k None) h = Some (Inr h)"
proof (induction k arbitrary: n)
  case (Suc k)
  then show ?case by (cases n) auto
qed (cases n; simp)

lemma delete_sources_tables:
  "length ts < n \<Longrightarrow> distinct ts \<Longrightarrow> \<forall>t \<in> set ts. tables h t = Some None
     \<Longrightarrow> delete_sources n (map Some ts) h = Some (Inr (h\<lparr>tables := (tables h |` (- (set ts)))\<rparr>))"
proof (induction ts arbitrary: n h)
  case Nil
  then show ?case by (cases n) simp_all
next
  case (Cons t ts)
  then obtain n1 where n1: "n = Suc (Suc n1)" "length ts < Suc n1" by (cases n; cases "n - 1") auto
  let ?h = "h\<lparr>tables := (tables h)(t := None)\<rparr>"
  have "delete_sources (Suc n1) (map Some ts) ?h
      = Some (Inr (?h\<lparr>tables := (tables ?h |` (- (set ts)))\<rparr>))"
    using Cons.prems n1(2) by (intro Cons.IH) auto
  moreover have "(tables ?h |` (- (set ts))) = (tables h |` (- set (t # ts)))"
    by (rule ext) (simp add: restrict_map_def)
  moreover have "delete_table (Suc n1) t h = Some (Inr ?h)"
    using Cons.prems by simp
  ultimately show ?case by (simp add: n1(1))
qed

lemma delete_emptied_jobs:
  assumes "\<forall>j\<le>i. migrations h (job_no f j) = Some (emptied_job f j)"
  shows "delete_migration (Suc i + k) (job_no f i) h
     = Some (Inr (h\<lparr>migrations := (migrations h |` (- (job_no f ` {..i})))\<rparr>))"
  using assms
proof (induction i)
  case 0
  moreover have "(migrations h)(f := None) = (migrations h |` (- (job_no f ` {..0})))"
    by (rule ext) (simp add: restrict_map_def)
  ultimately show ?case
    using delete_sources_none [of 0 k h] by (simp add: emptied_job_def job_before_def)
next
  case (Suc i)
  let ?h = "h\<lparr>migrations := (migrations h |` (- (job_no f ` {..i})))\<rparr>"
  have "delete_migration (Suc i + k) (job_no f i) h = Some (Inr ?h)"
    using Suc by simp
  moreover have "delete_sources (Suc i + k) (replicate (Suc i) None) ?h = Some (Inr ?h)"
    by (rule delete_sources_none) simp
  moreover have "(migrations ?h)(job_no f (Suc i) := None)
      = (migrations h |` (- (job_no f ` {..Suc i})))"
    by (rule ext) (auto simp: atMost_Suc restrict_map_def)
  moreover have "migrations h (job_no f (Suc i)) = Some (emptied_job f (Suc i))"
    using Suc.prems by blast
  ultimately show ?case
    by (simp add: emptied_job_def job_before_def del: replicate.simps(2) mult_Suc_right)
qed

text \<open>The job before the last one, if any, takes all emptied jobs with it.\<close>

lemma delete_job_before:
  assumes "\<forall>i<n. migrations h (job_no f i) = Some (emptied_job f i)" and "n \<le> k"
  shows "(case job_before f n of None \<Rightarrow> Some (Inr h) | Some p \<Rightarrow> delete_migration k p h)
     = Some (Inr (h\<lparr>migrations := (migrations h |` (- (job_no f ` {..<n})))\<rparr>))"
proof (cases n)
  case (Suc i)
  with assms(2) obtain j where "k = Suc i + j" using le_Suc_ex by blast
  with delete_emptied_jobs [of i h f j] assms(1) Suc show ?thesis
    by (simp add: job_before_def lessThan_Suc_atMost)
qed (simp add: job_before_def restrict_map_def)

lemma delete_last_job:
  assumes "\<forall>i<n. migrations h (job_no f i) = Some (emptied_job f i)"
    and "migrations h (job_no f n) = Some (last_job f t n)"
    and "\<forall>i<n. tables h (dest_no f i) = Some None" and "n < k"
  shows "delete_migration (Suc k) (job_no f n) h
     = Some (Inr (h\<lparr>tables := (tables h |` (- (dest_no f ` {..<n}))),
                     migrations := (migrations h |` (- (job_no f ` {..n})))\<rparr>))"
proof -
  let ?h = "h\<lparr>migrations := (migrations h |` (- (job_no f ` {..<n})))\<rparr>"
  let ?ts = "map (dest_no f) [0..<n]"
  have 1: "(case job_before f n of None \<Rightarrow> Some (Inr h) | Some p \<Rightarrow> delete_migration k p h) = Some (Inr ?h)"
    using assms(1,4) by (intro delete_job_before) auto
  have "delete_sources k (map Some ?ts) ?h
      = Some (Inr (?h\<lparr>tables := (tables ?h |` (- (set ?ts)))\<rparr>))"
    using assms(3,4) by (intro delete_sources_tables) (auto simp: distinct_map inj_on_def)
  then have 2: "delete_sources k (tl (sources (last_job f t n))) ?h
      = Some (Inr (?h\<lparr>tables := (tables h |` (- (dest_no f ` {..<n})))\<rparr>))"
    by (simp add: last_job_def comp_def atLeast0LessThan)
  have 3: "prev (last_job f t n) = job_before f n"
    by (simp add: last_job_def)
  have 4: "job_no f n \<notin> job_no f ` {..<n}" "- job_no f ` {..<n} - {job_no f n} = - job_no f ` {..n}"
    by (auto simp: le_less)
  show ?thesis
    by (simp add: assms(2) 1 2 3 4)
qed

definition numbers_below_fresh :: "blocks \<Rightarrow> bool" where
  "numbers_below_fresh h \<longleftrightarrow>
     (\<forall>x \<ge> fresh h. tables h x = None \<and> migrations h x = None)"

text \<open>
  C20: a migration of the table \<open>r\<close> that overflows \<open>n\<close> times allocates \<open>n + 1\<close> jobs and \<open>n + 1\<close> tables. When the collector later
  deletes \<open>r\<close>, the destructors free exactly \<open>r\<close>, the \<open>n\<close> tables that overflowed and all \<open>n + 1\<close> jobs, each of them once: what is
  left is what there was before, without \<open>r\<close> and with the table that took its place, which is live and has no \<open>victim\<close>. Nothing
  leaks and nothing is freed twice, although an overflowed table is reachable from several jobs in turn and the jobs from one
  another.
\<close>

theorem migration_frees_what_it_allocates:
  assumes "tables h r = Some None" and "numbers_below_fresh h" and "n + 3 \<le> fuel"
  shows "\<exists>h1. migrate_table n r h = Inr (fresh h + 2 * n + 1, h1) \<and>
      delete_table fuel r h1
        = Some (Inr (h\<lparr>tables := (tables h)(r := None, fresh h + 2 * n + 1 \<mapsto> None), fresh := fresh h + 2 * n + 2\<rparr>))"
proof -
  let ?f = "fresh h"
  obtain h1 where run: "overflows n (start_migration r h) = Inr (job_no ?f n, h1)" and h1: "handed_over n r h h1"
    using overflows_hand_over by blast
  have r: "r < ?f" using assms(1,2) by (auto simp: numbers_below_fresh_def not_le [symmetric])
  define h2 where "h2 = h1\<lparr>tables := (tables h1)(r \<mapsto> Some (job_no ?f n))\<rparr>"
  have live: "tables h1 r = Some None" and last: "migrations h1 (job_no ?f n) = Some (last_job ?f r n)"
    using h1 r assms(1) by (auto simp: handed_over_def)
  then have "succeed (job_no ?f n) h1 = Inr (dest_no ?f n, h2)"
    by (auto simp: succeed_def last_job_def h2_def)
  then have migrated: "migrate_table n r h = Inr (dest_no ?f n, h2)"
    by (simp add: migrate_table_def run)
  define k where "k = fuel - 2"
  then have k: "fuel = Suc (Suc k)" "n < k"
    using assms(3) by simp_all
  have "delete_migration (Suc k) (job_no ?f n) h2
     = Some (Inr (h2\<lparr>tables := (tables h2 |` (- (dest_no ?f ` {..<n}))),
                     migrations := (migrations h2 |` (- (job_no ?f ` {..n})))\<rparr>))"
    using h1 r k(2) last by (intro delete_last_job) (auto simp: h2_def handed_over_def)
  moreover have "tables h2 r = Some (Some (job_no ?f n))"
    by (simp add: h2_def)
  ultimately have "delete_table fuel r h2 = Some (Inr (h2\<lparr>
      tables := (tables h2 |` (- (dest_no ?f ` {..<n})))(r := None),
      migrations := (migrations h2 |` (- (job_no ?f ` {..n})))\<rparr>))"
    by (simp add: k(1))
  moreover have "(tables h2 |` (- (dest_no ?f ` {..<n})))(r := None)
      = (tables h)(r := None, dest_no ?f n \<mapsto> None)"
    using h1 r assms(2) by (auto simp: h2_def handed_over_def restrict_map_def fun_eq_iff le_less numbers_below_fresh_def)
  moreover have "(migrations h2 |` (- (job_no ?f ` {..n}))) = migrations h"
    using h1 assms(2) by (auto simp: h2_def handed_over_def restrict_map_def fun_eq_iff numbers_below_fresh_def)
  moreover have "fresh h2 = ?f + 2 * n + 2"
    using h1 by (simp add: h2_def handed_over_def)
  ultimately show ?thesis using migrated by (cases h2; cases h) auto
qed

theorem migration_frees_what_it_allocates_witness:
  "\<exists>h1. migrate_table 2 0 \<lparr>tables = [0 \<mapsto> None], migrations = Map.empty, fresh = 1\<rparr> = Inr (6, h1) \<and>
      delete_table 5 0 h1 = Some (Inr \<lparr>tables = [6 \<mapsto> None], migrations = Map.empty, fresh = 7\<rparr>)"
  using migration_frees_what_it_allocates
    [of "\<lparr>tables = [0 \<mapsto> None], migrations = Map.empty, fresh = 1\<rparr>" 0 2 5]
  by (simp add: numbers_below_fresh_def fun_upd_twist)

end
