(* ===== verification/Migration_Concurrency.thy ===== *)
theory Migration_Concurrency
  imports Hash_Table
begin

text \<open>
  \<open>Migration::run\<close> (\<^verbatim>\<open>concurrent_map.h\<close>) by many threads at once, as atomic steps: one step is
  one access to an atomic variable. The cells of a range are migrated in one step (what that does to
  them is the matter of the theory of the map); here it is the coordination that counts: who migrates what, who is the last
  to leave, and what the last one does.

  Tables are numbers. A thread that has returned may run the job again, as \<open>put\<close> does when it meets the migration.
\<close>

datatype worker_pc =
    W_Check
  | W_Join
  | W_Source nat
  | W_Claim nat
  | W_Migrate nat nat
  | W_Unit nat
  | W_Overflow
  | W_Close
  | W_Leave
  | W_Last
  | W_Return

datatype coordinator_job = This_Job | Next_Job | No_Job

text \<open>
  \<open>masks\<close> are the \<open>sizeMask\<close>s of the sources. \<open>migrated\<close> and \<open>finishes\<close> are ghosts: the ranges migrated and the
  number of calls of \<open>finishMigration\<close>. \<open>tables_taken\<close> says that the sources' table pointers are null.
\<close>

record job =
  masks :: "nat list"
  next_index :: "nat list"
  job_state :: int
  units_left :: int
  overflowed :: bool
  pc :: "nat \<Rightarrow> worker_pc"
  migrated :: "(nat \<times> nat) list"
  tables_taken :: bool
  coordinator :: coordinator_job
  current_table :: nat
  dest_table :: nat
  garbage :: "nat list"
  finishes :: nat

definition goto :: "nat \<Rightarrow> worker_pc \<Rightarrow> job \<Rightarrow> job" where
  "goto t l s = s\<lparr>pc := (pc s)(t := l)\<rparr>"

definition fetch_or_1 :: "int \<Rightarrow> int" where
  "fetch_or_1 x = (if odd x then x else x + 1)"

text \<open>\<open>finishMigration\<close>: the old root is scheduled for deletion, whichever it is.\<close>

definition finishMigration :: "job \<Rightarrow> job" where
  "finishMigration s = s\<lparr>garbage := garbage s @ [current_table s], current_table := dest_table s, finishes := finishes s + 1\<rparr>"

text \<open>One step of thread \<open>t\<close>; \<open>ov\<close> is the answer of \<open>migrateRange\<close>, where it is called.\<close>

definition worker_step :: "nat \<Rightarrow> bool \<Rightarrow> job \<Rightarrow> job result" where
  "worker_step t ov s = (case pc s t of
     W_Check \<Rightarrow> Inr (goto t (if odd (job_state s) then W_Return else W_Join) s)
   | W_Join \<Rightarrow> Inr (goto t (W_Source 0) (s\<lparr>job_state := job_state s + 2\<rparr>))
   | W_Source i \<Rightarrow> Inr (goto t (if i = length (masks s) then W_Leave else if odd (job_state s) then W_Leave else W_Claim i) s)
   | W_Claim i \<Rightarrow>
       let index = next_index s ! i in
       Inr (goto t (if index > masks s ! i then W_Source (Suc i) else W_Migrate i index)
         (s\<lparr>next_index := (next_index s)[i := index + kMigrationChunkSize]\<rparr>))
   | W_Migrate i index \<Rightarrow>
       if ov then Inr (goto t W_Overflow s) else Inr (goto t (W_Unit i) (s\<lparr>migrated := migrated s @ [(i, index)]\<rparr>))
   | W_Unit i \<Rightarrow> Inr (goto t (if units_left s = 1 then W_Close else W_Source i) (s\<lparr>units_left := units_left s - 1\<rparr>))
   | W_Overflow \<Rightarrow> Inr (goto t W_Close (s\<lparr>overflowed := True\<rparr>))
   | W_Close \<Rightarrow> Inr (goto t W_Leave (s\<lparr>job_state := fetch_or_1 (job_state s)\<rparr>))
   | W_Leave \<Rightarrow> Inr (goto t (if job_state s > 3 then W_Return else W_Last) (s\<lparr>job_state := job_state s - 2\<rparr>))
   | W_Last \<Rightarrow>
       if \<not> overflowed s then Inr (goto t W_Return (finishMigration (s\<lparr>coordinator := No_Job\<rparr>)))
       else if tables_taken s then Inl Null_Deref
       else if coordinator s = This_Job then Inr (goto t W_Return (s\<lparr>tables_taken := True, coordinator := Next_Job\<rparr>))
       else Inr (goto t W_Return s)
   | W_Return \<Rightarrow> Inr (goto t W_Check s))"

text \<open>A new job, with the current table its first source.\<close>

definition new_job :: "nat list \<Rightarrow> job" where
  "new_job ms = \<lparr>masks = ms, next_index = replicate (length ms) 0, job_state = 0,
     units_left = int (sum_list (map (\<lambda>m. (m + 1) div kMigrationChunkSize) ms)), overflowed = False, pc = (\<lambda>t. W_Return),
     migrated = [], tables_taken = False, coordinator = This_Job, current_table = 0, dest_table = 1, garbage = [], finishes = 0\<rparr>"

text \<open>
  The reachable states, for a finite set of threads. In a timely history no thread joins a job that has been closed since
  the thread checked it.
\<close>

inductive reachable_job :: "nat set \<Rightarrow> nat list \<Rightarrow> job \<Rightarrow> bool" for T ms where
  start: "reachable_job T ms (new_job ms)"
| step: "reachable_job T ms s \<Longrightarrow> t \<in> T \<Longrightarrow> worker_step t ov s = Inr s' \<Longrightarrow> reachable_job T ms s'"

definition late :: "nat \<Rightarrow> job \<Rightarrow> bool" where
  "late t s \<longleftrightarrow> pc s t = W_Join \<and> odd (job_state s)"

inductive timely_job :: "nat set \<Rightarrow> nat list \<Rightarrow> job \<Rightarrow> bool" for T ms where
  start: "timely_job T ms (new_job ms)"
| step: "timely_job T ms s \<Longrightarrow> t \<in> T \<Longrightarrow> \<not> late t s \<Longrightarrow> worker_step t ov s = Inr s' \<Longrightarrow> timely_job T ms s'"

lemma timely_reachable: "timely_job T ms s \<Longrightarrow> reachable_job T ms s"
  by (induction rule: timely_job.induct) (auto intro: reachable_job.intros)

subsection \<open>Counting threads\<close>

fun in_job :: "worker_pc \<Rightarrow> bool" where
  "in_job W_Check = False"
| "in_job W_Join = False"
| "in_job W_Last = False"
| "in_job W_Return = False"
| "in_job _ = True"

fun at_unit :: "worker_pc \<Rightarrow> bool" where
  "at_unit (W_Unit i) = True"
| "at_unit _ = False"

definition at_count :: "(worker_pc \<Rightarrow> bool) \<Rightarrow> job \<Rightarrow> int" where
  "at_count P s = int (card {t. P (pc s t)})"

definition bounded :: "nat set \<Rightarrow> job \<Rightarrow> bool" where
  "bounded T s \<longleftrightarrow> finite T \<and> (\<forall>t. t \<notin> T \<longrightarrow> pc s t = W_Return)"

lemma at_count_goto:
  assumes "bounded T s" and "\<not> P W_Return" and "pc s' = (pc s)(t := l)"
  shows "at_count P s' = at_count P s + of_bool (P l) - of_bool (P (pc s t))"
proof -
  have "finite {x. P (pc s x)}" using assms(1,2) unfolding bounded_def by (metis (mono_tags, lifting) finite_subset mem_Collect_eq subsetI)
  then show ?thesis using card_moved[of P "pc s" t l] by (simp add: at_count_def assms(3))
qed

lemma at_count_pos: "bounded T s \<Longrightarrow> \<not> P W_Return \<Longrightarrow> P (pc s t) \<Longrightarrow> 0 < at_count P s"
proof -
  assume a: "bounded T s" "\<not> P W_Return" "P (pc s t)"
  then have "finite {x. P (pc s x)}"
    unfolding bounded_def by (metis (mono_tags, lifting) finite_subset mem_Collect_eq subsetI)
  moreover have "t \<in> {x. P (pc s x)}" using a(3) by simp
  ultimately have "0 < card {x. P (pc s x)}" unfolding card_gt_0_iff by blast
  then show ?thesis by (simp add: at_count_def)
qed

lemma at_count_nonneg: "0 \<le> at_count P s"
  by (simp add: at_count_def)

lemma job_goto_simps [simp]:
  "pc (goto t l s) = (pc s)(t := l)" "masks (goto t l s) = masks s" "next_index (goto t l s) = next_index s"
  "job_state (goto t l s) = job_state s" "units_left (goto t l s) = units_left s" "overflowed (goto t l s) = overflowed s"
  "migrated (goto t l s) = migrated s" "tables_taken (goto t l s) = tables_taken s" "coordinator (goto t l s) = coordinator s"
  "current_table (goto t l s) = current_table s" "dest_table (goto t l s) = dest_table s" "garbage (goto t l s) = garbage s"
  "finishes (goto t l s) = finishes s"
  by (simp_all add: goto_def)

lemma publish_simps [simp]:
  "pc (finishMigration s) = pc s" "masks (finishMigration s) = masks s" "next_index (finishMigration s) = next_index s"
  "job_state (finishMigration s) = job_state s" "units_left (finishMigration s) = units_left s"
  "overflowed (finishMigration s) = overflowed s" "migrated (finishMigration s) = migrated s"
  "tables_taken (finishMigration s) = tables_taken s"
  by (simp_all add: finishMigration_def)

subsection \<open>Who has which range\<close>

definition ranges :: "nat list \<Rightarrow> (nat \<times> nat) set" where
  "ranges ms = {(i, j). i < length ms \<and> j \<le> ms ! i \<and> kMigrationChunkSize dvd j}"

definition claimed :: "job \<Rightarrow> (nat \<times> nat) set" where
  "claimed s = {(i, j). (i, j) \<in> ranges (masks s) \<and> j < next_index s ! i}"

definition busy :: "job \<Rightarrow> (nat \<times> nat) set" where
  "busy s = {(i, j). \<exists>t. pc s t = W_Migrate i j}"

definition overflowing :: "job \<Rightarrow> bool" where
  "overflowing s \<longleftrightarrow> overflowed s \<or> (\<exists>t. pc s t = W_Overflow)"

definition inv_claims :: "job \<Rightarrow> bool" where
  "inv_claims s \<longleftrightarrow> length (next_index s) = length (masks s) \<and> (\<forall>i<length (masks s). kMigrationChunkSize dvd next_index s ! i) \<and>
     distinct (migrated s) \<and> set (migrated s) \<inter> busy s = {} \<and> set (migrated s) \<union> busy s \<subseteq> claimed s \<and>
     (\<forall>t t' i j. pc s t = W_Migrate i j \<longrightarrow> pc s t' = W_Migrate i j \<longrightarrow> t = t') \<and>
     (overflowing s \<or> claimed s = set (migrated s) \<union> busy s)"

fun progress :: "worker_pc \<Rightarrow> nat \<Rightarrow> bool" where
  "progress (W_Source i) n = (i \<le> n)"
| "progress (W_Claim i) n = (i < n)"
| "progress (W_Migrate i j) n = (i < n)"
| "progress (W_Unit i) n = (i < n)"
| "progress _ n = True"

fun source_of :: "worker_pc \<Rightarrow> nat" where
  "source_of (W_Source i) = i"
| "source_of (W_Claim i) = i"
| "source_of (W_Migrate i j) = i"
| "source_of (W_Unit i) = i"
| "source_of _ = 0"

definition exhausted :: "job \<Rightarrow> nat \<Rightarrow> bool" where
  "exhausted s n \<longleftrightarrow> (\<forall>i<n. next_index s ! i > masks s ! i)"

definition inv_progress :: "job \<Rightarrow> bool" where
  "inv_progress s \<longleftrightarrow> (\<forall>t. progress (pc s t) (length (masks s)) \<and> exhausted s (source_of (pc s t)) \<and>
     (pc s t = W_Leave \<longrightarrow> odd (job_state s) \<or> exhausted s (length (masks s))))"

definition closing :: "job \<Rightarrow> bool" where
  "closing s \<longleftrightarrow> odd (job_state s) \<or> (\<exists>t. pc s t = W_Close)"

definition inv_counts :: "nat set \<Rightarrow> job \<Rightarrow> bool" where
  "inv_counts T s \<longleftrightarrow> bounded T s \<and> job_state s = 2 * at_count in_job s + of_bool (odd (job_state s)) \<and>
     units_left s = int (card (ranges (masks s))) - int (length (migrated s)) + at_count at_unit s"

definition inv_close :: "job \<Rightarrow> bool" where
  "inv_close s \<longleftrightarrow> (units_left s = 0 \<longrightarrow> closing s) \<and> (overflowed s \<longrightarrow> closing s) \<and> (closing s \<longrightarrow> overflowed s \<or> units_left s = 0) \<and>
     ((\<exists>t. pc s t = W_Last) \<longrightarrow> odd (job_state s)) \<and> (0 < finishes s \<longrightarrow> units_left s = 0) \<and>
     (finishes s = 0 \<longrightarrow> current_table s = 0 \<and> garbage s = [])"

definition inv_job :: "nat set \<Rightarrow> job \<Rightarrow> bool" where
  "inv_job T s \<longleftrightarrow> inv_counts T s \<and> inv_claims s \<and> inv_progress s \<and> inv_close s"

lemma finite_ranges: "finite (ranges ms)"
proof (rule finite_subset)
  show "ranges ms \<subseteq> {..<length ms} \<times> {..Max (set ms)}"
  proof
    fix x assume "x \<in> ranges ms"
    then obtain i j where x: "x = (i, j)" "i < length ms" "j \<le> ms ! i" by (auto simp: ranges_def)
    then have "ms ! i \<le> Max (set ms)" by simp
    then have "j \<le> Max (set ms)" using x(3) by (rule order.trans[rotated])
    then show "x \<in> {..<length ms} \<times> {..Max (set ms)}" using x by simp
  qed
qed simp

lemma card_ranges_Cons: "card (ranges (m # ms)) = card {j. j \<le> m \<and> kMigrationChunkSize dvd j} + card (ranges ms)"
proof -
  have "ranges (m # ms) = Pair 0 ` {j. j \<le> m \<and> kMigrationChunkSize dvd j} \<union> (\<lambda>(i, j). (Suc i, j)) ` ranges ms"
    by (auto simp: ranges_def image_iff nth_Cons split: nat.splits)
  moreover have "card (Pair (0 :: nat) ` {j. j \<le> m \<and> kMigrationChunkSize dvd j}) = card {j. j \<le> m \<and> kMigrationChunkSize dvd j}"
    by (rule card_image) (simp add: inj_on_def)
  moreover have "card ((\<lambda>(i, j). (Suc i, j)) ` ranges ms) = card (ranges ms)"
    by (rule card_image) (auto simp: inj_on_def)
  moreover have "Pair 0 ` {j. j \<le> m \<and> kMigrationChunkSize dvd j} \<inter> (\<lambda>(i, j). (Suc i, j)) ` ranges ms = {}" by auto
  moreover have "finite {j. j \<le> m \<and> kMigrationChunkSize dvd j}" by simp
  ultimately show ?thesis using finite_ranges[of ms] by (simp add: card_Un_disjoint)
qed

lemma card_multiples: "kMigrationChunkSize dvd m + 1 \<Longrightarrow> card {j. j \<le> m \<and> kMigrationChunkSize dvd j} = (m + 1) div kMigrationChunkSize"
proof -
  assume "kMigrationChunkSize dvd m + 1"
  then obtain k where k: "m + 1 = kMigrationChunkSize * k" by blast
  have "{j. j \<le> m \<and> kMigrationChunkSize dvd j} = (\<lambda>x. kMigrationChunkSize * x) ` {..<k}"
  proof -
    have "kMigrationChunkSize * x \<le> m \<longleftrightarrow> x < k" for x
      using k by (auto simp: kMigrationChunkSize_def)
    then show ?thesis by (auto simp: dvd_def)
  qed
  moreover have "inj_on (\<lambda>x. kMigrationChunkSize * x) {..<k}" by (simp add: inj_on_def kMigrationChunkSize_def)
  ultimately show ?thesis using k by (simp add: card_image kMigrationChunkSize_def)
qed

lemma total_ranges:
  "\<forall>m\<in>set ms. kMigrationChunkSize dvd m + 1 \<Longrightarrow> card (ranges ms) = sum_list (map (\<lambda>m. (m + 1) div kMigrationChunkSize) ms)"
proof (induction ms)
  case Nil
  then show ?case by (simp add: ranges_def)
next
  case (Cons m ms)
  then show ?case by (simp add: card_ranges_Cons card_multiples)
qed

text \<open>Tables are never empty: their sizes are powers of two from the least size on.\<close>

definition masks_ok :: "nat list \<Rightarrow> bool" where
  "masks_ok ms \<longleftrightarrow> ms \<noteq> [] \<and> (\<forall>m\<in>set ms. kMigrationChunkSize dvd m + 1)"

lemma new_job_inv: "finite T \<Longrightarrow> masks_ok ms \<Longrightarrow> inv_job T (new_job ms)"
proof -
  assume a: "finite T" "masks_ok ms"
  have tot: "int (card (ranges ms)) = units_left (new_job ms)"
    using total_ranges[of ms] a(2) by (simp add: new_job_def masks_ok_def)
  have "(0, 0) \<in> ranges ms" using a(2) by (simp add: ranges_def masks_ok_def)
  then have "card (ranges ms) \<noteq> 0" using finite_ranges[of ms] by auto
  then have "units_left (new_job ms) \<noteq> 0" using tot by simp
  moreover have "job_state (new_job ms) = 0" "pc (new_job ms) = (\<lambda>t. W_Return)" "finishes (new_job ms) = 0"
    "\<not> overflowed (new_job ms)"
    "current_table (new_job ms) = 0" "garbage (new_job ms) = []" by (simp_all add: new_job_def)
  ultimately have "inv_close (new_job ms)" by (simp add: inv_close_def closing_def)
  moreover have "inv_counts T (new_job ms)"
    using a(1) tot by (simp add: inv_counts_def bounded_def at_count_def) (simp add: new_job_def)
  moreover have "inv_claims (new_job ms)"
    by (auto simp: inv_claims_def new_job_def busy_def claimed_def ranges_def)
  moreover have "inv_progress (new_job ms)" by (simp add: inv_progress_def new_job_def exhausted_def)
  ultimately show ?thesis by (simp add: inv_job_def)
qed

subsection \<open>Every step keeps the invariant\<close>

lemma step_pc: "worker_step t ov s = Inr s' \<Longrightarrow> pc s' = (pc s)(t := pc s' t) \<and> masks s' = masks s"
  by (cases "pc s t") (auto simp: worker_step_def Let_def split: if_splits)

lemma step_odd: "worker_step t ov s = Inr s' \<Longrightarrow> odd (job_state s) \<Longrightarrow> odd (job_state s')"
  by (cases "pc s t") (auto simp: worker_step_def fetch_or_1_def Let_def split: if_splits)

lemma step_overflowed: "worker_step t ov s = Inr s' \<Longrightarrow> overflowed s \<Longrightarrow> overflowed s'"
  by (cases "pc s t") (auto simp: worker_step_def Let_def split: if_splits)

lemma step_bounded: "worker_step t ov s = Inr s' \<Longrightarrow> t \<in> T \<Longrightarrow> bounded T s \<Longrightarrow> bounded T s'"
proof -
  assume a: "worker_step t ov s = Inr s'" "t \<in> T" "bounded T s"
  obtain l where "pc s' = (pc s)(t := l)" using step_pc[OF a(1)] by metis
  then show ?thesis using a(2,3) by (auto simp: bounded_def)
qed

lemma count_step:
  assumes "bounded T s" and "worker_step t ov s = Inr s'" and "\<not> P W_Return"
  shows "at_count P s' = at_count P s + of_bool (P (pc s' t)) - of_bool (P (pc s t))"
  using at_count_goto[of T s P s' t "pc s' t"] assms(1,3) conjunct1[OF step_pc[OF assms(2)]] by blast

lemma counts_step:
  assumes "inv_counts T s" and "t \<in> T" and "worker_step t ov s = Inr s'"
  shows "inv_counts T s'"
proof -
  have b: "bounded T s" using assms(1) by (simp add: inv_counts_def)
  note pc = step_pc[OF assms(3)]
  have c: "at_count in_job s' = at_count in_job s + of_bool (in_job (pc s' t)) - of_bool (in_job (pc s t))"
    "at_count at_unit s' = at_count at_unit s + of_bool (at_unit (pc s' t)) - of_bool (at_unit (pc s t))"
    by (simp_all add: count_step[OF b assms(3)])
  have "job_state s' - 2 * of_bool (in_job (pc s' t)) - of_bool (odd (job_state s')) =
      job_state s - 2 * of_bool (in_job (pc s t)) - of_bool (odd (job_state s))"
    using assms(3) by (cases "pc s t") (auto simp: worker_step_def fetch_or_1_def Let_def split: if_splits)
  moreover have "units_left s' + int (length (migrated s')) - of_bool (at_unit (pc s' t)) =
      units_left s + int (length (migrated s)) - of_bool (at_unit (pc s t))"
    using assms(3) by (cases "pc s t") (auto simp: worker_step_def Let_def split: if_splits)
  ultimately show ?thesis
    using assms(1) c pc step_bounded[OF assms(3,2) b] unfolding inv_counts_def by simp
qed

lemma exhausted_step: "worker_step t ov s = Inr s' \<Longrightarrow> inv_claims s \<Longrightarrow> progress (pc s t) (length (masks s)) \<Longrightarrow>
    exhausted s n \<Longrightarrow> n \<le> length (masks s) \<Longrightarrow> exhausted s' n"
proof -
  assume a: "worker_step t ov s = Inr s'" "inv_claims s" "progress (pc s t) (length (masks s))" "exhausted s n" "n \<le> length (masks s)"
  have "next_index s ! j \<le> next_index s' ! j" if "j < length (masks s)" for j
    using a(1-3) that by (cases "pc s t") (auto simp: worker_step_def inv_claims_def nth_list_update Let_def split: if_splits)
  then show ?thesis using a(4,5) step_pc[OF a(1)] unfolding exhausted_def by (metis order.strict_trans1 order.strict_trans2)
qed

lemma progress_source: "progress l n \<Longrightarrow> source_of l \<le> n"
  by (cases l) auto

lemma progress_step:
  assumes "inv_progress s" and "inv_claims s" and "worker_step t ov s = Inr s'"
  shows "inv_progress s'"
proof -
  let ?n = "length (masks s)"
  note pc = step_pc[OF assms(3)]
  have P: "progress (pc s x) ?n" "exhausted s (source_of (pc s x))" "pc s x = W_Leave \<Longrightarrow> odd (job_state s) \<or> exhausted s ?n" for x
    using assms(1) by (auto simp: inv_progress_def)
  note mono = exhausted_step[OF assms(3,2) P(1)]
  have len: "length (next_index s) = ?n" using assms(2) by (simp add: inv_claims_def)
  have "progress (pc s' t) ?n \<and> exhausted s' (source_of (pc s' t)) \<and> (pc s' t = W_Leave \<longrightarrow> odd (job_state s') \<or> exhausted s' ?n)"
  proof (cases "pc s t")
    case (W_Claim i)
    have "exhausted s' i" using mono[OF P(2)[of t]] W_Claim P(1)[of t] by simp
    moreover have "next_index s' ! i > masks s' ! i" if "pc s' t = W_Source (Suc i)"
      using assms(3) W_Claim P(1)[of t] len that by (auto simp: worker_step_def Let_def split: if_splits)
    ultimately show ?thesis
      using assms(3) W_Claim P(1)[of t] by (auto simp: worker_step_def Let_def exhausted_def less_Suc_eq split: if_splits)
  next
    case (W_Source i)
    then show ?thesis using assms(3) P(1,2)[of t] mono[OF P(2)[of t]]
      by (auto simp: worker_step_def exhausted_def split: if_splits)
  next
    case (W_Close)
    then show ?thesis using assms(3) by (auto simp: worker_step_def exhausted_def fetch_or_1_def split: if_splits)
  qed (use assms(3) P(1,2)[of t] mono[OF P(2)[of t]] in \<open>auto simp: worker_step_def exhausted_def split: if_splits\<close>)
  moreover have "progress (pc s' x) ?n \<and> exhausted s' (source_of (pc s' x)) \<and> (pc s' x = W_Leave \<longrightarrow> odd (job_state s') \<or> exhausted s' ?n)"
    if "x \<noteq> t" for x
  proof -
    have "pc s' x = pc s x" using pc that by (metis fun_upd_other)
    then show ?thesis
      using P[of x] mono[OF P(2)[of x] progress_source[OF P(1)]] mono[OF _ order.refl] step_odd[OF assms(3)] by auto
  qed
  ultimately show ?thesis using pc unfolding inv_progress_def by metis
qed

lemma busy_step:
  assumes "worker_step t ov s = Inr s'" and "\<forall>t t' i j. pc s t = W_Migrate i j \<longrightarrow> pc s t' = W_Migrate i j \<longrightarrow> t = t'"
  shows "busy s' = (busy s - {(i, j). pc s t = W_Migrate i j}) \<union> {(i, j). pc s' t = W_Migrate i j}"
proof -
  have o: "pc s' x = pc s x" if "x \<noteq> t" for x using step_pc[OF assms(1)] that by (metis fun_upd_other)
  have "(i, j) \<in> busy s' \<longleftrightarrow> pc s' t = W_Migrate i j \<or> (\<exists>x. x \<noteq> t \<and> pc s x = W_Migrate i j)" for i j
    unfolding busy_def mem_Collect_eq prod.case using o by metis
  moreover have "(i, j) \<in> busy s \<and> pc s t \<noteq> W_Migrate i j \<longleftrightarrow> (\<exists>x. x \<noteq> t \<and> pc s x = W_Migrate i j)" for i j
    using assms(2) by (auto simp: busy_def)
  ultimately show ?thesis by blast
qed

lemma overflowing_step:
  assumes "worker_step t ov s = Inr s'" and "overflowing s"
  shows "overflowing s'"
proof (cases "overflowed s \<or> pc s t = W_Overflow")
  case True
  then show ?thesis using assms(1) step_overflowed[OF assms(1)] by (auto simp: overflowing_def worker_step_def)
next
  case False
  then obtain x where "pc s x = W_Overflow" "x \<noteq> t" using assms(2) by (auto simp: overflowing_def)
  then have "pc s' x = W_Overflow" using step_pc[OF assms(1)] by (metis fun_upd_other)
  then show ?thesis by (auto simp: overflowing_def)
qed

lemma unique_step:
  assumes "\<forall>t t' i j. pc s t = W_Migrate i j \<longrightarrow> pc s t' = W_Migrate i j \<longrightarrow> t = t'" and "worker_step t ov s = Inr s'"
    and "\<And>i j. pc s' t = W_Migrate i j \<Longrightarrow> (i, j) \<notin> busy s"
  shows "\<forall>x x' i j. pc s' x = W_Migrate i j \<longrightarrow> pc s' x' = W_Migrate i j \<longrightarrow> x = x'"
proof (intro allI impI)
  fix x x' i j assume a: "pc s' x = W_Migrate i j" "pc s' x' = W_Migrate i j"
  have o: "pc s' y = pc s y" if "y \<noteq> t" for y using step_pc[OF assms(2)] that by (metis fun_upd_other)
  show "x = x'"
  proof (cases "x = t \<or> x' = t")
    case True
    then have "(i, j) \<notin> busy s" using assms(3) a by blast
    then have "x = t \<and> x' = t" using a o by (metis (mono_tags, lifting) busy_def case_prodI mem_Collect_eq)
    then show ?thesis by simp
  qed (use a o assms(1) in metis)
qed

lemma claims_same:
  assumes "inv_claims s" and "worker_step t ov s = Inr s'" and "next_index s' = next_index s" and "migrated s' = migrated s"
    and "\<And>i j. pc s t \<noteq> W_Migrate i j" and "\<And>i j. pc s' t \<noteq> W_Migrate i j"
  shows "inv_claims s'"
proof -
  note I = assms(1)[unfolded inv_claims_def]
  have uniq: "\<forall>t t' i j. pc s t = W_Migrate i j \<longrightarrow> pc s t' = W_Migrate i j \<longrightarrow> t = t'" using I by blast
  note pc = conjunct2[OF step_pc[OF assms(2)]]
  have bs: "busy s' = busy s" using busy_step[OF assms(2) uniq] assms(5,6) by auto
  have cl: "claimed s' = claimed s" using pc assms(3) by (simp add: claimed_def)
  have "\<forall>x x' i j. pc s' x = W_Migrate i j \<longrightarrow> pc s' x' = W_Migrate i j \<longrightarrow> x = x'"
    by (rule unique_step[OF uniq assms(2)]) (simp add: assms(6))
  moreover have "overflowing s' \<or> claimed s = set (migrated s) \<union> busy s" using I overflowing_step[OF assms(2)] by blast
  ultimately show ?thesis using I pc unfolding inv_claims_def bs cl assms(3,4) by simp
qed

lemma claims_step:
  assumes "inv_claims s" and "inv_progress s" and "worker_step t ov s = Inr s'"
  shows "inv_claims s'"
proof -
  note I = assms(1)[unfolded inv_claims_def]
  have uniq: "\<forall>t t' i j. pc s t = W_Migrate i j \<longrightarrow> pc s t' = W_Migrate i j \<longrightarrow> t = t'" using I by blast
  note B = busy_step[OF assms(3) uniq]
  note pc = conjunct2[OF step_pc[OF assms(3)]]
  have prog: "progress (pc s t) (length (masks s))" using assms(2) by (simp add: inv_progress_def)
  show ?thesis
  proof (cases "pc s t")
    case (W_Claim i)
    let ?j = "next_index s ! i"
    have i: "i < length (masks s)" "i < length (next_index s)" "kMigrationChunkSize dvd ?j" using prog W_Claim I by auto
    have s': "next_index s' = (next_index s)[i := ?j + kMigrationChunkSize]" "migrated s' = migrated s"
      "pc s' t = (if ?j > masks s ! i then W_Source (Suc i) else W_Migrate i ?j)"
      using assms(3) W_Claim by (auto simp: worker_step_def Let_def)
    have next': "j < ?j + kMigrationChunkSize \<longleftrightarrow> j < ?j \<or> j = ?j" if "kMigrationChunkSize dvd j" for j
      using that i(3) by (auto simp: dvd_def kMigrationChunkSize_def)
    let ?new = "if ?j > masks s ! i then {} else {(i, ?j)}"
    have cl: "claimed s' = claimed s \<union> ?new"
    proof -
      have "(k, j) \<in> claimed s' \<longleftrightarrow> (k, j) \<in> claimed s \<union> ?new" for k j
        using i next'[of j] pc by (cases "k = i") (auto simp: claimed_def ranges_def s'(1))
      then show ?thesis by auto
    qed
    have fresh: "(i, ?j) \<notin> claimed s" by (simp add: claimed_def)
    have bs: "busy s' = busy s \<union> ?new" using B W_Claim s'(3) by auto
    have "overflowing s' \<or> claimed s' = set (migrated s') \<union> busy s'"
      using I overflowing_step[OF assms(3)] by (auto simp: cl bs s'(2))
    moreover have "\<forall>x x' i j. pc s' x = W_Migrate i j \<longrightarrow> pc s' x' = W_Migrate i j \<longrightarrow> x = x'"
      using fresh I by (intro unique_step[OF uniq assms(3)]) (auto simp: s'(3) split: if_splits)
    moreover have "\<forall>k<length (masks s'). kMigrationChunkSize dvd next_index s' ! k"
      using I i pc by (auto simp: s'(1) nth_list_update)
    moreover have "set (migrated s') \<inter> busy s' = {}" "set (migrated s') \<union> busy s' \<subseteq> claimed s'"
      using I fresh by (auto simp: cl bs s'(2))
    ultimately show ?thesis using I pc s' unfolding inv_claims_def by simp
  next
    case (W_Migrate i j)
    have mem: "(i, j) \<in> busy s" using W_Migrate by (auto simp: busy_def)
    have s': "next_index s' = next_index s" "migrated s' = migrated s @ (if ov then [] else [(i, j)])"
      "\<And>i j. pc s' t \<noteq> W_Migrate i j" "ov \<Longrightarrow> overflowing s'"
      using assms(3) W_Migrate by (auto simp: worker_step_def overflowing_def split: if_splits)
    have cl: "claimed s' = claimed s" using pc by (simp add: claimed_def s'(1))
    have bs: "busy s' = busy s - {(i, j)}" using B W_Migrate s'(3) by auto
    have "overflowing s' \<or> claimed s' = set (migrated s') \<union> busy s'"
      using I overflowing_step[OF assms(3)] mem s'(4) by (auto simp: cl bs s'(2))
    moreover have "\<forall>x x' i j. pc s' x = W_Migrate i j \<longrightarrow> pc s' x' = W_Migrate i j \<longrightarrow> x = x'"
      by (rule unique_step[OF uniq assms(3)]) (simp add: s'(3))
    moreover have "distinct (migrated s')" "set (migrated s') \<inter> busy s' = {}" "set (migrated s') \<union> busy s' \<subseteq> claimed s'"
      using I mem by (auto simp: cl bs s'(2))
    ultimately show ?thesis using I pc s'(1) unfolding inv_claims_def by simp
  qed (rule claims_same[OF assms(1,3)]; use assms(3) in \<open>auto simp: worker_step_def split: if_splits\<close>)+
qed

lemma closing_step:
  assumes "worker_step t ov s = Inr s'" and "closing s"
  shows "closing s'"
proof (cases "odd (job_state s)")
  case True
  then show ?thesis using step_odd[OF assms(1)] by (simp add: closing_def)
next
  case False
  then obtain x where x: "pc s x = W_Close" using assms(2) by (auto simp: closing_def)
  show ?thesis
  proof (cases "x = t")
    case True
    then show ?thesis using assms(1) x by (auto simp: closing_def worker_step_def fetch_or_1_def split: if_splits)
  next
    case False
    then have "pc s' x = W_Close" using x step_pc[OF assms(1)] by (metis fun_upd_other)
    then show ?thesis by (auto simp: closing_def)
  qed
qed

lemma units_bound:
  assumes "inv_counts T s" and "inv_claims s"
  shows "at_count at_unit s \<le> units_left s" and "set (migrated s) = ranges (masks s) \<Longrightarrow> units_left s = at_count at_unit s"
    and "units_left s = 0 \<Longrightarrow> set (migrated s) = ranges (masks s)"
proof -
  have sub: "set (migrated s) \<subseteq> ranges (masks s)" and len: "length (migrated s) = card (set (migrated s))"
    using assms(2) by (auto simp: inv_claims_def claimed_def distinct_card)
  have le: "card (set (migrated s)) \<le> card (ranges (masks s))" by (rule card_mono[OF finite_ranges sub])
  have u: "units_left s = int (card (ranges (masks s))) - int (length (migrated s)) + at_count at_unit s"
    using assms(1) unfolding inv_counts_def by blast
  show "at_count at_unit s \<le> units_left s" using u len le by simp
  show "set (migrated s) = ranges (masks s) \<Longrightarrow> units_left s = at_count at_unit s" using u len by simp
  show "units_left s = 0 \<Longrightarrow> set (migrated s) = ranges (masks s)"
    using u len le at_count_nonneg[of at_unit s] card_subset_eq[OF finite_ranges sub] by simp
qed

lemma unit_positive: "inv_counts T s \<Longrightarrow> inv_claims s \<Longrightarrow> pc s t = W_Unit i \<Longrightarrow> 0 < units_left s"
  using at_count_pos[of T s at_unit t] units_bound(1)[of T s] by (auto simp: inv_counts_def)

text \<open>A thread that leaves as the last one leaves a closed job.\<close>

lemma leave_closed:
  assumes "inv_job T s" and "pc s t = W_Leave" and "job_state s \<le> 3"
  shows "odd (job_state s)"
proof (rule ccontr)
  assume even: "\<not> odd (job_state s)"
  note I = assms(1)[unfolded inv_job_def]
  have b: "bounded T s" "job_state s = 2 * at_count in_job s" using I even by (auto simp: inv_counts_def)
  have "0 < at_count in_job s" using at_count_pos[OF b(1), of in_job t] assms(2) by simp
  then have "card {x. in_job (pc s x)} = 1" using b(2) assms(3) by (simp add: at_count_def)
  then obtain y where "{x. in_job (pc s x)} = {y}" by (auto simp: card_1_singleton_iff)
  then have only: "x = t" if "in_job (pc s x)" for x using assms(2) that by (metis in_job.simps(11) mem_Collect_eq singletonD)
  have alone: "pc s x \<noteq> W_Migrate i j" "pc s x \<noteq> W_Overflow" "pc s x \<noteq> W_Close" "pc s x \<noteq> W_Unit i" for x i j
    using only[of x] assms(2) by auto
  have "busy s = {}" using alone(1) by (auto simp: busy_def)
  have nc: "\<not> closing s" using even alone(3) by (auto simp: closing_def)
  then have "\<not> overflowing s" using I alone(2) by (auto simp: overflowing_def inv_close_def)
  then have "claimed s = set (migrated s)" using I \<open>busy s = {}\<close> by (auto simp: inv_claims_def)
  moreover have "exhausted s (length (masks s))" using I assms(2) even by (auto simp: inv_progress_def)
  then have "claimed s = ranges (masks s)" by (auto simp: claimed_def exhausted_def ranges_def)
  ultimately have "units_left s = at_count at_unit s" using units_bound(2) I by metis
  moreover have "at_count at_unit s = 0"
  proof -
    have "\<not> at_unit (pc s x)" for x using alone(4)[of x] by (cases "pc s x") auto
    then show ?thesis by (simp add: at_count_def)
  qed
  ultimately show False using I nc by (auto simp: inv_close_def)
qed

lemma close_step:
  assumes "inv_job T s" and "worker_step t ov s = Inr s'"
  shows "inv_close s'"
proof -
  note I = assms(1)[unfolded inv_job_def]
  have C: "units_left s = 0 \<Longrightarrow> closing s" "overflowed s \<Longrightarrow> closing s" "closing s \<Longrightarrow> overflowed s \<or> units_left s = 0"
    "\<And>x. pc s x = W_Last \<Longrightarrow> odd (job_state s)" "0 < finishes s \<Longrightarrow> units_left s = 0"
    "finishes s = 0 \<Longrightarrow> current_table s = 0 \<and> garbage s = []"
    using I unfolding inv_close_def by auto
  note mono = closing_step[OF assms(2)] step_overflowed[OF assms(2)] step_odd[OF assms(2)]
  have zero: "units_left s' = 0" if "units_left s = 0"
    using assms(2) that unit_positive[of T s t] I by (cases "pc s t") (auto simp: worker_step_def Let_def split: if_splits)
  have one: "closing s'" if "units_left s \<noteq> 0" "units_left s' = 0"
    using assms(2) that by (cases "pc s t") (auto simp: worker_step_def closing_def Let_def split: if_splits)
  have "units_left s' = 0 \<longrightarrow> closing s'" using one mono(1) C(1) by blast
  moreover have "overflowed s' \<longrightarrow> closing s'"
  proof (cases "overflowed s")
    case False
    then show ?thesis using assms(2) by (cases "pc s t") (auto simp: worker_step_def closing_def Let_def split: if_splits)
  qed (use mono(1) C(2) in simp)
  moreover have "closing s' \<longrightarrow> overflowed s' \<or> units_left s' = 0"
  proof (cases "closing s")
    case True
    then show ?thesis using C(3) zero mono(2) by blast
  next
    case False
    then have n: "even (job_state s)" "pc s x \<noteq> W_Close" for x by (auto simp: closing_def)
    have "pc s' t = W_Close" if closed: "closing s'"
    proof -
      have "even (job_state s')" using n assms(2) by (cases "pc s t") (auto simp: worker_step_def Let_def split: if_splits)
      then obtain x where "pc s' x = W_Close" using closed by (auto simp: closing_def)
      then show ?thesis using n(2)[of x] step_pc[OF assms(2)] by (metis fun_upd_other)
    qed
    then show ?thesis using assms(2) by (cases "pc s t") (auto simp: worker_step_def Let_def split: if_splits)
  qed
  moreover have "odd (job_state s')" if "pc s' x = W_Last" for x
  proof (cases "x = t")
    case True
    then have "pc s t = W_Leave" "job_state s \<le> 3"
      using assms(2) that by (cases "pc s t"; auto simp: worker_step_def Let_def split: if_splits)+
    then show ?thesis using leave_closed[OF assms(1)] mono(3) by blast
  next
    case False
    then have "pc s x = W_Last" using that step_pc[OF assms(2)] by (metis fun_upd_other)
    then show ?thesis using C(4) mono(3) by blast
  qed
  moreover have "units_left s' = 0" if "0 < finishes s'"
  proof (cases "0 < finishes s")
    case False
    then have "pc s t = W_Last" "\<not> overflowed s"
      using assms(2) that by (cases "pc s t"; auto simp: worker_step_def Let_def split: if_splits)+
    then have "units_left s = 0" using C(3,4) by (auto simp: closing_def)
    then show ?thesis by (rule zero)
  qed (use C(5) zero in simp)
  moreover have "finishes s' = 0 \<longrightarrow> current_table s' = 0 \<and> garbage s' = []"
    using assms(2) C(6) by (cases "pc s t") (auto simp: worker_step_def finishMigration_def Let_def split: if_splits)
  ultimately show ?thesis unfolding inv_close_def by blast
qed

lemma reachable_inv:
  assumes "reachable_job T ms s" and "finite T" and "masks_ok ms"
  shows "inv_job T s \<and> masks s = ms"
  using assms
proof (induction rule: reachable_job.induct)
  case start
  then show ?case using new_job_inv by (simp add: new_job_def)
next
  case (step s t ov s')
  then have I: "inv_job T s" "masks s = ms" by simp_all
  then show ?case
    using counts_step[OF _ step.hyps(2,3)] claims_step[OF _ _ step.hyps(3)] progress_step[OF _ _ step.hyps(3)]
      close_step[OF I(1) step.hyps(3)] step_pc[OF step.hyps(3)] by (simp add: inv_job_def)
qed

subsection \<open>Timely workers\<close>

fun is_last :: "worker_pc \<Rightarrow> bool" where
  "is_last W_Last = True"
| "is_last _ = False"

definition ends :: "job \<Rightarrow> int" where
  "ends s = at_count is_last s + int (finishes s) + of_bool (tables_taken s)"

definition inv_timely :: "job \<Rightarrow> bool" where
  "inv_timely s \<longleftrightarrow> (0 < ends s \<longrightarrow> odd (job_state s) \<and> at_count in_job s = 0) \<and> ends s \<le> 1 \<and> dest_table s = 1 \<and>
     (finishes s = 1 \<longrightarrow> current_table s = 1 \<and> garbage s = [0])"

lemma timely_step:
  assumes "inv_job T s" and "inv_timely s" and "t \<in> T" and "\<not> late t s" and "worker_step t ov s = Inr s'"
  shows "inv_timely s'"
proof -
  have b: "bounded T s" "job_state s = 2 * at_count in_job s + of_bool (odd (job_state s))"
    using assms(1) unfolding inv_job_def inv_counts_def by blast+
  note J = count_step[OF b(1) assms(5), of in_job, simplified] and L = count_step[OF b(1) assms(5), of is_last, simplified]
  have Jt: "0 < at_count in_job s" if "in_job (pc s t)" using at_count_pos[of T s in_job t] b(1) that by simp
  have Lt: "0 < at_count is_last s" if "is_last (pc s t)" using at_count_pos[of T s is_last t] b(1) that by simp
  have I: "0 < ends s \<Longrightarrow> odd (job_state s) \<and> at_count in_job s = 0" "ends s \<le> 1" "dest_table s = 1"
    "finishes s = 1 \<Longrightarrow> current_table s = 1 \<and> garbage s = [0]"
    using assms(2) unfolding inv_timely_def by blast+
  show ?thesis
  proof (cases "pc s t = W_Leave \<and> job_state s \<le> 3")
    case True
    then have o: "odd (job_state s)" using leave_closed[OF assms(1)] by blast
    have "at_count in_job s = 1" "job_state s = 3" using Jt True b(2) o by (auto simp: of_bool_def)
    moreover have z: "at_count is_last s = 0 \<and> finishes s = 0 \<and> \<not> tables_taken s"
    proof -
      have "\<not> 0 < ends s" using I(1) Jt True by auto
      then show ?thesis using at_count_nonneg[of is_last s] unfolding ends_def by (cases "tables_taken s") auto
    qed
    moreover have "s' = goto t W_Last (s\<lparr>job_state := job_state s - 2\<rparr>)" using assms(5) True by (simp add: worker_step_def)
    ultimately show ?thesis using J L I(3) True o by (simp add: inv_timely_def ends_def)
  next
    case False
    show ?thesis
    proof (cases "pc s t = W_Last")
      case True
      have e: "at_count is_last s = 1" "finishes s = 0" "\<not> tables_taken s" "ends s = 1"
        using Lt True I(2) by (auto simp: ends_def of_bool_def split: if_splits)
      have cur: "current_table s = 0" "garbage s = []" using assms(1) e(2) by (simp_all add: inv_job_def inv_close_def)
      have "odd (job_state s)" "at_count in_job s = 0" using I(1) e(4) by simp_all
      then show ?thesis
        using assms(5) True J L I(3) e cur by (auto simp: worker_step_def inv_timely_def ends_def finishMigration_def split: if_splits)
    next
      case nl: False
      have same: "finishes s' = finishes s" "tables_taken s' = tables_taken s" "\<not> is_last (pc s' t)" "dest_table s' = dest_table s"
        "current_table s' = current_table s" "garbage s' = garbage s"
        using assms(5) nl False by (cases "pc s t"; auto simp: worker_step_def Let_def split: if_splits)+
      have "\<not> is_last (pc s t)" using nl by (cases "pc s t") auto
      then have ends: "ends s' = ends s" using L same by (simp add: ends_def)
      have "odd (job_state s') \<and> at_count in_job s' = 0" if "0 < ends s"
      proof -
        have o: "odd (job_state s)" "at_count in_job s = 0" using I(1) that by simp_all
        have "\<not> in_job (pc s t)" using Jt o(2) by auto
        moreover have "pc s t \<noteq> W_Join" using assms(4) o(1) by (simp add: late_def)
        ultimately have "\<not> in_job (pc s' t)"
          using assms(5) nl by (cases "pc s t") (auto simp: worker_step_def split: if_splits)
        then show ?thesis using o J step_odd[OF assms(5)] \<open>\<not> in_job (pc s t)\<close> by simp
      qed
      then show ?thesis using I(2-4) same ends by (simp add: inv_timely_def)
    qed
  qed
qed

lemma timely_inv:
  assumes "timely_job T ms s" and "finite T" and "masks_ok ms"
  shows "inv_job T s \<and> inv_timely s"
  using assms
proof (induction rule: timely_job.induct)
  case start
  have "at_count is_last (new_job ms) = 0" by (simp add: at_count_def new_job_def)
  then show ?case using start new_job_inv by (simp add: inv_timely_def ends_def) (simp add: new_job_def)
next
  case (step s t ov s')
  have "inv_job T s'"
    using reachable_inv[OF _ step.prems] timely_reachable timely_job.step[OF step.hyps] by blast
  then show ?case using timely_step[OF _ _ step.hyps(2,3,4)] step.IH step.prems by blast
qed

lemma timely_no_fault:
  assumes "inv_job T s" and "inv_timely s" and "t \<in> T"
  shows "\<exists>s'. worker_step t ov s = Inr s'"
proof (cases "pc s t = W_Last")
  case True
  have "bounded T s" using assms(1) by (simp add: inv_job_def inv_counts_def)
  then have "0 < at_count is_last s" using True at_count_pos[of T s is_last t] by simp
  then have "\<not> tables_taken s" using assms(2) by (auto simp: inv_timely_def ends_def)
  then show ?thesis using True by (simp add: worker_step_def)
next
  case False
  then show ?thesis by (cases "pc s t") (simp_all add: worker_step_def Let_def)
qed

subsection \<open>Properties\<close>

text \<open>The histories of a list of steps, for the examples.\<close>

fun run_workers :: "(nat \<times> bool) list \<Rightarrow> job \<Rightarrow> job result" where
  "run_workers [] s = Inr s"
| "run_workers ((t, ov) # xs) s = and_then (worker_step t ov s) (run_workers xs)"

lemma run_reachable: "reachable_job T ms s \<Longrightarrow> fst ` set xs \<subseteq> T \<Longrightarrow> run_workers xs s = Inr s' \<Longrightarrow> reachable_job T ms s'"
  by (induction xs s rule: run_workers.induct) (auto intro: reachable_job.step)

text \<open>Two threads, one source of 32 cells: thread 0 runs the job to its end after thread 1 has checked that it is open.\<close>

definition late_run :: "bool \<Rightarrow> (nat \<times> bool) list" where
  "late_run ov = [(1, False), (1, False), (0, False), (0, False), (0, False), (0, False), (0, False), (0, ov),
     (0, False), (0, False), (0, False), (0, False), (1, False), (1, False), (1, False), (1, False)]"

definition early_run :: "(nat \<times> bool) list" where
  "early_run = [(0, False), (0, False), (0, False), (0, False), (0, False), (0, False), (0, False), (0, False), (0, False), (0, False)]"

lemma masks_ok_example: "masks_ok [31]"
  by (simp add: masks_ok_def kMigrationChunkSize_def)

definition outcome :: "job result \<Rightarrow> (fault + nat \<times> nat \<times> nat list)" where
  "outcome r = (case r of Inl e \<Rightarrow> Inl e | Inr s \<Rightarrow> Inr (finishes s, current_table s, garbage s))"

lemma outcome_Inr: "outcome r = Inr (n, c, g) \<Longrightarrow> \<exists>s. r = Inr s \<and> finishes s = n \<and> current_table s = c \<and> garbage s = g"
  by (cases r) (auto simp: outcome_def)

lemma outcome_Inl: "outcome r = Inl e \<Longrightarrow> r = Inl e"
  by (cases r) (auto simp: outcome_def)

lemmas step_simps = new_job_def worker_step_def goto_def finishMigration_def fetch_or_1_def Let_def kMigrationChunkSize_def

lemma early_outcome: "outcome (run_workers early_run (new_job [31])) = Inr (1, 1, [0])"
  by (simp add: early_run_def, simp add: step_simps, simp add: outcome_def)

lemma late_outcome: "outcome (run_workers (late_run False) (new_job [31])) = Inr (2, 1, [0, 1])"
  by (simp add: late_run_def, simp add: step_simps, simp add: outcome_def)

lemma late_overflow: "outcome (run_workers (late_run True) (new_job [31])) = Inl Null_Deref"
  by (simp add: late_run_def, simp add: step_simps, simp add: outcome_def)

text \<open>
  C15: However many threads take part in a migration and however they are interleaved, each range of each source
  is migrated at most once, and when the new table is published without an overflow every range has been migrated: no entry is
  left behind in the old tables.
\<close>

theorem published_after_all_ranges:
  assumes "finite T" and "masks_ok ms" and "reachable_job T ms s"
  shows "distinct (migrated s) \<and> set (migrated s) \<subseteq> ranges ms \<and>
    (current_table s \<noteq> 0 \<longrightarrow> set (migrated s) = ranges ms)"
proof -
  have I: "inv_counts T s" "inv_claims s" "inv_close s" "masks s = ms"
    using reachable_inv[OF assms(3,1,2)] by (simp_all add: inv_job_def)
  have "distinct (migrated s)" "set (migrated s) \<subseteq> claimed s" using I(2) by (simp_all add: inv_claims_def)
  moreover have "claimed s \<subseteq> ranges ms" by (auto simp: claimed_def I(4))
  moreover have "set (migrated s) = ranges ms" if "current_table s \<noteq> 0"
  proof -
    have "units_left s = 0" using I(3) that by (auto simp: inv_close_def)
    then show ?thesis using units_bound(3)[OF I(1,2)] I(4) by simp
  qed
  ultimately show ?thesis by blast
qed

theorem published_after_all_ranges_witness:
  "\<exists>s. run_workers early_run (new_job [31]) = Inr s \<and> current_table s = 1 \<and> set (migrated s) = ranges [31]"
proof -
  obtain s where s: "run_workers early_run (new_job [31]) = Inr s" "current_table s = 1"
    using outcome_Inr[OF early_outcome] by blast
  have "reachable_job {0} [31] s" by (rule run_reachable[OF reachable_job.start _ s(1)]) (simp add: early_run_def)
  then show ?thesis using s published_after_all_ranges[OF _ masks_ok_example, of "{0}" s] by auto
qed

text \<open>
  C16: As long as no thread joins a migration that was closed since the thread checked it, the migration ends once: no step
  dereferences a null table, the new table is published at most once, and only the old table is scheduled for deletion.
\<close>

theorem timely_migration_ends_once:
  assumes "finite T" and "masks_ok ms" and "timely_job T ms s"
  shows "(\<forall>t\<in>T. \<forall>ov. \<exists>s'. worker_step t ov s = Inr s') \<and> finishes s \<le> 1 \<and>
    current_table s \<notin> set (garbage s) \<and> set (garbage s) \<subseteq> {0}"
proof -
  note I = timely_inv[OF assms(3,1,2)]
  have "ends s \<le> 1" using I by (simp add: inv_timely_def)
  then have "finishes s = 0 \<or> finishes s = 1"
    using at_count_nonneg[of is_last s] unfolding ends_def by (cases "tables_taken s") auto
  then have "current_table s \<notin> set (garbage s) \<and> set (garbage s) \<subseteq> {0} \<and> finishes s \<le> 1"
    using I by (auto simp: inv_timely_def inv_job_def inv_close_def)
  then show ?thesis using I timely_no_fault by blast
qed

lemma timely_alone: "timely_job {0} ms s \<Longrightarrow> worker_step 0 ov s = Inr s' \<Longrightarrow> \<not> late 0 s \<Longrightarrow> timely_job {0} ms s'"
  by (rule timely_job.step) simp_all

theorem timely_migration_ends_once_witness:
  "\<exists>s. timely_job {0} [31] s \<and> finishes s \<le> 1 \<and> (\<exists>s'. worker_step 0 True s = Inr s')"
  using timely_migration_ends_once[OF _ masks_ok_example timely_job.start, of "{0}"] timely_job.start[of "{0}" "[31]"]
  by (intro exI[of _ "new_job [31]"]) auto

text \<open>
  C17: \<open>run\<close> checks that the job is open and then joins it, in two steps. A thread that is held up between them joins a finished
  migration, leaves it as the last one once more, and calls \<open>finishMigration\<close> again: the table that is current is scheduled for deletion.
  After an overflow it follows the pointer to the first source, which has been set to null.
\<close>

theorem late_joiner_deletes_current_table:
  "(\<exists>s. run_workers (late_run False) (new_job [31]) = Inr s \<and> reachable_job {0, 1} [31] s \<and> finishes s = 2 \<and>
      current_table s \<in> set (garbage s)) \<and>
   run_workers (late_run True) (new_job [31]) = Inl Null_Deref"
proof
  obtain s where s: "run_workers (late_run False) (new_job [31]) = Inr s" "finishes s = 2" "current_table s \<in> set (garbage s)"
    using outcome_Inr[OF late_outcome] by auto
  have "reachable_job {0, 1} [31] s" by (rule run_reachable[OF reachable_job.start _ s(1)]) (auto simp: late_run_def)
  then show "\<exists>s. run_workers (late_run False) (new_job [31]) = Inr s \<and> reachable_job {0, 1} [31] s \<and> finishes s = 2 \<and>
      current_table s \<in> set (garbage s)" using s by blast
  show "run_workers (late_run True) (new_job [31]) = Inl Null_Deref" by (rule outcome_Inl[OF late_overflow])
qed

end
