(* ===== verification/C_Strings.thy ===== *)
theory C_Strings
  imports Base "HOL-Library.Sublist" "HOL-Library.Char_ord"
begin

text \<open>
  The text functions the agent and the controller use: \<open>strchr\<close> on a buffer, decimal numbers read by
  \<open>atoi\<close> and by \<open>operator>>\<close> of an input stream, and decimal numbers written by \<open>operator<<\<close>. A C string is
  the list of its characters before the terminating zero; a pointer into it is a position.
  \<open>strstr(p, lit) == p\<close> says that the literal is a prefix of the string at \<open>p\<close>.
\<close>

definition strchr :: "string \<Rightarrow> nat \<Rightarrow> char \<Rightarrow> nat option" where
  "strchr s p c = (let i = p + length (takeWhile (\<lambda>x. x \<noteq> c) (drop p s)) in
     if i < length s then Some i else None)"

definition at_start :: "string \<Rightarrow> string \<Rightarrow> bool" where
  "at_start lit s = prefix lit s"

lemma strchr_bounds: "strchr s p c = Some i \<Longrightarrow> p \<le> i \<and> i < length s"
  by (auto simp: strchr_def Let_def split: if_splits)

lemma takeWhile_found: "c \<notin> set u \<Longrightarrow> takeWhile (\<lambda>x. x \<noteq> c) (u @ c # w) = u"
  by (induction u) auto

lemma strchr_found: "c \<notin> set u \<Longrightarrow> strchr (p @ u @ c # w) (length p) c = Some (length p + length u)"
  by (simp add: strchr_def takeWhile_found Let_def)

lemma strchr_none:
  assumes "c \<notin> set u"
  shows "strchr (p @ u) (length p) c = None"
proof -
  have "takeWhile (\<lambda>x. x \<noteq> c) u = u" using assms by (auto simp: takeWhile_eq_all_conv)
  then show ?thesis unfolding strchr_def Let_def by (simp del: takeWhile_eq_all_conv)
qed

subsection \<open>Decimal digits\<close>

definition is_space :: "char \<Rightarrow> bool" where
  "is_space c \<longleftrightarrow> (let n = of_char c :: nat in n = 32 \<or> (9 \<le> n \<and> n \<le> 13))"

definition is_digit :: "char \<Rightarrow> bool" where
  "is_digit c \<longleftrightarrow> (let n = of_char c :: nat in 48 \<le> n \<and> n \<le> 57)"

definition digit_value :: "char \<Rightarrow> nat" where
  "digit_value c = of_char c - 48"

definition digits_value :: "string \<Rightarrow> nat" where
  "digits_value ds = foldl (\<lambda>n c. 10 * n + digit_value c) 0 ds"

text \<open>An optional sign.\<close>

definition split_sign :: "string \<Rightarrow> bool \<times> string" where
  "split_sign s = (case s of
      [] \<Rightarrow> (False, s)
    | c # cs \<Rightarrow> if c = CHR ''-'' then (True, cs) else if c = CHR ''+'' then (False, cs) else (False, s))"

definition signed_value :: "bool \<Rightarrow> string \<Rightarrow> int" where
  "signed_value neg ds = (if neg then - int (digits_value ds) else int (digits_value ds))"

definition clamp :: "nat \<Rightarrow> int \<Rightarrow> int" where
  "clamp w x = max (- (2 ^ (w - 1))) (min (2 ^ (w - 1) - 1) x)"

text \<open>\<open>atoi\<close> is \<open>(int) strtol(s, NULL, 10)\<close>: out of range it is cut to a \<open>long\<close>, and then to 32 bits.\<close>

definition atoi :: "string \<Rightarrow> jint" where
  "atoi s = (case split_sign (dropWhile is_space s) of (neg, t) \<Rightarrow>
     word_of_int (clamp 64 (signed_value neg (takeWhile is_digit t))))"

text \<open>What ends a number does not matter.\<close>

definition ends_number :: "char \<Rightarrow> bool" where
  "ends_number c \<longleftrightarrow> \<not> is_space c \<and> \<not> is_digit c \<and> c \<noteq> CHR ''-'' \<and> c \<noteq> CHR ''+''"

lemma dropWhile_stop: "\<not> P c \<Longrightarrow> dropWhile P (u @ c # w) = dropWhile P u @ c # w"
  by (induction u) auto

lemma takeWhile_stop: "\<not> P c \<Longrightarrow> takeWhile P (u @ c # w) = takeWhile P u"
  by (induction u) auto

lemma atoi_stop:
  assumes "ends_number c"
  shows "atoi (v @ c # w) = atoi v"
proof -
  have c: "\<not> is_space c" "\<not> is_digit c" "c \<noteq> CHR ''-''" "c \<noteq> CHR ''+''" using assms by (simp_all add: ends_number_def)
  obtain neg t where t: "split_sign (dropWhile is_space v) = (neg, t)" by fastforce
  then have "split_sign (dropWhile is_space v @ c # w) = (neg, t @ c # w)"
  proof (cases "dropWhile is_space v")
    case Nil
    then show ?thesis using t c unfolding Nil by (simp add: split_sign_def)
  next
    case (Cons d ds)
    then show ?thesis using t unfolding Cons by (auto simp: split_sign_def split: if_splits)
  qed
  then show ?thesis using t c by (simp add: atoi_def dropWhile_stop takeWhile_stop)
qed

lemma comma_ends_number: "ends_number CHR '',''"
  by (simp add: ends_number_def is_space_def is_digit_def)

subsection \<open>Writing numbers\<close>

definition digit :: "nat \<Rightarrow> char" where
  "digit d = char_of (48 + d)"

fun show_nat :: "nat \<Rightarrow> string" where
  "show_nat n = (if n < 10 then [digit n] else show_nat (n div 10) @ [digit (n mod 10)])"

declare show_nat.simps [simp del]

definition show_int :: "int \<Rightarrow> string" where
  "show_int x = (if x < 0 then CHR ''-'' # show_nat (nat (- x)) else show_nat (nat x))"

lemma digit_props:
  assumes "d < 10"
  shows "is_digit (digit d)" and "digit_value (digit d) = d" and "\<not> is_space (digit d)"
    and "digit d \<noteq> CHR ''-''" and "digit d \<noteq> CHR ''+''"
proof -
  have v: "(of_char (digit d) :: nat) = 48 + d" using assms by (simp add: digit_def of_char_of)
  then show "is_digit (digit d)" "digit_value (digit d) = d" "\<not> is_space (digit d)"
    using assms by (auto simp: is_digit_def digit_value_def is_space_def)
  show "digit d \<noteq> CHR ''-''" "digit d \<noteq> CHR ''+''" using v by (auto dest: arg_cong[of _ _ "of_char :: char \<Rightarrow> nat"])
qed

lemma digits_value_snoc [simp]: "digits_value (ds @ [c]) = 10 * digits_value ds + digit_value c"
  by (simp add: digits_value_def)

lemma show_nat_digits: "(\<forall>c\<in>set (show_nat n). is_digit c) \<and> digits_value (show_nat n) = n \<and> show_nat n \<noteq> []"
proof (induction n rule: show_nat.induct)
  case (1 n)
  show ?case
  proof (cases "n < 10")
    case True
    then show ?thesis using digit_props[of n] by (subst (1 2 3) show_nat.simps) (simp add: digits_value_def)
  next
    case False
    then show ?thesis using 1 digit_props[of "n mod 10"] by (subst (1 2 3) show_nat.simps) auto
  qed
qed

lemma digit_not_sign: "is_digit c \<Longrightarrow> \<not> is_space c \<and> c \<noteq> CHR ''-'' \<and> c \<noteq> CHR ''+''"
  by (auto simp: is_digit_def is_space_def Let_def)

lemma takeWhile_digits: "\<forall>c\<in>set ds. is_digit c \<Longrightarrow> (\<forall>c w'. w = c # w' \<longrightarrow> \<not> is_digit c) \<Longrightarrow>
    takeWhile is_digit (ds @ w) = ds \<and> dropWhile is_digit (ds @ w) = w"
  by (induction ds) (cases w; simp)+

end
