(* ===== verification/Configuration.thy ===== *)
theory Configuration
  imports C_Strings "HOL-Library.AList"
begin

text \<open>
  The options of the agent (\<^verbatim>\<open>globals.h\<close>, \<^verbatim>\<open>agent.cpp\<close>): the structure
  \<open>ConfigurationOptions\<close>, the copies of strings it owns on the heap, and \<open>parseArguments\<close>.

  The heap of strings lists the blocks in use, each holding a C string. \<open>malloc\<close> is the argument
  \<open>alloc\<close>; it is documented to return a block that is not in use (\<open>malloc_spec\<close>), and an address may
  come back once it has been freed.
\<close>

definition DEFAULT_SAMPLING_INTERVAL :: jint where "DEFAULT_SAMPLING_INTERVAL = 1"
definition DEFAULT_MAX_FRAMES_TO_CAPTURE :: jint where "DEFAULT_MAX_FRAMES_TO_CAPTURE = 128"
definition MAX_FRAMES_TO_CAPTURE :: jint where "MAX_FRAMES_TO_CAPTURE = 2048"

type_synonym char_heap = "(addr \<times> string) list"

definition malloc_spec :: "(char_heap \<Rightarrow> addr) \<Rightarrow> bool" where
  "malloc_spec alloc \<longleftrightarrow> (\<forall>h. map_of h (alloc h) = None)"

text \<open>An allocator that satisfies it.\<close>

definition first_free :: "char_heap \<Rightarrow> addr" where
  "first_free h = foldr (\<lambda>b m. max (fst b + 1) m) h 1"

lemma malloc_spec_first_free: "malloc_spec first_free"
proof -
  have "a \<in> fst ` set h \<Longrightarrow> a < first_free h" for a h
    by (induction h) (auto simp: first_free_def less_max_iff_disj)
  then have "first_free h \<notin> fst ` set h" for h by blast
  then show ?thesis by (simp add: malloc_spec_def map_of_eq_None_iff)
qed

lemma malloc_specD [simp]: "malloc_spec alloc \<Longrightarrow> map_of h (alloc h) = None"
  by (simp add: malloc_spec_def)

text \<open>
  \<open>safe_copy_string(value, next)\<close>, both pointers into the string \<open>s\<close>. The size is the unsigned
  difference of the pointers; \<open>malloc\<close> has no blocks of more than \<open>PTRDIFF_MAX\<close> bytes and returns
  null, which \<open>strncpy\<close> then writes to.
\<close>

definition copy_size :: "string \<Rightarrow> nat \<Rightarrow> nat option \<Rightarrow> u64" where
  "copy_size s value next = (case next of
      None \<Rightarrow> word_of_nat (length s - value)
    | Some n \<Rightarrow> word_of_nat n - word_of_nat value)"

definition safe_copy_string :: "(char_heap \<Rightarrow> addr) \<Rightarrow> string \<Rightarrow> nat \<Rightarrow> nat option \<Rightarrow> char_heap \<Rightarrow>
    (addr \<times> char_heap) result" where
  "safe_copy_string alloc s value next h =
     (let size = copy_size s value next; a = alloc h in
      if unat (size + 1) = 0 then Inl Out_Of_Bounds
      else if unat (size + 1) \<ge> 2 ^ 63 then Inl Null_Deref
      else Inr (a, AList.update a (take (unat size) (drop value s)) h))"

text \<open>\<open>free\<close>, the effect of \<open>safe_free_string\<close> on the heap; its argument is set to null by the callers.\<close>

definition safe_free_string :: "addr option \<Rightarrow> char_heap \<Rightarrow> char_heap result" where
  "safe_free_string p h = (case p of
      None \<Rightarrow> Inr h
    | Some a \<Rightarrow> if map_of h a = None then Inl Double_Free else Inr (AList.delete a h))"

record configuration =
  samplingIntervalMin :: jint
  samplingIntervalMax :: jint
  logFilePath :: "addr option"
  host :: "addr option"
  port :: "addr option"
  start :: bool
  maxFramesToCapture :: jint

definition new_configuration :: configuration where
  "new_configuration = \<lparr>samplingIntervalMin = DEFAULT_SAMPLING_INTERVAL,
     samplingIntervalMax = DEFAULT_SAMPLING_INTERVAL, logFilePath = None, host = None, port = None,
     start = True, maxFramesToCapture = DEFAULT_MAX_FRAMES_TO_CAPTURE\<rparr>"

text \<open>The destructor.\<close>

definition delete_configuration :: "configuration \<Rightarrow> char_heap \<Rightarrow> char_heap result" where
  "delete_configuration c h =
     and_then (safe_free_string (logFilePath c) h) (\<lambda>h1.
     and_then (safe_free_string (host c) h1) (safe_free_string (port c)))"

subsection \<open>parseArguments\<close>

text \<open>One option: \<open>key\<close>, \<open>value\<close> and \<open>next\<close> point into the options. Unknown keys are only logged.\<close>

definition parse_option :: "(char_heap \<Rightarrow> addr) \<Rightarrow> string \<Rightarrow> nat \<Rightarrow> nat \<Rightarrow> nat option \<Rightarrow>
    configuration \<times> char_heap \<Rightarrow> (configuration \<times> char_heap) result" where
  "parse_option alloc s key value next = (\<lambda>(c, h).
     let k = drop key s; number = atoi (drop value s);
         copied = (\<lambda>f. and_then (safe_copy_string alloc s value next h) (\<lambda>(a, h1). Inr (f (Some a), h1))) in
     if at_start ''intervalMin'' k then Inr (c\<lparr>samplingIntervalMin := number\<rparr>, h)
     else if at_start ''intervalMax'' k then Inr (c\<lparr>samplingIntervalMax := number\<rparr>, h)
     else if at_start ''interval'' k
       then Inr (c\<lparr>samplingIntervalMin := number, samplingIntervalMax := number\<rparr>, h)
     else if at_start ''logPath'' k then copied (\<lambda>p. c\<lparr>logFilePath := p\<rparr>)
     else if at_start ''start'' k then Inr (c\<lparr>start := number \<noteq> 0\<rparr>, h)
     else if at_start ''host'' k then copied (\<lambda>p. c\<lparr>host := p\<rparr>)
     else if at_start ''port'' k then copied (\<lambda>p. c\<lparr>port := p\<rparr>)
     else if at_start ''maxFrames'' k then Inr (c\<lparr>maxFramesToCapture := number\<rparr>, h)
     else Inr (c, h))"

function parse_from :: "(char_heap \<Rightarrow> addr) \<Rightarrow> string \<Rightarrow> nat \<Rightarrow> configuration \<times> char_heap \<Rightarrow>
    (configuration \<times> char_heap) result" where
  "parse_from alloc s key ch =
     (let next = strchr s key CHR '','' in
      and_then (case strchr s key CHR ''='' of
                  None \<Rightarrow> Inr ch
                | Some v \<Rightarrow> parse_option alloc s key (v + 1) next ch) (\<lambda>ch1.
        case next of None \<Rightarrow> Inr ch1 | Some n \<Rightarrow> parse_from alloc s (n + 1) ch1))"
  by pat_completeness auto

termination
  by (relation "measure (\<lambda>(alloc, s, key, ch). Suc (length s) - key)") (auto dest!: strchr_bounds[OF sym])

declare parse_from.simps [simp del]

text \<open>The JVM passes null when the agent has no options.\<close>

definition parseArguments :: "(char_heap \<Rightarrow> addr) \<Rightarrow> string option \<Rightarrow> configuration \<times> char_heap \<Rightarrow>
    (configuration \<times> char_heap) result" where
  "parseArguments alloc options ch = (case options of None \<Rightarrow> Inr ch | Some s \<Rightarrow> parse_from alloc s 0 ch)"

subsection \<open>What the options mean\<close>

text \<open>The settings with the strings instead of their addresses.\<close>

record settings =
  s_min :: jint
  s_max :: jint
  s_path :: "string option"
  s_host :: "string option"
  s_port :: "string option"
  s_start :: bool
  s_frames :: jint

definition text_at :: "char_heap \<Rightarrow> addr option \<Rightarrow> string option" where
  "text_at h p = (case p of None \<Rightarrow> None | Some a \<Rightarrow> map_of h a)"

definition settings_of :: "configuration \<times> char_heap \<Rightarrow> settings" where
  "settings_of = (\<lambda>(c, h). \<lparr>s_min = samplingIntervalMin c, s_max = samplingIntervalMax c,
     s_path = text_at h (logFilePath c), s_host = text_at h (host c), s_port = text_at h (port c),
     s_start = start c, s_frames = maxFramesToCapture c\<rparr>)"

text \<open>An option is named by the first of these words that its key begins with.\<close>

fun apply_option :: "string \<times> string \<Rightarrow> settings \<Rightarrow> settings" where
  "apply_option (k, v) x =
     (if prefix ''intervalMin'' k then x\<lparr>s_min := atoi v\<rparr>
      else if prefix ''intervalMax'' k then x\<lparr>s_max := atoi v\<rparr>
      else if prefix ''interval'' k then x\<lparr>s_min := atoi v, s_max := atoi v\<rparr>
      else if prefix ''logPath'' k then x\<lparr>s_path := Some v\<rparr>
      else if prefix ''start'' k then x\<lparr>s_start := atoi v \<noteq> 0\<rparr>
      else if prefix ''host'' k then x\<lparr>s_host := Some v\<rparr>
      else if prefix ''port'' k then x\<lparr>s_port := Some v\<rparr>
      else if prefix ''maxFrames'' k then x\<lparr>s_frames := atoi v\<rparr>
      else x)"

fun option_text :: "(string \<times> string) list \<Rightarrow> string" where
  "option_text [] = ''''"
| "option_text [(k, v)] = k @ ''='' @ v"
| "option_text ((k, v) # o2 # os) = k @ ''='' @ v @ '','' @ option_text (o2 # os)"

definition plain_option :: "string \<times> string \<Rightarrow> bool" where
  "plain_option = (\<lambda>(k, v). CHR ''='' \<notin> set k \<and> CHR '','' \<notin> set k \<and> CHR '','' \<notin> set v)"

text \<open>The strings the settings own are on the heap, at different addresses.\<close>

definition owned :: "configuration \<Rightarrow> addr set" where
  "owned c = set_option (logFilePath c) \<union> set_option (host c) \<union> set_option (port c)"

definition supplied :: "(char_heap \<Rightarrow> addr) \<Rightarrow> configuration \<times> char_heap \<Rightarrow> bool" where
  "supplied alloc = (\<lambda>(c, h). malloc_spec alloc \<and> owned c \<subseteq> dom (map_of h))"

text \<open>The agent's options own their strings, each one its own.\<close>

definition wf_options :: "configuration \<times> char_heap \<Rightarrow> bool" where
  "wf_options = (\<lambda>(c, h). dom (map_of h) = owned c \<and>
     set_option (host c) \<inter> set_option (port c) = {} \<and>
     set_option (logFilePath c) \<inter> (set_option (host c) \<union> set_option (port c)) = {})"

text \<open>No string is given twice; the first copy would be lost.\<close>

definition first_time :: "string \<Rightarrow> settings \<Rightarrow> bool" where
  "first_time k x \<longleftrightarrow> (prefix ''logPath'' k \<longrightarrow> s_path x = None) \<and> (prefix ''host'' k \<longrightarrow> s_host x = None) \<and>
     (prefix ''port'' k \<longrightarrow> s_port x = None)"

fun strings_once :: "(string \<times> string) list \<Rightarrow> settings \<Rightarrow> bool" where
  "strings_once [] x = True"
| "strings_once (kv # os) x = (first_time (fst kv) x \<and> strings_once os (apply_option kv x))"

lemma text_at_None: "supplied alloc (c, h) \<Longrightarrow> p \<in> {logFilePath c, host c, port c} \<Longrightarrow> text_at h p = None \<longleftrightarrow> p = None"
proof (cases p)
  case (Some a)
  assume sup: "supplied alloc (c, h)" "p \<in> {logFilePath c, host c, port c}"
  then have "a \<in> owned c" using Some unfolding owned_def by (elim insertE) auto
  then have "a \<in> dom (map_of h)" using sup(1) by (auto simp: supplied_def)
  then show ?thesis using Some by (auto simp: text_at_def)
qed (simp add: text_at_def)

lemma wf_options_fresh:
  assumes "wf_options (c, h)" and "map_of h a = None"
  shows "logFilePath c = None \<Longrightarrow> wf_options (c\<lparr>logFilePath := Some a\<rparr>, AList.update a v h)"
    and "host c = None \<Longrightarrow> wf_options (c\<lparr>host := Some a\<rparr>, AList.update a v h)"
    and "port c = None \<Longrightarrow> wf_options (c\<lparr>port := Some a\<rparr>, AList.update a v h)"
proof -
  have "a \<notin> dom (map_of h)" using assms(2) by auto
  then show "logFilePath c = None \<Longrightarrow> wf_options (c\<lparr>logFilePath := Some a\<rparr>, AList.update a v h)"
    and "host c = None \<Longrightarrow> wf_options (c\<lparr>host := Some a\<rparr>, AList.update a v h)"
    and "port c = None \<Longrightarrow> wf_options (c\<lparr>port := Some a\<rparr>, AList.update a v h)"
    using assms(1) unfolding wf_options_def prod.case owned_def update_conv' dom_fun_upd
    by (simp_all del: not_None_eq)
qed

lemma wf_options_same:
  assumes "wf_options (c, h)" and "logFilePath c' = logFilePath c" and "host c' = host c" and "port c' = port c"
  shows "wf_options (c', h)"
  using assms by (simp add: wf_options_def owned_def)

lemma copy_result: "safe_copy_string alloc s value next h = Inr (a, h1) \<Longrightarrow> \<exists>v. a = alloc h \<and> h1 = AList.update (alloc h) v h"
  by (auto simp: safe_copy_string_def Let_def split: if_splits)

lemma parse_option_wf:
  assumes "parse_option alloc s key value next (c, h) = Inr ch" and "malloc_spec alloc" and "wf_options (c, h)"
    and "at_start ''logPath'' (drop key s) \<Longrightarrow> logFilePath c = None"
    and "at_start ''host'' (drop key s) \<Longrightarrow> host c = None"
    and "at_start ''port'' (drop key s) \<Longrightarrow> port c = None"
  shows "wf_options ch"
proof -
  note fresh = wf_options_fresh[OF assms(3) malloc_specD[OF assms(2)]]
  note same = wf_options_same[OF assms(3)]
  show ?thesis
    using assms(1,4-6) unfolding parse_option_def Let_def prod.case
    by (auto dest!: copy_result intro!: fresh same split: if_splits)
qed

lemma prefix_stop: "c \<notin> set lit \<Longrightarrow> prefix lit (k @ c # w) = prefix lit k"
  by (induction lit arbitrary: k) (auto simp: prefix_Cons Cons_prefix_Cons split: list.splits, (case_tac k; auto)+)

lemma copy_effect:
  assumes "s = u @ v @ w" and "value = length u" and "length s < 2 ^ 62"
    and "next = (if w = [] then None else Some (length u + length v))"
  shows "safe_copy_string alloc s value next h =
    Inr (alloc h, AList.update (alloc h) v h)"
proof -
  have "copy_size s value next = word_of_nat (length v)"
    using assms by (simp add: copy_size_def)
  then have "unat (copy_size s value next) = length v" "unat (copy_size s value next + 1) = length v + 1"
    using assms(1,3) by (simp_all add: unat_of_nat unat_word_ariths)
  then show ?thesis using assms(1-3) by (simp add: safe_copy_string_def Let_def)
qed

lemma text_at_alloc:
  assumes "supplied alloc (c, h)" and "p \<in> {logFilePath c, host c, port c}"
  shows "text_at (AList.update (alloc h) v h) p = text_at h p"
proof (cases p)
  case (Some a)
  then have "a \<in> owned c" using assms(2) unfolding owned_def by (elim insertE) auto
  then have "a \<in> dom (map_of h)" using assms(1) by (auto simp: supplied_def)
  moreover have "map_of h (alloc h) = None" using assms(1) by (simp add: supplied_def)
  ultimately have "a \<noteq> alloc h" by auto
  then show ?thesis using Some by (simp add: text_at_def update_conv')
qed (simp add: text_at_def)

lemma parse_option_spec:
  assumes "s = p @ k @ ''='' @ v @ w" and "plain_option (k, v)" and "length s < 2 ^ 62" and "w = [] \<or> (\<exists>w'. w = CHR '','' # w')"
    and "supplied alloc (c, h)"
  shows "\<exists>ch. parse_option alloc s (length p) (length p + length k + 1)
      (if w = [] then None else Some (length p + length k + 1 + length v)) (c, h) = Inr ch \<and>
    supplied alloc ch \<and> settings_of ch = apply_option (k, v) (settings_of (c, h))"
proof -
  have pre: "at_start lit (drop (length p) s) = prefix lit k" if "CHR ''='' \<notin> set lit" for lit
    using that by (simp add: at_start_def assms(1) prefix_stop)
  have num: "atoi (drop (length p + length k + 1) s) = atoi v"
    using assms(1,4) atoi_stop[OF comma_ends_number, of v] by auto
  have copy: "safe_copy_string alloc s (length p + length k + 1)
      (if w = [] then None else Some (length p + length k + 1 + length v)) h =
    Inr (alloc h, AList.update (alloc h) v h)"
    using assms(1,3) by (intro copy_effect[of s "p @ k @ ''=''" v w]) auto
  have new: "text_at (AList.update (alloc h) v h) (Some (alloc h)) = Some v"
    by (simp add: text_at_def update_conv')
  have sup: "supplied alloc (c\<lparr>logFilePath := Some (alloc h)\<rparr>, AList.update (alloc h) v h)"
    "supplied alloc (c\<lparr>host := Some (alloc h)\<rparr>, AList.update (alloc h) v h)"
    "supplied alloc (c\<lparr>port := Some (alloc h)\<rparr>, AList.update (alloc h) v h)"
    using assms(5) by (auto simp: supplied_def owned_def update_conv' subset_iff)
  have same: "supplied alloc (c', h)" if "owned c' = owned c" for c' using assms(5) that by (simp add: supplied_def)
  note T = text_at_alloc[OF assms(5)]
  show ?thesis
    unfolding parse_option_def Let_def prod.case num copy apply_option.simps
    by (simp add: pre settings_of_def T new sup same owned_def)
qed

lemma option_text_Cons:
  "os \<noteq> [] \<Longrightarrow> option_text ((k, v) # os) = k @ ''='' @ v @ '','' @ option_text os"
  by (cases os) auto

lemma parse_from_spec:
  assumes "os \<noteq> []" and "\<forall>x\<in>set os. plain_option x" and "s = p @ option_text os" and "length s < 2 ^ 62"
    and "supplied alloc ch"
  shows "\<exists>ch'. parse_from alloc s (length p) ch = Inr ch' \<and> supplied alloc ch' \<and>
    settings_of ch' = foldl (\<lambda>x kv. apply_option kv x) (settings_of ch) os \<and>
    (wf_options ch \<and> strings_once os (settings_of ch) \<longrightarrow> wf_options ch')"
  using assms
proof (induction os arbitrary: p ch)
  case (Cons kv os)
  obtain k v where kv: "kv = (k, v)" by fastforce
  obtain c h where ch: "ch = (c, h)" by fastforce
  define w where "w = (if os = [] then [] else '','' @ option_text os)"
  have s: "s = p @ k @ ''='' @ v @ w"
    using Cons.prems(3) option_text_Cons[of os k v] by (cases os) (simp_all add: kv w_def)
  have plain: "plain_option (k, v)" using Cons.prems(2) kv by simp
  then have ne: "CHR ''='' \<notin> set k" "CHR '','' \<notin> set (k @ ''='' @ v)" by (auto simp: plain_option_def)
  have eq: "strchr s (length p) CHR ''='' = Some (length p + length k)"
    using strchr_found[OF ne(1), of p "v @ w"] by (simp add: s)
  have next': "strchr s (length p) CHR '','' = (if w = [] then None else Some (length p + length k + 1 + length v))"
  proof (cases "os = []")
    case True
    then show ?thesis using strchr_none[OF ne(2), of p] by (simp add: s w_def)
  next
    case False
    then show ?thesis using strchr_found[OF ne(2), of p "option_text os"] by (simp add: s w_def)
  qed
  have "w = [] \<or> (\<exists>w'. w = CHR '','' # w')" by (simp add: w_def)
  then obtain ch1 where ch1: "parse_option alloc s (length p) (length p + length k + 1)
      (if w = [] then None else Some (length p + length k + 1 + length v)) (c, h) = Inr ch1"
    "supplied alloc ch1" "settings_of ch1 = apply_option (k, v) (settings_of (c, h))"
    using parse_option_spec[OF s plain Cons.prems(4)] Cons.prems(5) ch by blast
  have pre: "at_start lit (drop (length p) s) = prefix lit k" if "CHR ''='' \<notin> set lit" for lit
    using that by (simp add: at_start_def s prefix_stop)
  have wf1: "wf_options ch1" if "wf_options ch" "first_time k (settings_of ch)"
    using that Cons.prems(5) text_at_None[of alloc c h] unfolding ch
    by (intro parse_option_wf[OF ch1(1)]) (simp_all add: pre first_time_def settings_of_def supplied_def)
  show ?case
  proof (cases "os = []")
    case True
    then have "parse_from alloc s (length p) ch = Inr ch1"
      using eq next' ch1(1) by (subst parse_from.simps) (simp add: Let_def ch w_def)
    then show ?thesis using ch1(2,3) True wf1 by (simp add: kv ch)
  next
    case False
    let ?p = "p @ k @ ''='' @ v @ '',''"
    have len: "length ?p = length p + length k + 1 + length v + 1" by simp
    have "parse_from alloc s (length p) ch = parse_from alloc s (length ?p) ch1"
      using eq next' ch1(1) False len by (subst parse_from.simps) (simp add: Let_def ch w_def add.assoc)
    moreover have "s = ?p @ option_text os" using s False by (simp add: w_def)
    then obtain ch' where ch': "parse_from alloc s (length ?p) ch1 = Inr ch'" "supplied alloc ch'"
      "settings_of ch' = foldl (\<lambda>x kv. apply_option kv x) (settings_of ch1) os"
      "wf_options ch1 \<and> strings_once os (settings_of ch1) \<longrightarrow> wf_options ch'"
      using Cons.IH[of ?p ch1] False Cons.prems(2,4) ch1(2) by auto
    moreover have "wf_options ch \<and> strings_once (kv # os) (settings_of ch) \<longrightarrow> wf_options ch'"
      using wf1 ch'(4) ch1(3) unfolding kv ch strings_once.simps fst_conv by metis
    ultimately show ?thesis using ch1(3) unfolding kv ch foldl.simps by metis
  qed
qed simp

lemma parse_wf:
  assumes "\<forall>x\<in>set os. plain_option x" and "length (option_text os) < 2 ^ 62" and "malloc_spec alloc"
    and "strings_once os (settings_of (new_configuration, []))" and "opts = (if os = [] then None else Some (option_text os))"
  shows "\<exists>ch. parseArguments alloc opts (new_configuration, []) = Inr ch \<and> wf_options ch \<and>
    settings_of ch = foldl (\<lambda>x kv. apply_option kv x) (settings_of (new_configuration, [])) os"
proof (cases "os = []")
  case True
  then show ?thesis
    using assms(5) by (auto simp: parseArguments_def wf_options_def new_configuration_def owned_def)
next
  case False
  have "supplied alloc (new_configuration, [])" using assms(3) by (simp add: supplied_def owned_def new_configuration_def)
  moreover have "wf_options (new_configuration, [])" by (simp add: wf_options_def new_configuration_def owned_def)
  ultimately show ?thesis
    using parse_from_spec[OF False assms(1) _ assms(2), of "[]" alloc "(new_configuration, [])"] assms(4,5) False
    by (auto simp: parseArguments_def)
qed

subsection \<open>Properties\<close>

text \<open>
  C37: A well-formed option string, one \<open>key=value\<close> pair or more with commas between them, is read without a fault and
  every pair takes effect in order: numbers as \<open>atoi\<close> reads them, strings as copies of exactly the
  value, and a later pair overriding an earlier one.
\<close>

theorem parse_applies_options:
  assumes "os \<noteq> []" and "\<forall>x\<in>set os. plain_option x" and "length (option_text os) < 2 ^ 62" and "malloc_spec alloc"
  shows "\<exists>ch. parseArguments alloc (Some (option_text os)) (new_configuration, []) = Inr ch \<and>
    settings_of ch = foldl (\<lambda>x kv. apply_option kv x) (settings_of (new_configuration, [])) os"
proof -
  have "supplied alloc (new_configuration, [])"
    using assms(4) by (simp add: supplied_def owned_def new_configuration_def)
  from parse_from_spec[OF assms(1,2) _ assms(3) this, of "[]"] show ?thesis by (auto simp: parseArguments_def)
qed

theorem parse_applies_options_witness:
  "\<exists>ch. parseArguments first_free (Some ''host=localhost,interval=5,logPath=/tmp/a=b.hpl,start=0'') (new_configuration, []) = Inr ch \<and>
    s_host (settings_of ch) = Some ''localhost'' \<and> s_path (settings_of ch) = Some ''/tmp/a=b.hpl'' \<and>
    s_min (settings_of ch) = 5 \<and> s_max (settings_of ch) = 5 \<and> \<not> s_start (settings_of ch)"
proof -
  let ?os = "[(''host'', ''localhost''), (''interval'', ''5''), (''logPath'', ''/tmp/a=b.hpl''), (''start'', ''0'')]"
  have "atoi ''5'' = 5" "atoi ''0'' = 0" by code_simp+
  moreover have "\<forall>x\<in>set ?os. plain_option x" by (simp add: plain_option_def)
  ultimately show ?thesis
    using parse_applies_options[OF _ _ _ malloc_spec_first_free, of ?os] by (auto simp: foldl_Cons)
qed

lemma valueless_positions:
  assumes "CHR ''='' \<notin> set k" and "CHR '','' \<notin> set key" and "CHR ''='' \<notin> set key"
  shows "strchr (key @ '','' @ k @ ''='' @ v) 0 CHR ''='' = Some (length key + length k + 1)"
    and "strchr (key @ '','' @ k @ ''='' @ v) 0 CHR '','' = Some (length key)"
  using strchr_found[of "CHR ''=''" "key @ '','' @ k" "[]" v] strchr_found[of "CHR '',''" key "[]" "k @ ''='' @ v"] assms
  by simp_all

lemma copy_backwards:
  assumes "n + 2 \<le> value" and "value < 2 ^ 62"
  shows "safe_copy_string alloc s value (Some n) h = Inl Null_Deref"
proof -
  obtain d where d: "value = n + 1 + d" "1 \<le> d" using assms(1) by (metis add_leD1 le_Suc_ex add_le_cancel_left nat_1_add_1 add.assoc)
  have u: "unat (word_of_nat d :: u64) = d" using d assms(2) by (simp add: unat_of_nat)
  have "copy_size s value (Some n) + 1 = - word_of_nat d" by (simp add: copy_size_def d(1))
  then have "unat (copy_size s value (Some n) + 1) = 2 ^ 64 - d"
    using unat_sub_if_size[of 0 "word_of_nat d :: u64"] u d(2) by (simp add: word_size)
  then show ?thesis using d assms(2) by (simp add: safe_copy_string_def Let_def)
qed

text \<open>
  C38: A key without a value takes the value of the next pair. After \<open>start,\<close> the flag is set from the
  next pair's value, so that any text there turns sampling at start-up off; after a valueless
  \<open>logPath\<close>, \<open>host\<close> or \<open>port\<close> the end of the value lies before its beginning, the size wraps round, and
  the copy writes to null.
\<close>

theorem valueless_key_misread:
  assumes "CHR ''='' \<notin> set k" and "length k < 2 ^ 61"
  shows "parseArguments alloc (Some (''start,'' @ k @ ''='' @ v)) (c, h) =
      parse_from alloc (''start,'' @ k @ ''='' @ v) 6 (c\<lparr>start := (atoi v \<noteq> 0)\<rparr>, h) \<and>
    (\<forall>key\<in>{''logPath'', ''host'', ''port''}.
      parseArguments alloc (Some (key @ '','' @ k @ ''='' @ v)) (c, h) = Inl Null_Deref)"
proof -
  have "parseArguments alloc (Some (''start,'' @ k @ ''='' @ v)) (c, h) =
      parse_from alloc (''start,'' @ k @ ''='' @ v) 6 (c\<lparr>start := (atoi v \<noteq> 0)\<rparr>, h)"
    using valueless_positions[OF assms(1), of "''start''" v]
    by (simp add: parseArguments_def parse_from.simps[of alloc _ 0] parse_option_def at_start_def Let_def eval_nat_numeral)
  moreover have "parseArguments alloc (Some (key @ '','' @ k @ ''='' @ v)) (c, h) = Inl Null_Deref"
    if "key \<in> {''logPath'', ''host'', ''port''}" for key
  proof -
    have ne: "CHR '','' \<notin> set key" "CHR ''='' \<notin> set key" "length key < 8" using that by auto
    have bad: "safe_copy_string alloc s (length key + length k + 2) (Some (length key)) h = Inl Null_Deref" for s
      using assms(2) ne(3) by (intro copy_backwards) auto
    let ?s = "key @ '','' @ k @ ''='' @ v"
    have "parse_option alloc ?s 0 (length key + length k + 1 + 1) (Some (length key)) (c, h) = Inl Null_Deref"
      using that bad[of ?s] by (elim insertE) (simp_all add: parse_option_def at_start_def eval_nat_numeral)
    then show ?thesis
      unfolding parseArguments_def option.case
      by (subst parse_from.simps) (simp add: valueless_positions[OF assms(1) ne(1,2)] del: append.simps)
  qed
  ultimately show ?thesis by blast
qed

theorem valueless_key_misread_witness:
  "parseArguments first_free (Some ''host,port=8080'') (new_configuration, []) = Inl Null_Deref \<and>
   (\<exists>c h. parseArguments first_free (Some ''start,maxFrames=x'') (new_configuration, []) = Inr (c, h) \<and> \<not> start c)"
proof -
  have x: "atoi ''x'' = 0" by code_simp
  have "parseArguments first_free (Some ''host,port=8080'') (new_configuration, []) = Inl Null_Deref"
    using valueless_key_misread[of "''port''" first_free "''8080''" new_configuration "[]"] by simp
  moreover have "parseArguments first_free (Some ''start,maxFrames=x'') (new_configuration, []) =
      parse_from first_free ''start,maxFrames=x'' 6 (new_configuration\<lparr>start := False\<rparr>, [])"
    using valueless_key_misread[of "''maxFrames''" first_free "''x''" new_configuration "[]"] x by simp
  moreover have "parse_from first_free ''start,maxFrames=x'' 6 (new_configuration\<lparr>start := False\<rparr>, []) =
      Inr (new_configuration\<lparr>start := False, maxFramesToCapture := 0\<rparr>, [])"
    by (subst parse_from.simps) (simp add: strchr_def parse_option_def at_start_def Let_def x)
  ultimately show ?thesis by simp
qed

end
