(* ===== verification/Byte_Stream.thy ===== *)
theory Byte_Stream
  imports Base
begin

text \<open>
  \<open>LogWriter::writeValue\<close> (\<^verbatim>\<open>log_writer.cpp\<close>): integers go to the log most significant byte
  first on every host. A value's image in memory depends on the host's byte order; the code tests
  the order once with \<open>isLittleEndian\<close> and reverses the image when needed. The order is an argument
  here, so that independence from it is a theorem. The readers are the inverse, used to state what
  a log means.
\<close>

definition le_bytes :: "nat \<Rightarrow> 'a::len word \<Rightarrow> byte list" where
  "le_bytes n w = map (\<lambda>i. ucast (drop_bit (8 * i) w)) [0..<n]"

definition memory_image :: "bool \<Rightarrow> nat \<Rightarrow> 'a::len word \<Rightarrow> byte list" where
  "memory_image little n w = (if little then le_bytes n w else rev (le_bytes n w))"

text \<open>\<open>short number = 0x1; return ((char *) &number)[0] == 1;\<close>\<close>

definition isLittleEndian :: "bool \<Rightarrow> bool" where
  "isLittleEndian little \<longleftrightarrow> memory_image little 2 (1 :: 16 word) ! 0 = 1"

definition writeValue :: "bool \<Rightarrow> nat \<Rightarrow> 'a::len word \<Rightarrow> byte list" where
  "writeValue little n w =
     (let data = memory_image little n w in
      if isLittleEndian little then map (\<lambda>i. data ! i) (rev [0..<n]) else data)"

lemma isLittleEndian_eq [simp]: "isLittleEndian little = little"
proof -
  have "le_bytes 2 (1 :: 16 word) = [1, 0]"
    by (simp add: le_bytes_def upt_rec)
  then show ?thesis by (simp add: isLittleEndian_def memory_image_def)
qed

lemma length_le_bytes [simp]: "length (le_bytes n w) = n"
  by (simp add: le_bytes_def)

lemma map_nth_rev: "map (\<lambda>i. xs ! i) (rev [0..<length xs]) = rev xs"
  by (simp add: rev_map map_nth flip: rev_map)

text \<open>The bytes do not depend on the host.\<close>

lemma writeValue_eq [bytes_simps]: "writeValue little n w = rev (le_bytes n w)"
  using map_nth_rev[of "le_bytes n w"] by (simp add: writeValue_def memory_image_def Let_def)

lemma length_writeValue [simp]: "length (writeValue little n w) = n"
  by (simp add: writeValue_eq)

subsection \<open>Reading back\<close>

fun from_le :: "byte list \<Rightarrow> 'a::len word" where
  "from_le [] = 0"
| "from_le (b # bs) = ucast b OR push_bit 8 (from_le bs)"

text \<open>\<open>read_word n bs\<close> takes an \<open>n\<close> byte integer off a byte list.\<close>

definition read_word :: "nat \<Rightarrow> byte list \<Rightarrow> ('a::len word \<times> byte list) option" where
  "read_word n bs = (if length bs < n then None else Some (from_le (rev (take n bs)), drop n bs))"

lemma bit_from_le:
  "bit (from_le bs :: 'a::len word) k \<longleftrightarrow>
     k < LENGTH('a) \<and> k < 8 * length bs \<and> bit (bs ! (k div 8)) (k mod 8)"
proof (induction bs arbitrary: k)
  case (Cons b bs)
  have step: "bit (from_le (b # bs) :: 'a word) k \<longleftrightarrow>
      k < LENGTH('a) \<and> bit b k \<or> 8 \<le> k \<and> k < LENGTH('a) \<and> bit (from_le bs :: 'a word) (k - 8)"
    by (simp add: bit_or_iff bit_push_bit_iff bit_unsigned_iff)
  show ?case
  proof (cases "k < 8")
    case True
    then have "k div 8 = 0" "k mod 8 = k" by simp_all
    with True show ?thesis unfolding step by auto
  next
    case False
    then obtain j where j: "k = j + 8" using le_Suc_ex[of 8 k] by (auto simp: add.commute)
    have "(j + 8) div 8 = Suc (j div 8)" "(j + 8) mod 8 = j mod 8" by simp_all
    moreover have "\<not> bit b k" using False bit_imp_le_length[of b k] by auto
    ultimately show ?thesis using step Cons.IH[of j] by (auto simp: j simp del: from_le.simps)
  qed
qed simp

lemma from_le_le_bytes:
  fixes w :: "'a::len word"
  assumes "LENGTH('a) \<le> 8 * n"
  shows "from_le (le_bytes n w) = w"
proof (rule bit_word_eqI)
  fix k assume k: "k < LENGTH('a)"
  then have "k div 8 < n" using assms by simp
  then have "bit (le_bytes n w ! (k div 8)) (k mod 8) = bit w k"
    by (simp add: le_bytes_def bit_simps)
  then show "bit (from_le (le_bytes n w) :: 'a word) k = bit w k"
    using k assms by (simp add: bit_from_le)
qed

lemma read_writeValue [simp]:
  fixes w :: "'a::len word"
  assumes "LENGTH('a) \<le> 8 * n"
  shows "read_word n (writeValue little n w @ rest) = Some (w, rest)"
  using from_le_le_bytes[OF assms, of w] by (simp add: read_word_def writeValue_eq)

end
