(* ===== verification/Log_Format.thy ===== *)
theory Log_Format
  imports Byte_Stream Stack_Traces
begin

text \<open>
  The records of a profile log (\<^verbatim>\<open>log_writer.h\<close>, \<^verbatim>\<open>log_writer.cpp\<close>): the four writers of
  \<open>LogWriter\<close> that put one record each, and a reader of the format, with the round trip
  between them. A stream is the list of the bytes written; strings are the bytes of a C string
  without its terminator.
\<close>

definition TRACE_START :: byte where "TRACE_START = 1"
definition FRAME_BCI_ONLY :: byte where "FRAME_BCI_ONLY = 2"
definition FRAME_FULL :: byte where "FRAME_FULL = 21"
definition NEW_METHOD :: byte where "NEW_METHOD = 3"

lemmas tag_defs = TRACE_START_def FRAME_BCI_ONLY_def FRAME_FULL_def NEW_METHOD_def

definition writeWithSize :: "bool \<Rightarrow> byte list \<Rightarrow> byte list" where
  "writeWithSize little v = writeValue little 4 (word_of_nat (length v) :: jint) @ v"

definition recordTraceStart :: "bool \<Rightarrow> jint \<Rightarrow> i64 \<Rightarrow> byte list" where
  "recordTraceStart little numFrames threadId =
     [TRACE_START] @ writeValue little 4 numFrames @ writeValue little 8 threadId"

definition recordFrame :: "bool \<Rightarrow> jint \<Rightarrow> jint \<Rightarrow> i64 \<Rightarrow> byte list" where
  "recordFrame little bci lineNumber methodId =
     [FRAME_FULL] @ writeValue little 4 bci @ writeValue little 4 lineNumber @ writeValue little 8 methodId"

definition recordFrame_bci :: "bool \<Rightarrow> jint \<Rightarrow> i64 \<Rightarrow> byte list" where
  "recordFrame_bci little bci methodId =
     [FRAME_BCI_ONLY] @ writeValue little 4 bci @ writeValue little 8 methodId"

definition recordNewMethod :: "bool \<Rightarrow> i64 \<Rightarrow> byte list \<Rightarrow> byte list \<Rightarrow> byte list \<Rightarrow> byte list" where
  "recordNewMethod little methodId fileName className methodName =
     [NEW_METHOD] @ writeValue little 8 methodId @ writeWithSize little fileName @
     writeWithSize little className @ writeWithSize little methodName"

subsection \<open>What a log says\<close>

datatype log_event =
    Trace_Start jint i64
  | Frame_Full jint jint i64
  | Frame_Bci jint i64
  | New_Method i64 "byte list" "byte list" "byte list"

fun encode :: "bool \<Rightarrow> log_event \<Rightarrow> byte list" where
  "encode little (Trace_Start n t) = recordTraceStart little n t"
| "encode little (Frame_Full b l m) = recordFrame little b l m"
| "encode little (Frame_Bci b m) = recordFrame_bci little b m"
| "encode little (New_Method m f c n) = recordNewMethod little m f c n"

definition bind_read :: "('a \<times> byte list) option \<Rightarrow> ('a \<Rightarrow> byte list \<Rightarrow> 'b option) \<Rightarrow> 'b option" where
  "bind_read r f = (case r of None \<Rightarrow> None | Some (x, rest) \<Rightarrow> f x rest)"

lemma bind_read_simps [simp]: "bind_read (Some (x, rest)) f = f x rest" "bind_read None f = None"
  by (simp_all add: bind_read_def)

definition read_sized :: "byte list \<Rightarrow> (byte list \<times> byte list) option" where
  "read_sized bs = bind_read (read_word 4 bs) (\<lambda>(n :: jint) rest.
     if sint n < 0 \<or> length rest < nat (sint n) then None
     else Some (take (nat (sint n)) rest, drop (nat (sint n)) rest))"

fun decode :: "byte list \<Rightarrow> (log_event \<times> byte list) option" where
  "decode [] = None"
| "decode (tag # bs) =
     (if tag = TRACE_START then
        bind_read (read_word 4 bs) (\<lambda>n bs. bind_read (read_word 8 bs) (\<lambda>t bs. Some (Trace_Start n t, bs)))
      else if tag = FRAME_FULL then
        bind_read (read_word 4 bs) (\<lambda>b bs. bind_read (read_word 4 bs) (\<lambda>l bs.
          bind_read (read_word 8 bs) (\<lambda>m bs. Some (Frame_Full b l m, bs))))
      else if tag = FRAME_BCI_ONLY then
        bind_read (read_word 4 bs) (\<lambda>b bs. bind_read (read_word 8 bs) (\<lambda>m bs. Some (Frame_Bci b m, bs)))
      else if tag = NEW_METHOD then
        bind_read (read_word 8 bs) (\<lambda>m bs. bind_read (read_sized bs) (\<lambda>f bs.
          bind_read (read_sized bs) (\<lambda>c bs. bind_read (read_sized bs) (\<lambda>n bs.
            Some (New_Method m f c n, bs)))))
      else None)"

text \<open>A whole log: records until the input is used up; every record consumes at least a byte.\<close>

fun decode_all :: "nat \<Rightarrow> byte list \<Rightarrow> log_event list option" where
  "decode_all fuel [] = Some []"
| "decode_all 0 (b # bs) = None"
| "decode_all (Suc fuel) (b # bs) =
     (case decode (b # bs) of
        None \<Rightarrow> None
      | Some (e, rest) \<Rightarrow> map_option (\<lambda>es. e # es) (decode_all fuel rest))"

definition parse_log :: "byte list \<Rightarrow> log_event list option" where
  "parse_log bs = decode_all (length bs) bs"

text \<open>A string that fits its 32 bit length field.\<close>

definition short_string :: "byte list \<Rightarrow> bool" where
  "short_string v \<longleftrightarrow> length v < 2 ^ 31"

fun short_event :: "log_event \<Rightarrow> bool" where
  "short_event (New_Method m f c n) = (short_string f \<and> short_string c \<and> short_string n)"
| "short_event _ = True"

lemma sint_length: "short_string v \<Longrightarrow> sint (word_of_nat (length v) :: jint) = int (length v)"
  unfolding short_string_def
  by (simp add: signed_of_nat signed_take_bit_int_eq_self)

lemma read_sized_writeWithSize [simp]:
  "short_string v \<Longrightarrow> read_sized (writeWithSize little v @ rest) = Some (v, rest)"
  using sint_length[of v] by (simp add: read_sized_def writeWithSize_def)

lemma decode_encode: "short_event e \<Longrightarrow> decode (encode little e @ rest) = Some (e, rest)"
  by (cases e)
    (simp_all add: tag_defs recordTraceStart_def recordFrame_def recordFrame_bci_def recordNewMethod_def)

lemma encode_nonempty: "encode little e \<noteq> []"
  by (cases e) (simp_all add: recordTraceStart_def recordFrame_def recordFrame_bci_def recordNewMethod_def)

lemma length_encode_pos: "0 < length (encode little e)"
  using encode_nonempty[of little e] by simp

lemma decode_all_encode:
  "\<forall>e\<in>set es. short_event e \<Longrightarrow> length (concat (map (encode little) es)) \<le> fuel \<Longrightarrow>
   decode_all fuel (concat (map (encode little) es)) = Some es"
proof (induction es arbitrary: fuel)
  case (Cons e es)
  let ?rest = "concat (map (encode little) es)"
  obtain b bs where b: "encode little e = b # bs" using encode_nonempty[of little e] by (cases "encode little e") auto
  obtain f where f: "fuel = Suc f" using Cons.prems(2) b by (cases fuel) auto
  have "decode ((b # bs) @ ?rest) = Some (e, ?rest)"
    using decode_encode[of e little ?rest] Cons.prems(1) b by simp
  moreover have "decode_all f ?rest = Some es" using Cons.prems b f by (intro Cons.IH) auto
  ultimately show ?case by (simp add: b f del: decode.simps)
qed simp

end
