(* ===== verification/Line_Lookup.thy ===== *)
theory Line_Lookup
  imports Base
begin

text \<open>
  \<open>bci2line\<close> and \<open>getLineNo\<close> of \<^verbatim>\<open>log_writer.cpp\<close>: from a bytecode index to a source
  line through a method's line number table, by bisection and then a scan. The table comes from
  \<open>GetLineNumberTable\<close> of JVMTI, which is not part of the repository; it is an argument.
\<close>

record line_entry =
  start_location :: i64
  line_number :: jint

text \<open>A comparison of a \<open>jint\<close> with a \<open>jlocation\<close> is one of 64 bit signed integers.\<close>

definition loc :: "line_entry \<Rightarrow> int" where
  "loc e = sint (start_location e)"

datatype search = Found jint | Start_At nat

text \<open>\<open>while (half > 0)\<close>, with the table accesses checked.\<close>

fun bisect :: "int \<Rightarrow> line_entry list \<Rightarrow> nat \<Rightarrow> nat \<Rightarrow> search result" where
  "bisect bci table half start_index =
     (if half > 0
      then if start_index + half < length table
           then let e = table ! (start_index + half) in
                if bci > loc e then bisect bci table (half div 2) (start_index + half)
                else if bci = loc e then Inr (Found (line_number e))
                else bisect bci table (half div 2) start_index
           else Inl Out_Of_Bounds
      else Inr (Start_At start_index))"

declare bisect.simps [simp del]

text \<open>The scan: \<open>for (int i = start_index; i < entry_count; i++)\<close>.\<close>

fun scan :: "int \<Rightarrow> line_entry list \<Rightarrow> jint \<Rightarrow> jint" where
  "scan bci [] line = line"
| "scan bci (e # es) line =
     (if bci < loc e then line
      else if bci = loc e then line_number e
      else scan bci es (line_number e))"

definition bci2line :: "jint \<Rightarrow> line_entry list \<Rightarrow> jint result" where
  "bci2line bci table =
     (if length table = 0 then Inr (-101)
      else and_then (bisect (sint bci) table (length table div 2) 0) (\<lambda>r.
        case r of
          Found l \<Rightarrow> Inr l
        | Start_At i \<Rightarrow> Inr (scan (sint bci) (drop i table) (-102))))"

text \<open>\<open>None\<close> stands for an error of \<open>GetLineNumberTable\<close>.\<close>

definition getLineNo :: "('m \<Rightarrow> line_entry list option) \<Rightarrow> jint \<Rightarrow> 'm \<Rightarrow> jint result" where
  "getLineNo GetLineNumberTable bci methodId =
     (if sint bci \<le> 0 then Inr bci
      else case GetLineNumberTable methodId of
             None \<Rightarrow> Inr (-100)
           | Some table \<Rightarrow> bci2line bci table)"

subsection \<open>The bisection\<close>

text \<open>
  The bisection never leaves the table, and it stops at an index below which every entry starts
  before the bytecode index, or at an entry that starts exactly there.
\<close>

definition ascending :: "line_entry list \<Rightarrow> bool" where
  "ascending table \<longleftrightarrow> sorted_wrt (\<lambda>a b. loc a < loc b) table"

lemma bisect_stop [simp]: "bisect bci table 0 start = Inr (Start_At start)"
  by (simp add: bisect.simps)

lemma bisect_step:
  assumes "0 < half" and "start + half < length table"
  shows "loc (table ! (start + half)) < bci \<Longrightarrow>
      bisect bci table half start = bisect bci table (half div 2) (start + half)"
    and "loc (table ! (start + half)) = bci \<Longrightarrow>
      bisect bci table half start = Inr (Found (line_number (table ! (start + half))))"
    and "bci < loc (table ! (start + half)) \<Longrightarrow>
      bisect bci table half start = bisect bci table (half div 2) start"
  using assms by (simp_all add: bisect.simps[of bci table half start] Let_def)

lemma bisect_in_bounds:
  "start + 2 * half \<le> length table \<Longrightarrow>
   \<exists>r. bisect bci table half start = Inr r \<and> (\<forall>i. r = Start_At i \<longrightarrow> i < length table \<or> i = start)"
proof (induction bci table half start rule: bisect.induct)
  case (1 bci table half start)
  show ?case
  proof (cases "half > 0")
    case True
    then have i: "start + half < length table" using "1.prems" by simp
    let ?e = "table ! (start + half)"
    note st = bisect_step[OF True i]
    consider (right) "loc ?e < bci" | (exact) "loc ?e = bci" | (left) "bci < loc ?e" by linarith
    then show ?thesis
    proof cases
      case right
      have "\<exists>r. bisect bci table (half div 2) (start + half) = Inr r \<and>
          (\<forall>i. r = Start_At i \<longrightarrow> i < length table \<or> i = start + half)"
        using right True i "1.prems" by (intro "1.IH"(1)) auto
      then show ?thesis using st(1)[OF right] i by auto
    next
      case exact
      then show ?thesis using st(2)[OF exact] by simp
    next
      case left
      have "\<exists>r. bisect bci table (half div 2) start = Inr r \<and>
          (\<forall>i. r = Start_At i \<longrightarrow> i < length table \<or> i = start)"
        using left True i "1.prems" by (intro "1.IH"(2)) auto
      then show ?thesis using st(3)[OF left] by simp
    qed
  next
    case False
    then show ?thesis by simp
  qed
qed

text \<open>All entries that start at or before the index, for an ascending table a prefix of it.\<close>

definition covering :: "int \<Rightarrow> line_entry list \<Rightarrow> line_entry list" where
  "covering bci table = filter (\<lambda>e. loc e \<le> bci) table"

definition spec_line :: "int \<Rightarrow> line_entry list \<Rightarrow> jint \<Rightarrow> jint" where
  "spec_line bci table line = (if covering bci table = [] then line else line_number (last (covering bci table)))"

lemma ascending_Cons [simp]:
  "ascending (e # es) \<longleftrightarrow> (\<forall>x\<in>set es. loc e < loc x) \<and> ascending es"
  by (auto simp: ascending_def)

lemma covering_none: "\<forall>x\<in>set es. bci < loc x \<Longrightarrow> covering bci es = []"
  by (auto simp: covering_def filter_empty_conv)

lemma scan_spec: "ascending table \<Longrightarrow> scan bci table line = spec_line bci table line"
proof (induction table arbitrary: line)
  case (Cons e es)
  show ?case
  proof (cases "loc e < bci")
    case True
    then show ?thesis using Cons by (auto simp: spec_line_def covering_def)
  next
    case False
    then have "covering bci es = []" using Cons.prems by (intro covering_none) auto
    then show ?thesis using False by (auto simp: spec_line_def covering_def)
  qed
qed (simp add: spec_line_def covering_def)

lemma ascending_nth_less:
  "ascending table \<Longrightarrow> i < j \<Longrightarrow> j < length table \<Longrightarrow> loc (table ! i) < loc (table ! j)"
  unfolding ascending_def by (rule sorted_wrt_nth_less)

lemma covering_split:
  assumes "ascending table" and "i < length table" and "loc (table ! i) \<le> bci"
  shows "covering bci table = take i table @ covering bci (drop i table)"
proof -
  have "filter (\<lambda>e. loc e \<le> bci) (take i table) = take i table"
  proof (rule filter_True, rule ballI)
    fix e assume "e \<in> set (take i table)"
    then obtain j where "j < i" "e = table ! j" by (auto simp: in_set_conv_nth)
    then show "loc e \<le> bci" using ascending_nth_less[OF assms(1), of j i] assms(2,3) by simp
  qed
  then show ?thesis
    unfolding covering_def by (metis append_take_drop_id filter_append)
qed

lemma spec_line_drop:
  assumes "ascending table" and "i < length table" and "loc (table ! i) \<le> bci"
  shows "spec_line bci (drop i table) l = spec_line bci table l'"
proof -
  have "drop i table = table ! i # drop (Suc i) table" using assms(2) by (simp add: Cons_nth_drop_Suc)
  then have "covering bci (drop i table) \<noteq> []" using assms(3) by (simp add: covering_def)
  then show ?thesis using covering_split[OF assms] by (simp add: spec_line_def)
qed

lemma spec_line_exact:
  assumes "ascending table" and "i < length table" and "loc (table ! i) = bci"
  shows "spec_line bci table l = line_number (table ! i)"
proof -
  have d: "drop i table = table ! i # drop (Suc i) table" using assms(2) by (simp add: Cons_nth_drop_Suc)
  have "bci < loc x" if x: "x \<in> set (drop (Suc i) table)" for x
  proof -
    obtain j where "j < length (drop (Suc i) table)" "x = drop (Suc i) table ! j"
      using x unfolding in_set_conv_nth by blast
    then show ?thesis using ascending_nth_less[OF assms(1), of i "Suc i + j"] assms(3) by simp
  qed
  then have "covering bci (drop (Suc i) table) = []" by (intro covering_none) auto
  then have "covering bci (drop i table) = [table ! i]" using assms(3) d by (simp add: covering_def)
  moreover have "covering bci table = take i table @ covering bci (drop i table)"
    using assms by (intro covering_split) auto
  ultimately show ?thesis by (simp add: spec_line_def)
qed

lemma bisect_spec:
  assumes "ascending table"
  shows "start = 0 \<or> start < length table \<and> loc (table ! start) \<le> bci \<Longrightarrow> bisect bci table half start = Inr r \<Longrightarrow>
    (case r of Found l \<Rightarrow> l = spec_line bci table (-102)
     | Start_At i \<Rightarrow> i = 0 \<or> i < length table \<and> loc (table ! i) \<le> bci)"
  using assms
proof (induction bci table half start rule: bisect.induct)
  case (1 bci table half start)
  show ?case
  proof (cases "half > 0 \<and> start + half < length table")
    case True
    let ?e = "table ! (start + half)"
    note st = bisect_step[OF conjunct1[OF True] conjunct2[OF True]]
    consider (right) "loc ?e < bci" | (exact) "loc ?e = bci" | (left) "bci < loc ?e" by linarith
    then show ?thesis
    proof cases
      case right
      then show ?thesis using "1.IH"(1)[of ?e] right "1.prems" True st(1)[OF right] by simp
    next
      case exact
      then show ?thesis using "1.prems" True spec_line_exact[of table "start + half" bci] st(2)[OF exact] exact by auto
    next
      case left
      then show ?thesis using "1.IH"(2)[of ?e] left "1.prems" True st(3)[OF left] by simp
    qed
  next
    case False
    then show ?thesis
      using "1.prems" by (cases "half = 0") (auto simp: bisect.simps[of bci table half start])
  qed
qed

text \<open>On any table, sorted or not, the lookup stays in bounds.\<close>

lemma bci2line_total: "\<exists>l. bci2line bci table = Inr l"
proof (cases "table = []")
  case False
  obtain r where "bisect (sint bci) table (length table div 2) 0 = Inr r"
    using bisect_in_bounds[of 0 "length table div 2" table "sint bci"] by auto
  then show ?thesis by (cases r) (simp_all add: bci2line_def False)
qed (simp add: bci2line_def)

lemma bci2line_spec:
  assumes "ascending table" and "table \<noteq> []"
  shows "bci2line bci table = Inr (spec_line (sint bci) table (-102))"
proof -
  obtain r where r: "bisect (sint bci) table (length table div 2) 0 = Inr r"
    using bisect_in_bounds[of 0 "length table div 2" table "sint bci"] by auto
  note s = bisect_spec[OF assms(1) _ r]
  show ?thesis
  proof (cases r)
    case (Found l)
    then show ?thesis using s r assms(2) by (simp add: bci2line_def)
  next
    case (Start_At i)
    have "ascending (drop i table)" using assms(1) by (simp add: ascending_def sorted_wrt_drop)
    moreover have "spec_line (sint bci) (drop i table) (-102) = spec_line (sint bci) table (-102)"
      using s Start_At spec_line_drop[OF assms(1), of i] by auto
    ultimately show ?thesis using r assms(2) Start_At by (simp add: bci2line_def scan_spec)
  qed
qed

lemma getLineNo_total: "\<exists>l. getLineNo G bci m = Inr l"
  using bci2line_total by (simp add: getLineNo_def split: option.split)

text \<open>
  The bisection and the scan of \<open>bci2line\<close> stay inside the line number table for every table,
  sorted or not, and every bytecode index: the lookup returns a line, never an out of bounds read.
\<close>

theorem line_lookup_in_bounds: "\<exists>l. getLineNo G bci m = Inr l"
  by (rule getLineNo_total)


definition example_table :: "line_entry list" where
  "example_table = [\<lparr>start_location = 0, line_number = 10\<rparr>, \<lparr>start_location = 4, line_number = 11\<rparr>,
     \<lparr>start_location = 9, line_number = 12\<rparr>]"


end
