(* ===== verification/Thread_Bucket.thy ===== *)
theory Thread_Bucket
  imports Base
begin

text \<open>
  \<open>struct ThreadBucket\<close> of \<^verbatim>\<open>thread_map.h\<close>: a thread's description, shared by the thread map
  and the samples in the trace queue, and freed by the last \<open>release\<close>. Buckets live in a heap, a
  partial map from addresses; a dereference outside its domain is a use after free.
\<close>

record thread_bucket =
  tid :: jint
  name :: "byte list"
  refs :: int
  localEpoch :: u32

type_synonym bucket_heap = "addr \<rightharpoonup> thread_bucket"

definition deref :: "bucket_heap \<Rightarrow> addr \<Rightarrow> thread_bucket result" where
  "deref h a = (case h a of None \<Rightarrow> Inl Use_After_Free | Some b \<Rightarrow> Inr b)"

text \<open>\<open>release\<close>: \<open>refs.fetch_sub(1)\<close>, and \<open>delete this\<close> when the count was one.\<close>

definition release :: "addr \<Rightarrow> bucket_heap \<Rightarrow> bucket_heap result" where
  "release a h = and_then (deref h a) (\<lambda>b.
     let prev = refs b in
     if prev = 1 then Inr (h(a := None)) else Inr (h(a \<mapsto> b\<lparr>refs := prev - 1\<rparr>)))"

text \<open>\<open>acq_bucket\<close>: take a reference unless the count had already dropped to zero.\<close>

definition acq_bucket :: "addr option \<Rightarrow> bucket_heap \<Rightarrow> (addr option \<times> bucket_heap) result" where
  "acq_bucket tb h =
     (case tb of
        None \<Rightarrow> Inr (None, h)
      | Some a \<Rightarrow> and_then (deref h a) (\<lambda>b.
          let prev = refs b; h1 = h(a \<mapsto> b\<lparr>refs := prev + 1\<rparr>) in
          if prev > 0 then Inr (Some a, h1)
          else Inr (None, h1(a \<mapsto> b\<lparr>refs := prev + 1 - 1\<rparr>))))"

lemma deref_eq_Inr [simp]: "deref h a = Inr b \<longleftrightarrow> h a = Some b"
  by (simp add: deref_def split: option.splits)

lemma deref_Some [simp]: "h a = Some b \<Longrightarrow> deref h a = Inr b"
  by simp

lemma release_last: "h a = Some b \<Longrightarrow> refs b = 1 \<Longrightarrow> release a h = Inr (h(a := None))"
  by (simp add: release_def deref_def)

lemma release_shared:
  "h a = Some b \<Longrightarrow> refs b \<noteq> 1 \<Longrightarrow> release a h = Inr (h(a \<mapsto> b\<lparr>refs := refs b - 1\<rparr>))"
  by (simp add: release_def deref_def)

lemma release_ok_iff: "(\<exists>h'. release a h = Inr h') \<longleftrightarrow> a \<in> dom h"
  by (cases "h a") (auto simp: release_def deref_def Let_def)

lemma release_other: "release a h = Inr h' \<Longrightarrow> b \<noteq> a \<Longrightarrow> h' b = h b"
  by (cases "h a") (auto simp: release_def deref_def Let_def split: if_splits)

lemma acq_release:
  assumes "h a = Some b" and "0 < refs b"
  shows "\<exists>h'. acq_bucket (Some a) h = Inr (Some a, h') \<and> h' a = Some (b\<lparr>refs := refs b + 1\<rparr>) \<and>
    release a h' = Inr h"
proof -
  let ?h = "h(a \<mapsto> b\<lparr>refs := refs b + 1\<rparr>)"
  have "acq_bucket (Some a) h = Inr (Some a, ?h)" using assms by (simp add: acq_bucket_def deref_def)
  moreover have "release a ?h = Inr h"
    using release_shared[of ?h a "b\<lparr>refs := refs b + 1\<rparr>"] assms by (simp add: fun_upd_idem)
  ultimately show ?thesis by simp
qed

end
