(* ===== verification/Log_Writer.thy ===== *)
theory Log_Writer
  imports Log_Format Line_Lookup Thread_Bucket Queue_Interface
begin

text \<open>
  \<open>LogWriter\<close> (\<^verbatim>\<open>log_writer.cpp\<close>) and \<open>Profiler::lookupFrameInformation\<close>
  (\<^verbatim>\<open>profiler.cpp\<close>): a sample popped off the queue becomes log records, every method is
  described the first time it is met, and the sample's reference to its thread bucket is dropped.

  The JVM is not part of the repository. Its JVMTI functions are the fields of \<open>jvmti\<close>, given as
  they are documented: a result or an error code.
\<close>

record jvmti =
  GetLineNumberTable :: "u64 \<Rightarrow> line_entry list option"
  GetMethodName :: "u64 \<Rightarrow> jint + byte list"
  GetMethodDeclaringClass :: "u64 \<Rightarrow> jint + nat"
  GetClassSignature :: "nat \<Rightarrow> jint + byte list"
  GetSourceFileName :: "nat \<Rightarrow> jint + byte list"

text \<open>The stream \<open>output_\<close>, the set \<open>knownMethods\<close>, and the byte order of the host.\<close>

record log_writer =
  out :: "byte list"
  knownMethods :: "u64 set"
  little :: bool

definition new_log_writer :: "bool \<Rightarrow> log_writer" where
  "new_log_writer le = \<lparr>out = [], knownMethods = {}, little = le\<rparr>"

definition put :: "byte list \<Rightarrow> log_writer \<Rightarrow> log_writer" where
  "put bs w = w\<lparr>out := out w @ bs\<rparr>"

text \<open>\<open>"UnknownFile"\<close>, as bytes.\<close>

definition file_unknown :: "byte list" where
  "file_unknown = map of_char ''UnknownFile''"

definition lookupFrameInformation :: "jvmti \<Rightarrow> call_frame \<Rightarrow> log_writer \<Rightarrow> bool \<times> log_writer" where
  "lookupFrameInformation J frame w =
     (case GetMethodName J (method_id frame) of
        Inl e \<Rightarrow> (False, w)
      | Inr methodName \<Rightarrow>
     (case GetMethodDeclaringClass J (method_id frame) of
        Inl e \<Rightarrow> (False, w)
      | Inr declaring_class \<Rightarrow>
     (case GetClassSignature J declaring_class of
        Inl e \<Rightarrow> (False, w)
      | Inr signature \<Rightarrow>
          let fileName = (case GetSourceFileName J declaring_class of
                            Inl e \<Rightarrow> file_unknown
                          | Inr source_name \<Rightarrow> source_name) in
          (True, put (recordNewMethod (little w) (method_id frame) fileName signature methodName) w))))"

definition inspectMethod :: "jvmti \<Rightarrow> u64 \<Rightarrow> call_frame \<Rightarrow> log_writer \<Rightarrow> log_writer" where
  "inspectMethod J methodId frame w =
     (if methodId \<in> knownMethods w then w
      else snd (lookupFrameInformation J frame (w\<lparr>knownMethods := insert methodId (knownMethods w)\<rparr>)))"

text \<open>The body of the loop of \<open>record\<close>, and the loop over \<open>trace.frames[i]\<close>.\<close>

definition record_one :: "jvmti \<Rightarrow> call_frame \<Rightarrow> log_writer \<Rightarrow> log_writer result" where
  "record_one J frame w =
     (let methodId = method_id frame; bci = lineno frame in
      and_then
        (if sint bci > 0
         then and_then (getLineNo (GetLineNumberTable J) bci methodId) (\<lambda>line.
           Inr (put (recordFrame (little w) bci line methodId) w))
         else Inr (put (recordFrame_bci (little w) bci methodId) w))
        (\<lambda>w1. Inr (inspectMethod J methodId frame w1)))"

fun record_frames :: "jvmti \<Rightarrow> call_frame list \<Rightarrow> nat \<Rightarrow> nat \<Rightarrow> log_writer \<Rightarrow> log_writer result" where
  "record_frames J fs i 0 w = Inr w"
| "record_frames J fs i (Suc todo) w =
     (if i < length fs then and_then (record_one J (fs ! i) w) (record_frames J fs (Suc i) todo)
      else Inl Out_Of_Bounds)"

text \<open>
  \<open>record\<close>. The thread id is the bucket's \<open>tid\<close>, widened with its sign, or the
  \<open>JNIEnv\<close> address when there is no bucket.
\<close>

definition record_trace :: "jvmti \<Rightarrow> call_frame list call_trace \<Rightarrow> addr option \<Rightarrow>
    log_writer \<times> bucket_heap \<Rightarrow> (log_writer \<times> bucket_heap) result" where
  "record_trace J t tb = (\<lambda>(w, h).
     and_then (case tb of
                 None \<Rightarrow> Inr (env_id t)
               | Some a \<Rightarrow> and_then (deref h a) (\<lambda>b. Inr (scast (tid b)))) (\<lambda>threadId.
     and_then (record_frames J (frames t) 0 (frame_count t)
                 (put (recordTraceStart (little w) (num_frames t) threadId) w)) (\<lambda>w1.
     and_then (case tb of None \<Rightarrow> Inr h | Some a \<Rightarrow> release a h) (\<lambda>h1. Inr (w1, h1)))))"

subsection \<open>The records a sample stands for\<close>

definition line_of :: "jvmti \<Rightarrow> jint \<Rightarrow> u64 \<Rightarrow> jint" where
  "line_of J bci m = (case getLineNo (GetLineNumberTable J) bci m of Inl e \<Rightarrow> 0 | Inr l \<Rightarrow> l)"

lemma getLineNo_line_of [simp]: "getLineNo (GetLineNumberTable J) bci m = Inr (line_of J bci m)"
  using getLineNo_total[of "GetLineNumberTable J" bci m] by (auto simp: line_of_def)

definition frame_event :: "jvmti \<Rightarrow> call_frame \<Rightarrow> log_event" where
  "frame_event J f = (if sint (lineno f) > 0
     then Frame_Full (lineno f) (line_of J (lineno f) (method_id f)) (method_id f)
     else Frame_Bci (lineno f) (method_id f))"

definition method_events :: "jvmti \<Rightarrow> u64 \<Rightarrow> log_event list" where
  "method_events J m =
     (case (GetMethodName J m, GetMethodDeclaringClass J m) of
        (Inr n, Inr c) \<Rightarrow>
          (case GetClassSignature J c of
             Inl e \<Rightarrow> []
           | Inr s \<Rightarrow> [New_Method m (case GetSourceFileName J c of Inl e \<Rightarrow> file_unknown | Inr f \<Rightarrow> f) s n])
      | _ \<Rightarrow> [])"

fun frames_events :: "jvmti \<Rightarrow> u64 set \<Rightarrow> call_frame list \<Rightarrow> log_event list" where
  "frames_events J known [] = []"
| "frames_events J known (f # fs) =
     frame_event J f # (if method_id f \<in> known then [] else method_events J (method_id f)) @
     frames_events J (insert (method_id f) known) fs"

definition sample_events :: "jvmti \<Rightarrow> u64 set \<Rightarrow> i64 \<Rightarrow> sample \<Rightarrow> log_event list" where
  "sample_events J known threadId = (\<lambda>(env, n, fs). Trace_Start n threadId # frames_events J known fs)"

definition log :: "bool \<Rightarrow> log_event list \<Rightarrow> byte list" where
  "log le es = concat (map (encode le) es)"

lemma log_simps [simp]: "log le [] = []" "log le (e # es) = encode le e @ log le es"
  "log le (es @ fs) = log le es @ log le fs"
  by (simp_all add: log_def)

lemma put_simps [simp]: "out (put bs w) = out w @ bs" "knownMethods (put bs w) = knownMethods w"
  "little (put bs w) = little w"
  by (simp_all add: put_def)

lemma inspectMethod_effect:
  "inspectMethod J (method_id f) f w =
     (put (log (little w) (if method_id f \<in> knownMethods w then [] else method_events J (method_id f))) w)
       \<lparr>knownMethods := insert (method_id f) (knownMethods w)\<rparr>"
  by (auto simp: inspectMethod_def lookupFrameInformation_def method_events_def put_def insert_absorb
      Let_def split: sum.splits)

lemma record_one_effect:
  "record_one J f w = Inr ((put (log (little w) (frame_event J f #
       (if method_id f \<in> knownMethods w then [] else method_events J (method_id f)))) w)
       \<lparr>knownMethods := insert (method_id f) (knownMethods w)\<rparr>)"
  by (simp add: record_one_def Let_def inspectMethod_effect frame_event_def put_def)

lemma record_frames_effect:
  "i + todo \<le> length fs \<Longrightarrow> record_frames J fs i todo w =
     Inr ((put (log (little w) (frames_events J (knownMethods w) (take todo (drop i fs)))) w)
       \<lparr>knownMethods := knownMethods w \<union> method_id ` set (take todo (drop i fs))\<rparr>)"
proof (induction todo arbitrary: i w)
  case 0
  then show ?case by (simp add: put_def)
next
  case (Suc todo)
  have "drop i fs = fs ! i # drop (Suc i) fs" using Suc.prems by (simp add: Cons_nth_drop_Suc)
  then show ?case using Suc.prems by (simp add: record_one_effect Suc.IH put_def)
qed

lemma record_frames_overrun:
  "length fs < i + todo \<Longrightarrow> i \<le> length fs \<Longrightarrow> record_frames J fs i todo w = Inl Out_Of_Bounds"
  by (induction todo arbitrary: i w) (auto simp: record_one_effect)

subsection \<open>The writer as the queue's listener\<close>

text \<open>The effect of a record depends only on what a sample shows.\<close>

definition record_sample :: "jvmti \<Rightarrow> sample \<times> addr option \<Rightarrow>
    log_writer \<times> bucket_heap \<Rightarrow> (log_writer \<times> bucket_heap) result" where
  "record_sample J = (\<lambda>((env, n, fs), tb). record_trace J \<lparr>env_id = env, num_frames = n, frames = fs\<rparr> tb)"

lemma record_frames_view:
  "record_frames J (take n fs) 0 n w = record_frames J fs 0 n w"
  by (cases "n \<le> length fs") (simp_all add: record_frames_effect record_frames_overrun)

lemma record_trace_view: "record_trace J t tb s = record_sample J (view t, tb) s"
proof -
  have "frame_count \<lparr>env_id = env_id t, num_frames = num_frames t, frames = take (frame_count t) (frames t)\<rparr>
      = frame_count t"
    by (simp add: frame_count_def)
  then show ?thesis
    by (cases s; cases tb) (simp_all add: record_sample_def view_def record_trace_def record_frames_view)
qed

text \<open>The thread a sample is attributed to.\<close>

definition thread_of :: "bucket_heap \<Rightarrow> sample \<times> addr option \<Rightarrow> i64" where
  "thread_of h = (\<lambda>((env, n, fs), tb). case tb of None \<Rightarrow> env | Some a \<Rightarrow>
     (case h a of None \<Rightarrow> 0 | Some b \<Rightarrow> scast (tid b)))"

definition drop_ref :: "addr option \<Rightarrow> bucket_heap \<Rightarrow> bucket_heap" where
  "drop_ref tb h = (case tb of None \<Rightarrow> h | Some a \<Rightarrow> (case release a h of Inl e \<Rightarrow> h | Inr h' \<Rightarrow> h'))"

definition complete_sample :: "sample \<Rightarrow> bool" where
  "complete_sample = (\<lambda>(env, n, fs). length fs = nat (sint n))"

lemma record_sample_effect:
  assumes "complete_sample x" and "\<And>a. tb = Some a \<Longrightarrow> a \<in> dom h"
  shows "record_sample J (x, tb) (w, h) =
    Inr ((put (log (little w) (sample_events J (knownMethods w) (thread_of h (x, tb)) x)) w)
        \<lparr>knownMethods := knownMethods w \<union> method_id ` set (snd (snd x))\<rparr>, drop_ref tb h)"
proof -
  obtain env n fs where x: "x = (env, n, fs)" by (cases x)
  let ?t = "\<lparr>env_id = env, num_frames = n, frames = fs\<rparr>"
  have len: "frame_count ?t = length fs" using assms(1) by (simp add: x complete_sample_def frame_count_def)
  show ?thesis
  proof (cases tb)
    case None
    then show ?thesis
      by (simp add: record_sample_def record_trace_def x len record_frames_effect sample_events_def
          thread_of_def drop_ref_def put_def)
  next
    case (Some a)
    then obtain b where b: "h a = Some b" using assms(2) by auto
    obtain h' where "release a h = Inr h'" using release_ok_iff[of a h] b by blast
    then show ?thesis
      using b by (simp add: record_sample_def record_trace_def x len record_frames_effect sample_events_def
          thread_of_def drop_ref_def put_def Some)
  qed
qed

text \<open>\<open>LogWriter\<close> keeps the contract of \<open>QueueListener\<close>.\<close>

interpretation writer: queue_listener sample_of "record_trace J" "record_sample J" for J
  by unfold_locales (simp add: sample_of_def record_trace_view)

subsection \<open>A session of the writer\<close>

text \<open>Samples delivered one after the other, each attributed to the thread its bucket names.\<close>

fun session_events :: "jvmti \<Rightarrow> u64 set \<Rightarrow> bucket_heap \<Rightarrow> (sample \<times> addr option) list \<Rightarrow> log_event list" where
  "session_events J known h [] = []"
| "session_events J known h (x # xs) =
     sample_events J known (thread_of h x) (fst x) @
     session_events J (known \<union> method_id ` set (snd (snd (fst x)))) h xs"

text \<open>Every reference a waiting sample holds is counted.\<close>

definition enough_refs :: "bucket_heap \<Rightarrow> (sample \<times> addr option) list \<Rightarrow> bool" where
  "enough_refs h xs \<longleftrightarrow> (\<forall>a. Some a \<in> snd ` set xs \<longrightarrow>
     (\<exists>b. h a = Some b \<and> int (count_list (map snd xs) (Some a)) \<le> refs b))"

text \<open>The heap with the references of \<open>xs\<close> given back.\<close>

definition give_back :: "(sample \<times> addr option) list \<Rightarrow> bucket_heap \<Rightarrow> bucket_heap" where
  "give_back xs h = (\<lambda>a. let k = count_list (map snd xs) (Some a) in
     (case h a of
        None \<Rightarrow> None
      | Some b \<Rightarrow> if k = 0 then Some b
                  else if refs b = int k then None else Some (b\<lparr>refs := refs b - int k\<rparr>)))"

lemma count_pos: "Some a \<in> snd ` set xs \<Longrightarrow> 0 < count_list (map snd xs) (Some a)"
  using count_list_0_iff[of "map snd xs" "Some a"] by (metis gr0I set_map)

lemma enough_refs_Cons_dom: "enough_refs h ((x, Some a) # xs) \<Longrightarrow> a \<in> dom h"
  by (auto simp: enough_refs_def)

lemma drop_ref_cell:
  "drop_ref tb h a = (if tb = Some a then
     (case h a of None \<Rightarrow> None | Some b \<Rightarrow> if refs b = 1 then None else Some (b\<lparr>refs := refs b - 1\<rparr>))
     else h a)"
  by (auto simp: drop_ref_def release_def deref_def Let_def split: option.split)

lemma give_back_step:
  "(refs b = 1 \<Longrightarrow> k = 0) \<Longrightarrow>
   (case if refs b = 1 then None else Some (b\<lparr>refs := refs b - 1\<rparr>) of
      None \<Rightarrow> None
    | Some b \<Rightarrow> if k = 0 then Some b
                else if refs b = int k then None else Some (b\<lparr>refs := refs b - int k\<rparr>)) =
   (case Some b of
      None \<Rightarrow> None
    | Some b \<Rightarrow> if Suc k = 0 then Some b
                else if refs b = int (Suc k) then None else Some (b\<lparr>refs := refs b - int (Suc k)\<rparr>))"
  by (cases "refs b = 1"; cases "k = 0") simp_all

lemma enough_refs_Cons:
  assumes "enough_refs h ((x, tb) # xs)"
  shows "enough_refs (drop_ref tb h) xs"
    and "give_back xs (drop_ref tb h) = give_back ((x, tb) # xs) h"
proof -
  have e: "\<exists>b. h a = Some b \<and> int (count_list (map snd ((x, tb) # xs)) (Some a)) \<le> refs b"
    if "Some a \<in> insert tb (snd ` set xs)" for a
    using assms that by (auto simp: enough_refs_def)
  show "enough_refs (drop_ref tb h) xs"
    unfolding enough_refs_def
  proof (intro allI impI)
    fix a assume a: "Some a \<in> snd ` set xs"
    note pos = count_pos[OF a]
    obtain b where b: "h a = Some b" "int (count_list (map snd ((x, tb) # xs)) (Some a)) \<le> refs b"
      using e[of a] a by auto
    then show "\<exists>b. drop_ref tb h a = Some b \<and> int (count_list (map snd xs) (Some a)) \<le> refs b"
      using pos by (cases "tb = Some a") (simp_all add: drop_ref_cell)
  qed
  show "give_back xs (drop_ref tb h) = give_back ((x, tb) # xs) h"
  proof
    fix a
    show "give_back xs (drop_ref tb h) a = give_back ((x, tb) # xs) h a"
    proof (cases "tb = Some a")
      case True
      then obtain b where b: "h a = Some b" "int (Suc (count_list (map snd xs) (Some a))) \<le> refs b"
        using e[of a] by auto
      define k where "k = count_list (map snd xs) (Some a)"
      have k0: "refs b = 1 \<Longrightarrow> k = 0" using b(2) by (simp add: k_def)
      have kS: "count_list (map snd ((x, tb) # xs)) (Some a) = Suc k" using True by (simp add: k_def)
      have d: "drop_ref tb h a = (if refs b = 1 then None else Some (b\<lparr>refs := refs b - 1\<rparr>))"
        using True b(1) by (simp add: drop_ref_cell)
      show ?thesis
        by (simp only: give_back_def d kS k_def[symmetric] b(1) Let_def) (rule give_back_step, rule k0)
    qed (simp add: give_back_def drop_ref_cell)
  qed
qed

lemma session_events_cong:
  "(\<And>x. x \<in> set xs \<Longrightarrow> thread_of h x = thread_of h' x) \<Longrightarrow>
   session_events J known h xs = session_events J known h' xs"
  by (induction xs arbitrary: known) simp_all

lemma thread_of_drop_ref:
  assumes "enough_refs h ((x, tb) # xs)" and "y \<in> set xs"
  shows "thread_of (drop_ref tb h) y = thread_of h y"
proof -
  obtain z tb' where y: "y = (z, tb')" by (cases y)
  obtain env n fs where z: "z = (env, n, fs)" by (cases z)
  show ?thesis
  proof (cases tb')
    case (Some a)
    then have "Some a \<in> snd ` set xs" using assms(2) y by force
    then obtain b where "drop_ref tb h a = Some b"
      using enough_refs_Cons(1)[OF assms(1)] by (auto simp: enough_refs_def)
    then show ?thesis by (auto simp: y z Some thread_of_def drop_ref_cell split: if_splits option.splits)
  qed (simp add: y z thread_of_def)
qed

lemma session_effect:
  assumes "\<forall>x\<in>set xs. complete_sample (fst x)" and "enough_refs h xs"
  shows "\<exists>w'. deliver (record_sample J) xs (w, h) = Inr (w', give_back xs h) \<and> little w' = little w \<and>
    out w' = out w @ log (little w) (session_events J (knownMethods w) h xs)"
  using assms
proof (induction xs arbitrary: w h)
  case Nil
  have "give_back [] h = h" by (auto simp: give_back_def split: option.split)
  then show ?case by simp
next
  case (Cons y xs)
  obtain x tb where y: "y = (x, tb)" by (cases y)
  note er = enough_refs_Cons[OF Cons.prems(2)[unfolded y]]
  let ?w = "(put (log (little w) (sample_events J (knownMethods w) (thread_of h (x, tb)) x)) w)
      \<lparr>knownMethods := knownMethods w \<union> method_id ` set (snd (snd x))\<rparr>"
  have "record_sample J (x, tb) (w, h) = Inr (?w, drop_ref tb h)"
    using Cons.prems enough_refs_Cons_dom[of h x _ xs] y by (intro record_sample_effect) auto
  moreover obtain w' where
    "deliver (record_sample J) xs (?w, drop_ref tb h) = Inr (w', give_back xs (drop_ref tb h))"
    "little w' = little ?w"
    "out w' = out ?w @ log (little ?w) (session_events J (knownMethods ?w) (drop_ref tb h) xs)"
    using Cons.IH[of "drop_ref tb h" ?w] Cons.prems(1) er(1) by auto
  moreover have "session_events J K (drop_ref tb h) xs = session_events J K h xs" for K
    using Cons.prems(2) y by (intro session_events_cong thread_of_drop_ref[of h x tb xs]) auto
  ultimately show ?case by (simp add: y er(2))
qed

text \<open>The methods a log describes.\<close>

fun described :: "log_event list \<Rightarrow> u64 list" where
  "described [] = []"
| "described (New_Method m f c n # es) = m # described es"
| "described (e # es) = described es"

lemma described_append [simp]: "described (es @ fs) = described es @ described fs"
  by (induction es rule: described.induct) simp_all

lemma described_frame_event [simp]: "described (frame_event J f # es) = described es"
  by (simp add: frame_event_def)

definition describable :: "jvmti \<Rightarrow> u64 \<Rightarrow> bool" where
  "describable J m \<longleftrightarrow> method_events J m \<noteq> []"

lemma described_method_events:
  "described (method_events J m) = (if describable J m then [m] else [])"
  by (auto simp: method_events_def describable_def split: sum.splits)

lemma described_frames_Cons:
  "described (frames_events J known (f # fs)) =
     (if method_id f \<notin> known \<and> describable J (method_id f) then [method_id f] else []) @
     described (frames_events J (insert (method_id f) known) fs)"
  by (simp only: frames_events.simps described_frame_event described_append if_distrib[of described]
      described_method_events described.simps(1)) (simp split: if_split)

lemma described_frames:
  "distinct (described (frames_events J known fs)) \<and>
   set (described (frames_events J known fs)) = {m \<in> method_id ` set fs - known. describable J m}"
proof (induction fs arbitrary: known)
  case (Cons f fs)
  show ?case
    using Cons[of "insert (method_id f) known"] unfolding described_frames_Cons by force
qed simp

definition sampled_methods :: "(sample \<times> addr option) list \<Rightarrow> u64 set" where
  "sampled_methods xs = (\<Union>x\<in>set xs. method_id ` set (snd (snd (fst x))))"

lemma described_session:
  "distinct (described (session_events J known h xs)) \<and>
   set (described (session_events J known h xs)) = {m \<in> sampled_methods xs - known. describable J m}"
proof (induction J known h xs rule: session_events.induct)
  case (2 J known h x xs)
  obtain env n fs tb where x: "x = ((env, n, fs), tb)" by (metis surj_pair)
  have "described (sample_events J known t (fst x)) = described (frames_events J known fs)" for t
    by (simp add: x sample_events_def)
  then show ?case
    using 2 described_frames[of J known fs] by (auto simp: x sampled_methods_def)
qed (simp add: sampled_methods_def)

subsection \<open>What a reader of the log gets back\<close>

text \<open>
  C29: The log format loses nothing. From the bytes written for any sequence of records whose
  strings fit the 32 bit length field, on a host of either byte order, a reader recovers exactly
  that sequence.
\<close>

theorem log_round_trip:
  assumes "\<forall>e\<in>set es. short_event e"
  shows "parse_log (log le es) = Some es"
  using decode_all_encode[OF assms, of le] by (simp add: parse_log_def log_def)

theorem log_round_trip_witness:
  "parse_log (log True [Trace_Start 1 7, Frame_Full 3 12 5, New_Method 5 [1, 2] [] [9]]) =
   Some [Trace_Start 1 7, Frame_Full 3 12 5, New_Method 5 [1, 2] [] [9]]"
  by (rule log_round_trip) (simp add: short_string_def)

definition example_jvmti :: jvmti where
  "example_jvmti = \<lparr>GetLineNumberTable = (\<lambda>m. if m = 5 then Some example_table else None),
     GetMethodName = (\<lambda>m. if m = 5 then Inr [109] else Inl 23),
     GetMethodDeclaringClass = (\<lambda>m. Inr 1), GetClassSignature = (\<lambda>c. Inr [76, 65, 59]),
     GetSourceFileName = (\<lambda>c. Inl 101)\<rparr>"

definition example_samples :: "(sample \<times> addr option) list" where
  "example_samples = [((9, 1, [\<lparr>lineno = 6, method_id = 5\<rparr>]), Some 0),
     ((9, 2, [\<lparr>lineno = 0, method_id = 5\<rparr>, \<lparr>lineno = 1, method_id = 8\<rparr>]), None)]"

definition example_heap :: bucket_heap where
  "example_heap = [0 \<mapsto> \<lparr>tid = 77, name = [], refs = 2, localEpoch = 0\<rparr>]"

text \<open>
  C28: Delivering any complete samples whose bucket references are counted never touches a freed
  bucket, gives back each reference exactly once (a bucket is freed precisely when the last one
  goes), and writes for every sample, in order, its trace record with the thread it is attributed
  to, its frames with their lines, and the descriptions of the methods met for the first time.
\<close>

theorem writer_records_session:
  assumes "\<forall>x\<in>set xs. complete_sample (fst x)" and "enough_refs h xs"
  shows "\<exists>w. deliver (record_sample J) xs (new_log_writer le, h) = Inr (w, give_back xs h) \<and>
    out w = log le (session_events J {} h xs)"
  using session_effect[OF assms, of J "new_log_writer le"] by (auto simp: new_log_writer_def)

theorem writer_records_session_witness:
  "\<exists>w. deliver (record_sample example_jvmti) example_samples (new_log_writer True, example_heap) =
     Inr (w, give_back example_samples example_heap) \<and>
     out w = log True (session_events example_jvmti {} example_heap example_samples)"
  by (rule writer_records_session)
    (auto simp: example_samples_def complete_sample_def enough_refs_def example_heap_def)

text \<open>
  A log describes each method once. The methods described in the log of a session are, without
  repetition, exactly the sampled methods for which JVMTI yields a name, a declaring class and its
  signature.
\<close>

theorem methods_described_once:
  assumes "\<forall>x\<in>set xs. complete_sample (fst x)" and "enough_refs h xs"
    and "\<forall>e\<in>set (session_events J {} h xs). short_event e"
  shows "\<exists>w h' es. deliver (record_sample J) xs (new_log_writer le, h) = Inr (w, h') \<and>
    parse_log (out w) = Some es \<and> distinct (described es) \<and>
    set (described es) = {m \<in> sampled_methods xs. describable J m}"
proof -
  obtain w where "deliver (record_sample J) xs (new_log_writer le, h) = Inr (w, give_back xs h)"
    and "out w = log le (session_events J {} h xs)"
    using session_effect[OF assms(1,2), of J "new_log_writer le"] by (auto simp: new_log_writer_def)
  moreover have "parse_log (log le (session_events J {} h xs)) = Some (session_events J {} h xs)"
    using decode_all_encode[OF assms(3), of le] by (simp add: parse_log_def log_def)
  ultimately show ?thesis using described_session[of J "{}" h xs] by auto
qed

theorem methods_described_once_witness:
  "\<exists>w h' es. deliver (record_sample example_jvmti) example_samples (new_log_writer False, example_heap) =
     Inr (w, h') \<and> parse_log (out w) = Some es \<and> distinct (described es) \<and>
     set (described es) = {m \<in> sampled_methods example_samples. describable example_jvmti m}"
  by (rule methods_described_once)
    (auto simp: example_samples_def complete_sample_def enough_refs_def example_heap_def
      sample_events_def frame_event_def method_events_def example_jvmti_def short_string_def file_unknown_def)

end
