(* ===== verification/Signal_Handler.thy ===== *)
theory Signal_Handler
  imports Base "HOL-Library.Signed_Division"
begin

text \<open>
  \<open>SignalHandler\<close> (\<^verbatim>\<open>signal_handler.h\<close>, \<^verbatim>\<open>signal_handler.cpp\<close>): a table of 1024
  random sampling intervals, and the profiling timer of the process, armed with them in turn.

  The C library is given by two arguments: \<open>rnd i\<close> is the \<open>i\<close>-th value of \<open>rand()\<close>, documented to
  lie between 0 and \<open>RAND_MAX\<close>, and \<open>ok i\<close> says whether the \<open>i\<close>-th call of \<open>setitimer\<close> succeeds.
  The kernel keeps the timer in force. C's \<open>/\<close> and \<open>%\<close> are \<open>sdiv\<close> and \<open>smod\<close>.
\<close>

definition NUMBER_OF_INTERVALS :: nat where
  "NUMBER_OF_INTERVALS = 1024"

text \<open>Arithmetic on \<open>int\<close> overflows outside its 32 bits.\<close>

definition checked :: "int \<Rightarrow> int result" where
  "checked x = (if - (2 ^ 31) \<le> x \<and> x < 2 ^ 31 then Inr x else Inl Signed_Overflow)"

lemma checked_ok [simp]: "- (2 ^ 31) \<le> x \<Longrightarrow> x < 2 ^ 31 \<Longrightarrow> checked x = Inr x"
  by (simp add: checked_def)

record signal_handler =
  intervalIndex :: nat
  timingIntervals :: "int list"
  currentInterval :: int

text \<open>The \<open>ITIMER_PROF\<close> timer (\<open>tv_sec\<close>, \<open>tv_usec\<close>) and the number of \<open>setitimer\<close> calls made.\<close>

record kernel =
  itimer :: "int \<times> int"
  calls :: nat

definition interval_at :: "(nat \<Rightarrow> int) \<Rightarrow> int \<Rightarrow> int \<Rightarrow> nat \<Rightarrow> int result" where
  "interval_at rnd lo width i =
     (if width = 0 then Inl Division_By_Zero else checked (lo + rnd i smod width))"

fun fill_intervals :: "(nat \<Rightarrow> int) \<Rightarrow> int \<Rightarrow> int \<Rightarrow> nat \<Rightarrow> nat \<Rightarrow> int list result" where
  "fill_intervals rnd lo width i 0 = Inr []"
| "fill_intervals rnd lo width i (Suc todo) =
     and_then (interval_at rnd lo width i) (\<lambda>x.
     and_then (fill_intervals rnd lo width (Suc i) todo) (\<lambda>xs. Inr (x # xs)))"

definition new_signal_handler :: "(nat \<Rightarrow> int) \<Rightarrow> int \<Rightarrow> int \<Rightarrow> signal_handler result" where
  "new_signal_handler rnd lo hi =
     and_then (checked (hi - lo)) (\<lambda>d.
     and_then (checked (d + 1)) (\<lambda>width.
     and_then (fill_intervals rnd lo width 0 NUMBER_OF_INTERVALS) (\<lambda>xs.
       Inr \<lparr>intervalIndex = 0, timingIntervals = xs, currentInterval = -1\<rparr>)))"

text \<open>\<open>updateSigprofInterval(int)\<close>, \<open>updateSigprofInterval()\<close> and \<open>stopSigprof\<close>.\<close>

definition update_to :: "(nat \<Rightarrow> bool) \<Rightarrow> int \<Rightarrow> signal_handler \<times> kernel \<Rightarrow> bool \<times> signal_handler \<times> kernel" where
  "update_to ok timingInterval = (\<lambda>(h, k).
     if timingInterval = currentInterval h then (True, h, k)
     else
       let timer = (timingInterval sdiv 1000000, timingInterval smod 1000000) in
       if ok (calls k)
       then (True, h\<lparr>currentInterval := timingInterval\<rparr>, k\<lparr>itimer := timer, calls := calls k + 1\<rparr>)
       else (False, h, k\<lparr>calls := calls k + 1\<rparr>))"

definition updateSigprofInterval ::
    "(nat \<Rightarrow> bool) \<Rightarrow> signal_handler \<times> kernel \<Rightarrow> (bool \<times> signal_handler \<times> kernel) result" where
  "updateSigprofInterval ok = (\<lambda>(h, k).
     if intervalIndex h < length (timingIntervals h) then
       (case update_to ok (timingIntervals h ! intervalIndex h) (h, k) of
          (res, h', k') \<Rightarrow>
            Inr (res, h'\<lparr>intervalIndex := (intervalIndex h' + 1) mod NUMBER_OF_INTERVALS\<rparr>, k'))
     else Inl Out_Of_Bounds)"

definition stopSigprof :: "(nat \<Rightarrow> bool) \<Rightarrow> signal_handler \<times> kernel \<Rightarrow> bool \<times> signal_handler \<times> kernel" where
  "stopSigprof ok = update_to ok 0"

text \<open>
  \<open>SetAction\<close>. What the kernel does at SIGPROF is a \<open>sigaction\<close>; the argument says whether the call succeeds. When it does not,
  the structure that is returned was never filled: \<open>None\<close>.
\<close>

datatype sa_flag = SA_RESTART | SA_SIGINFO

record 'a sigaction =
  sa_sigaction :: 'a
  sa_flags :: "sa_flag set"
  sa_mask :: "nat set"

definition SetAction :: "bool \<Rightarrow> 'a \<Rightarrow> 'a sigaction \<Rightarrow> 'a sigaction option \<times> 'a sigaction" where
  "SetAction succeeds action in_force =
     (let sa = \<lparr>sa_sigaction = action, sa_flags = {SA_RESTART, SA_SIGINFO}, sa_mask = {}\<rparr> in
      if succeeds then (Some in_force, sa) else (None, in_force))"

text \<open>The last of several actions that could be set is in force, whatever failed.\<close>

lemma last_action_in_force:
  "sa_sigaction (fold (\<lambda>(ok, a) f. snd (SetAction ok a f)) as f)
     = last (sa_sigaction f # map snd (filter fst as))"
  by (induction as arbitrary: f) (auto simp: SetAction_def Let_def)

subsection \<open>The intervals\<close>

definition wf_handler :: "int \<Rightarrow> int \<Rightarrow> signal_handler \<Rightarrow> bool" where
  "wf_handler lo hi h \<longleftrightarrow> intervalIndex h < NUMBER_OF_INTERVALS \<and>
     length (timingIntervals h) = NUMBER_OF_INTERVALS \<and>
     (\<forall>x\<in>set (timingIntervals h). lo \<le> x \<and> x \<le> hi)"

text \<open>The duration a timer stands for, in microseconds.\<close>

definition micros :: "int \<times> int \<Rightarrow> int" where
  "micros t = fst t * 1000000 + snd t"

text \<open>What the handler believes is in force is in force; -1 stands for not knowing.\<close>

definition in_sync :: "signal_handler \<times> kernel \<Rightarrow> bool" where
  "in_sync = (\<lambda>(h, k). currentInterval h = -1 \<or> micros (itimer k) = currentInterval h)"

lemma smod_range: "0 \<le> x \<Longrightarrow> 0 < m \<Longrightarrow> 0 \<le> x smod m \<and> x smod m < (m :: int)"
  by (simp add: signed_modulo_int_def signed_divide_int_def sgn_if split: if_splits)

lemma micros_split: "0 \<le> t \<Longrightarrow> micros (t sdiv 1000000, t smod 1000000) = t \<and>
    0 \<le> t smod 1000000 \<and> t smod 1000000 < (1000000 :: int)"
  using smod_range[of t 1000000] sdiv_mult_smod_eq[of t 1000000] by (simp add: micros_def)

lemma fill_intervals_ok:
  assumes "\<And>i. 0 \<le> rnd i" and "0 < width" and "0 \<le> lo" and "lo + width - 1 < 2 ^ 31"
  shows "\<exists>xs. fill_intervals rnd lo width i todo = Inr xs \<and> length xs = todo \<and>
    (\<forall>x\<in>set xs. lo \<le> x \<and> x \<le> lo + width - 1)"
proof (induction todo arbitrary: i)
  case (Suc todo)
  obtain xs where xs: "fill_intervals rnd lo width (Suc i) todo = Inr xs" "length xs = todo"
    "\<forall>x\<in>set xs. lo \<le> x \<and> x \<le> lo + width - 1" using Suc by blast
  let ?x = "lo + rnd i smod width"
  have r: "0 \<le> rnd i smod width" "rnd i smod width < width" using smod_range[OF assms(1,2)] by auto
  then have "interval_at rnd lo width i = Inr ?x" using assms(2-4) by (simp add: interval_at_def)
  then show ?case using xs r by simp
qed simp

lemma new_signal_handler_ok:
  assumes "\<And>i. 0 \<le> rnd i" and "0 < lo" and "lo \<le> hi" and "hi < 2 ^ 31"
  shows "\<exists>h. new_signal_handler rnd lo hi = Inr h \<and> wf_handler lo hi h \<and> currentInterval h = -1"
proof -
  obtain xs where "fill_intervals rnd lo (hi - lo + 1) 0 NUMBER_OF_INTERVALS = Inr xs"
    "length xs = NUMBER_OF_INTERVALS" "\<forall>x\<in>set xs. lo \<le> x \<and> x \<le> lo + (hi - lo + 1) - 1"
    using fill_intervals_ok[of rnd "hi - lo + 1" lo 0 NUMBER_OF_INTERVALS] assms by auto
  then show ?thesis
    using assms by (simp add: new_signal_handler_def wf_handler_def NUMBER_OF_INTERVALS_def)
qed

lemma update_to_effect:
  assumes "0 \<le> t" and "in_sync s" and "update_to ok t s = (res, s')"
  shows "in_sync s'" and "res \<Longrightarrow> micros (itimer (snd s')) = t" and "\<not> res \<Longrightarrow> itimer (snd s') = itimer (snd s)"
    and "timingIntervals (fst s') = timingIntervals (fst s) \<and> intervalIndex (fst s') = intervalIndex (fst s)"
  using assms micros_split[OF assms(1)]
  by (auto simp: update_to_def in_sync_def Let_def split: prod.splits if_splits)

lemma updateSigprofInterval_effect:
  assumes "wf_handler lo hi h" and "0 \<le> lo" and "in_sync (h, k)"
  shows "\<exists>res h' k'. updateSigprofInterval ok (h, k) = Inr (res, h', k') \<and> wf_handler lo hi h' \<and>
    in_sync (h', k') \<and> (res \<longrightarrow> lo \<le> micros (itimer k') \<and> micros (itimer k') \<le> hi) \<and>
    (\<not> res \<longrightarrow> itimer k' = itimer k)"
proof -
  let ?t = "timingIntervals h ! intervalIndex h"
  have i: "intervalIndex h < length (timingIntervals h)" using assms(1) by (simp add: wf_handler_def)
  then have t: "lo \<le> ?t" "?t \<le> hi" using assms(1) by (auto simp: wf_handler_def)
  obtain res h' k' where u: "update_to ok ?t (h, k) = (res, h', k')" by (metis surj_pair)
  have "0 \<le> ?t" using t assms(2) by simp
  note e = update_to_effect[OF this assms(3) u]
  let ?h = "h'\<lparr>intervalIndex := (intervalIndex h' + 1) mod NUMBER_OF_INTERVALS\<rparr>"
  have "updateSigprofInterval ok (h, k) = Inr (res, ?h, k')"
    using i u by (simp add: updateSigprofInterval_def)
  moreover have "wf_handler lo hi ?h"
    using e(4) assms(1) by (simp add: wf_handler_def NUMBER_OF_INTERVALS_def)
  moreover have "in_sync (?h, k')" using e(1) by (simp add: in_sync_def)
  ultimately show ?thesis using e t by auto
qed

text \<open>Repeated calls of \<open>updateSigprofInterval()\<close>, with the result of the last one.\<close>

fun updates :: "(nat \<Rightarrow> bool) \<Rightarrow> nat \<Rightarrow> bool \<times> signal_handler \<times> kernel \<Rightarrow> (bool \<times> signal_handler \<times> kernel) result" where
  "updates ok 0 r = Inr r"
| "updates ok (Suc n) r = and_then (updateSigprofInterval ok (snd r)) (updates ok n)"

lemma updates_invariant:
  assumes "wf_handler lo hi h" and "0 \<le> lo" and "in_sync (h, k)"
    and "res \<longrightarrow> 0 < n \<or> lo \<le> micros (itimer k) \<and> micros (itimer k) \<le> hi"
  shows "\<exists>res' h' k'. updates ok n (res, h, k) = Inr (res', h', k') \<and> wf_handler lo hi h' \<and> in_sync (h', k') \<and>
    (res' \<longrightarrow> lo \<le> micros (itimer k') \<and> micros (itimer k') \<le> hi)"
  using assms
proof (induction n arbitrary: res h k)
  case (Suc n)
  obtain res' h' k' where u: "updateSigprofInterval ok (h, k) = Inr (res', h', k')" "wf_handler lo hi h'"
    "in_sync (h', k')" "res' \<longrightarrow> lo \<le> micros (itimer k') \<and> micros (itimer k') \<le> hi"
    using updateSigprofInterval_effect[OF Suc.prems(1-3)] by blast
  then show ?case using Suc.IH[OF u(2) Suc.prems(2) u(3)] by auto
qed simp

text \<open>
  C33: With bounds as the profiler's setter leaves them, building the handler neither overflows nor
  divides by zero, and however often \<open>updateSigprofInterval\<close> is then called (past the end of the table
  too) it stays inside the table; whenever a call succeeds, the timer in force is between the two
  bounds.
\<close>

theorem sampling_interval_within_bounds:
  assumes "\<And>i. 0 \<le> rnd i" and "0 < lo" and "lo \<le> hi" and "hi < 2 ^ 31"
  shows "\<exists>h res h' k'. new_signal_handler rnd lo hi = Inr h \<and>
    updates ok n (False, h, k) = Inr (res, h', k') \<and>
    intervalIndex h' < NUMBER_OF_INTERVALS \<and>
    (res \<longrightarrow> lo \<le> micros (itimer k') \<and> micros (itimer k') \<le> hi)"
proof -
  obtain h where h: "new_signal_handler rnd lo hi = Inr h" "wf_handler lo hi h" "currentInterval h = -1"
    using new_signal_handler_ok[of rnd lo hi] assms by blast
  then have "in_sync (h, k)" by (simp add: in_sync_def)
  then show ?thesis
    using updates_invariant[of lo hi h k False n ok] h assms(2) by (auto simp: wf_handler_def)
qed

theorem sampling_interval_within_bounds_witness:
  "\<exists>h res h' k'. new_signal_handler (\<lambda>i. int i * 7) 10 20 = Inr h \<and>
    updates (\<lambda>i. True) 3000 (False, h, \<lparr>itimer = (0, 0), calls = 0\<rparr>) = Inr (res, h', k') \<and>
    intervalIndex h' < NUMBER_OF_INTERVALS \<and> (res \<longrightarrow> 10 \<le> micros (itimer k') \<and> micros (itimer k') \<le> 20)"
  by (rule sampling_interval_within_bounds) simp_all

text \<open>
  \<open>updateSigprofInterval(t)\<close>, run alone, makes no system call when \<open>t\<close> is already in force;
  otherwise, when \<open>setitimer\<close> succeeds, the kernel's timer is exactly \<open>t\<close> microseconds with a
  microsecond part below a million, and when it fails the timer and the handler's notion of it are
  what they were.
\<close>

theorem timer_follows_handler:
  assumes "0 \<le> t" and "in_sync (h, k)"
  shows "\<exists>h' k'. update_to ok t (h, k) = (currentInterval h = t \<or> ok (calls k), h', k') \<and> in_sync (h', k') \<and>
    (if currentInterval h = t then k' = k \<and> h' = h
     else calls k' = calls k + 1 \<and>
       (if ok (calls k) then micros (itimer k') = t \<and> 0 \<le> snd (itimer k') \<and> snd (itimer k') < 1000000
        else itimer k' = itimer k \<and> h' = h))"
  using assms micros_split[OF assms(1)] by (auto simp: update_to_def in_sync_def Let_def)

theorem timer_follows_handler_witness:
  "\<exists>h' k'. update_to (\<lambda>i. True) 2500000 (\<lparr>intervalIndex = 0, timingIntervals = [], currentInterval = -1\<rparr>,
      \<lparr>itimer = (0, 0), calls = 4\<rparr>) = (True, h', k') \<and> micros (itimer k') = 2500000"
  using timer_follows_handler[of 2500000 "\<lparr>intervalIndex = 0, timingIntervals = [], currentInterval = -1\<rparr>"
      "\<lparr>itimer = (0, 0), calls = 4\<rparr>" "\<lambda>i. True"]
  by (auto simp: in_sync_def)

subsection \<open>Two threads in \<open>updateSigprofInterval\<close>\<close>

text \<open>
  \<open>Profiler::stop\<close> calls \<open>stopSigprof\<close> while the processor thread may be updating the interval of the
  same handler. Neither the static \<open>timer\<close> nor \<open>currentInterval\<close> is protected. The steps of one call
  are the accesses of shared data; \<open>setitimer\<close> succeeds here.
\<close>

datatype updater = U_Check int | U_Fill int | U_Call int | U_Store int | U_Done

record shared_timer =
  current :: int
  static_timer :: "int \<times> int"
  in_force :: "int \<times> int"

fun updater_step :: "updater \<Rightarrow> shared_timer \<Rightarrow> updater \<times> shared_timer" where
  "updater_step (U_Check t) s = (if t = current s then U_Done else U_Fill t, s)"
| "updater_step (U_Fill t) s = (U_Call t, s\<lparr>static_timer := (t sdiv 1000000, t smod 1000000)\<rparr>)"
| "updater_step (U_Call t) s = (U_Store t, s\<lparr>in_force := static_timer s\<rparr>)"
| "updater_step (U_Store t) s = (U_Done, s\<lparr>current := t\<rparr>)"
| "updater_step U_Done s = (U_Done, s)"

text \<open>A schedule names the thread of each step: the first one is \<open>stop\<close>, the second the processor.\<close>

fun interleave :: "bool list \<Rightarrow> updater \<times> updater \<times> shared_timer \<Rightarrow> updater \<times> updater \<times> shared_timer" where
  "interleave [] c = c"
| "interleave (stop # sch) (a, b, s) =
     interleave sch (if stop then (case updater_step a s of (a', s') \<Rightarrow> (a', b, s'))
                     else (case updater_step b s of (b', s') \<Rightarrow> (a, b', s')))"

lemma updater_alone:
  "interleave [True, True, True, True] (U_Check t, b, s) = (a, b', s') \<Longrightarrow>
   micros (in_force s) = current s \<Longrightarrow> 0 \<le> t \<Longrightarrow> a = U_Done \<and> b' = b \<and> micros (in_force s') = t \<and> current s' = t"
  using micros_split[of t] by (cases "t = current s") auto

text \<open>
  C34: The two calls race. From a consistent state there is an interleaving of \<open>stop\<close>'s
  \<open>stopSigprof\<close> with an update by the processor after which both have returned, the handler believes
  the timer is off, and it is armed; the \<open>stopSigprof\<close> with which the processor then ends returns
  at its first test and leaves the timer armed.
\<close>

theorem racing_stop_leaves_timer_armed:
  "\<exists>sch s s' sch' s''. micros (in_force s) = current s \<and>
     interleave sch (U_Check 0, U_Check 2500, s) = (U_Done, U_Done, s') \<and>
     interleave sch' (U_Done, U_Check 0, s') = (U_Done, U_Done, s'') \<and>
     current s'' = 0 \<and> micros (in_force s'') = 2500"
proof -
  let ?s = "\<lparr>current = 1000, static_timer = (0, 1000), in_force = (0, 1000)\<rparr>"
  let ?s' = "\<lparr>current = 0, static_timer = (0, 2500), in_force = (0, 2500)\<rparr>"
  have "interleave [True, True, True, False, False, False, False, True] (U_Check 0, U_Check 2500, ?s)
      = (U_Done, U_Done, ?s')"
    by simp
  moreover have "interleave [False] (U_Done, U_Check 0, ?s') = (U_Done, U_Done, ?s')" by simp
  ultimately show ?thesis
    by (intro exI[of _ "[True, True, True, False, False, False, False, True]"] exI[of _ ?s] exI[of _ ?s']
        exI[of _ "[False]"]) (simp add: micros_def)
qed

end
