(* ===== verification/Processor.thy ===== *)
theory Processor
  imports Circular_Queue Log_Writer Signal_Handler
begin

text \<open>
  \<open>Processor\<close> (\<^verbatim>\<open>processor.h\<close>, \<^verbatim>\<open>processor.cpp\<close>): the agent thread that drains the queue
  into the log, rotates the sampling interval after more than 200 samples, and ends when it is told
  to stop. Its queue, its log and its timer come from the components below; the queue's and the
  listener's contracts meet here.

  What other threads do is an argument: a list of rounds, one for each turn of the loop of \<open>run\<close>.
  A round tells which samples are pushed while the processor sleeps, which are pushed after it has
  drained the queue, and what it then reads from \<open>isRunning_\<close>.
\<close>

type_synonym pushed = "call_frame list call_trace \<times> addr option"

record round =
  before_drain :: "pushed list"
  after_drain :: "pushed list"
  running :: bool

record session =
  traces :: queue
  log_state :: "log_writer \<times> bucket_heap"
  sampling :: "signal_handler \<times> kernel"

text \<open>
  \<open>while (buffer_.pop()) ++popped;\<close> needs one more \<open>pop\<close> than the queue has items, hence the fuel.
\<close>

definition drain_queue :: "jvmti \<Rightarrow> nat \<Rightarrow> queue \<Rightarrow> log_writer \<times> bucket_heap \<Rightarrow>
    (nat \<times> queue \<times> log_writer \<times> bucket_heap) result option" where
  "drain_queue J = drain (pop (record_trace J)) (Suc Size)"

text \<open>The end of \<open>run\<close>: \<open>stopSigprof\<close> and \<open>workerDone.clear\<close> (the caller's flag).\<close>

definition finish :: "(nat \<Rightarrow> bool) \<Rightarrow> session \<Rightarrow> session" where
  "finish ok s = s\<lparr>sampling := snd (stopSigprof ok (sampling s))\<rparr>"

text \<open>\<open>if (popped > 200)\<close>: whether the loop goes on, and the new value of \<open>popped\<close>.\<close>

definition rotate_interval :: "(nat \<Rightarrow> bool) \<Rightarrow> nat \<Rightarrow> signal_handler \<times> kernel \<Rightarrow>
    (bool \<times> nat \<times> signal_handler \<times> kernel) result" where
  "rotate_interval ok popped sp =
     (if popped > 200
      then and_then (updateSigprofInterval ok sp) (\<lambda>(res, sp'). Inr (res, if res then 0 else popped, sp'))
      else Inr (True, popped, sp))"

text \<open>\<open>run\<close>; \<open>None\<close> is a processor that is still running when the rounds given are over.\<close>

fun run_processor :: "jvmti \<Rightarrow> (nat \<Rightarrow> bool) \<Rightarrow> round list \<Rightarrow> nat \<Rightarrow> session \<Rightarrow> session result option" where
  "run_processor J ok [] popped s = None"
| "run_processor J ok (r # rs) popped s =
    (case push_all push (before_drain r) (traces s) of
       Inl e \<Rightarrow> Some (Inl e)
     | Inr q \<Rightarrow>
    (case drain_queue J popped q (log_state s) of
       None \<Rightarrow> None
     | Some (Inl e) \<Rightarrow> Some (Inl e)
     | Some (Inr (popped1, q1, lg)) \<Rightarrow>
    (case push_all push (after_drain r) q1 of
       Inl e \<Rightarrow> Some (Inl e)
     | Inr q2 \<Rightarrow>
    (case rotate_interval ok popped1 (sampling s) of
       Inl e \<Rightarrow> Some (Inl e)
     | Inr (go_on, popped2, sp) \<Rightarrow>
         let s1 = \<lparr>traces = q2, log_state = lg, sampling = sp\<rparr> in
         if \<not> go_on then Some (Inr (finish ok s1))
         else if \<not> running r then Some (Inr (finish ok s1))
         else run_processor J ok rs popped2 s1))))"

subsection \<open>The run over lists\<close>

text \<open>The specification: the same rounds over a plain list of waiting samples.\<close>

definition samples :: "pushed list \<Rightarrow> (sample \<times> addr option) list" where
  "samples xs = map (\<lambda>(t, tb). sample_of t tb) xs"

definition admit :: "(sample \<times> addr option) list \<Rightarrow> pushed list \<Rightarrow> (sample \<times> addr option) list" where
  "admit waiting xs = waiting @ take (Size - length waiting) (samples xs)"

text \<open>The samples delivered over the rounds, and the samples left waiting at the end.\<close>

fun recorded_items :: "(nat \<Rightarrow> bool) \<Rightarrow> round list \<Rightarrow> nat \<Rightarrow> (sample \<times> addr option) list \<Rightarrow>
    signal_handler \<times> kernel \<Rightarrow> (sample \<times> addr option) list" where
  "recorded_items ok [] popped waiting sp = []"
| "recorded_items ok (r # rs) popped waiting sp =
    (let batch = admit waiting (before_drain r) in
     batch @ (case rotate_interval ok (popped + length batch) sp of
       Inl e \<Rightarrow> []
     | Inr (go_on, popped', sp') \<Rightarrow>
         if go_on \<and> running r then recorded_items ok rs popped' (admit [] (after_drain r)) sp' else []))"

fun left_over :: "(nat \<Rightarrow> bool) \<Rightarrow> round list \<Rightarrow> nat \<Rightarrow> (sample \<times> addr option) list \<Rightarrow>
    signal_handler \<times> kernel \<Rightarrow> (sample \<times> addr option) list" where
  "left_over ok [] popped waiting sp = waiting"
| "left_over ok (r # rs) popped waiting sp =
    (let batch = admit waiting (before_drain r) in
     case rotate_interval ok (popped + length batch) sp of
       Inl e \<Rightarrow> []
     | Inr (go_on, popped', sp') \<Rightarrow>
         if go_on \<and> running r then left_over ok rs popped' (admit [] (after_drain r)) sp'
         else admit [] (after_drain r))"

interpretation trace_service: serviced_fifo wf_queue contents Size fits sample_of push pop
    "record_trace J" "record_sample J" for J
  by unfold_locales

lemma push_all_admit:
  assumes "wf_queue q" and "\<forall>x\<in>set xs. fits q (fst x)"
  shows "\<exists>q'. push_all push xs q = Inr q' \<and> wf_queue q' \<and> fits q' = fits q \<and> contents q' = admit (contents q) xs"
  using trace_queue.push_all_contents[OF assms] by (simp add: admit_def samples_def)

lemma drain_queue_delivers:
  assumes "wf_queue q"
  shows "\<exists>q'. wf_queue q' \<and> fits q' = fits q \<and> contents q' = [] \<and> drain_queue J popped q s =
    Some (and_then (deliver (record_sample J) (contents q) s)
      (\<lambda>s'. Inr (popped + length (contents q), q', s')))"
proof -
  have "length (contents q) < Suc Size" using trace_queue.bounded[OF assms] by simp
  from trace_service.drain_delivers[OF assms this] show ?thesis by (simp add: drain_queue_def)
qed

lemma deliver_append:
  "deliver r (xs @ ys) s = and_then (deliver r xs s) (deliver r ys)"
proof (induction xs arbitrary: s)
  case (Cons x xs)
  then show ?case by (cases "r x s") simp_all
qed simp

lemma rotate_interval_ok:
  assumes "wf_handler lo hi h" and "0 \<le> lo" and "in_sync (h, k)"
  shows "\<exists>go_on popped' h' k'. rotate_interval ok popped (h, k) = Inr (go_on, popped', h', k') \<and>
    wf_handler lo hi h' \<and> in_sync (h', k')"
proof (cases "200 < popped")
  case True
  obtain res h' k' where "updateSigprofInterval ok (h, k) = Inr (res, h', k')" "wf_handler lo hi h'"
    "in_sync (h', k')"
    using updateSigprofInterval_effect[OF assms] by blast
  then show ?thesis
    by (intro exI[of _ res] exI[of _ "if res then 0 else popped"] exI[of _ h'] exI[of _ k'])
      (simp add: rotate_interval_def True)
next
  case False
  then show ?thesis
    using assms by (intro exI[of _ True] exI[of _ popped] exI[of _ h] exI[of _ k])
      (simp add: rotate_interval_def)
qed

definition fitting :: "queue \<Rightarrow> round list \<Rightarrow> bool" where
  "fitting q rs \<longleftrightarrow> (\<forall>r\<in>set rs. \<forall>x\<in>set (before_drain r @ after_drain r). fits q (fst x))"

definition ends :: "round list \<Rightarrow> bool" where
  "ends rs \<longleftrightarrow> (\<exists>r\<in>set rs. \<not> running r)"

lemma fitting_cong: "fits q' = fits q \<Longrightarrow> fitting q' rs = fitting q rs"
  by (simp add: fitting_def)

lemma finish_simps [simp]: "traces (finish ok s) = traces s" "log_state (finish ok s) = log_state s"
  by (simp_all add: finish_def)

text \<open>The loop on the circular queue does what the rounds do on a list.\<close>

lemma run_processor_refines:
  assumes "wf_queue (traces s)" and "fitting (traces s) rs" and "ends rs"
    and "sampling s = (h, k)" and "wf_handler lo hi h" and "0 \<le> lo" and "in_sync (h, k)"
    and "deliver (record_sample J) (recorded_items ok rs popped (contents (traces s)) (h, k)) (log_state s) = Inr lg"
  shows "\<exists>s' h1 k1. run_processor J ok rs popped s = Some (Inr s') \<and> log_state s' = lg \<and>
    wf_queue (traces s') \<and> contents (traces s') = left_over ok rs popped (contents (traces s)) (h, k) \<and>
    in_sync (h1, k1) \<and> sampling s' = snd (stopSigprof ok (h1, k1))"
  using assms
proof (induction rs arbitrary: popped s h k)
  case Nil
  then show ?case by (simp add: ends_def)
next
  case (Cons r rs)
  define batch where "batch = admit (contents (traces s)) (before_drain r)"
  have fit: "\<forall>x\<in>set (before_drain r). fits (traces s) (fst x)" "\<forall>x\<in>set (after_drain r). fits (traces s) (fst x)"
    using Cons.prems(2) by (auto simp: fitting_def)
  obtain q where q: "push_all push (before_drain r) (traces s) = Inr q" "wf_queue q" "fits q = fits (traces s)"
    "contents q = batch"
    using push_all_admit[OF Cons.prems(1) fit(1)] by (auto simp: batch_def)
  obtain q1 where q1: "wf_queue q1" "fits q1 = fits q" "contents q1 = []"
    and d: "drain_queue J popped q (log_state s) = Some (and_then (deliver (record_sample J) batch (log_state s))
      (\<lambda>s'. Inr (popped + length batch, q1, s')))"
    using drain_queue_delivers[OF q(2), of J popped "log_state s"] q(4) by auto
  obtain q2 where q2: "push_all push (after_drain r) q1 = Inr q2" "wf_queue q2" "fits q2 = fits q1"
    "contents q2 = admit [] (after_drain r)"
    using push_all_admit[OF q1(1), of "after_drain r"] fit(2) q1(2,3) q(3) by auto
  obtain go_on popped' h' k' where r: "rotate_interval ok (popped + length batch) (h, k) = Inr (go_on, popped', h', k')"
    "wf_handler lo hi h'" "in_sync (h', k')"
    using rotate_interval_ok[OF Cons.prems(5-7)] by blast
  show ?case
  proof (cases "go_on \<and> running r")
    case False
    then have "deliver (record_sample J) batch (log_state s) = Inr lg"
      using Cons.prems(4,8) r(1) False by (auto simp: Let_def simp flip: batch_def split: if_splits)
    then show ?thesis
      using False q q2 d r Cons.prems(4)
      by (auto simp: Let_def finish_def simp flip: batch_def intro!: exI[of _ h'] exI[of _ k'])
  next
    case True
    let ?rest = "recorded_items ok rs popped' (admit [] (after_drain r)) (h', k')"
    have "deliver (record_sample J) (batch @ ?rest) (log_state s) = Inr lg"
      using Cons.prems(8) r(1) True by (simp add: Let_def flip: batch_def)
    then obtain lg1 where lg1: "deliver (record_sample J) batch (log_state s) = Inr lg1"
      "deliver (record_sample J) ?rest lg1 = Inr lg"
      by (auto simp: deliver_append)
    let ?s = "\<lparr>traces = q2, log_state = lg1, sampling = (h', k')\<rparr>"
    have "fitting (traces ?s) rs" "ends rs"
      using Cons.prems(2,3) True q(3) q1(2) q2(3) by (auto simp: fitting_def ends_def)
    then have "\<exists>s' h1 k1. run_processor J ok rs popped' ?s = Some (Inr s') \<and> log_state s' = lg \<and>
        wf_queue (traces s') \<and> contents (traces s') = left_over ok rs popped' (contents (traces ?s)) (h', k') \<and>
        in_sync (h1, k1) \<and> sampling s' = snd (stopSigprof ok (h1, k1))"
      using q2 r lg1 Cons.prems(6) by (intro Cons.IH) simp_all
    then show ?thesis
      using True q q2 d r lg1 Cons.prems(4) by (auto simp: Let_def simp flip: batch_def)
  qed
qed

subsection \<open>Whole samples\<close>

lemma complete_view: "fits q t \<Longrightarrow> complete_sample (fst (sample_of t tb))"
  by (simp add: complete_sample_def sample_of_def view_def fits_def frame_count_def)

lemma complete_contents:
  assumes "wf_queue q" and "x \<in> set (contents q)"
  shows "complete_sample (fst x)"
proof -
  obtain k where k: "k < used q" "x = slot_sample q (slot_at q k)" using assms(2) by (auto simp: contents_def)
  have "slot_ready q (slot_at q k)" by (rule wf_queueD(2)[OF assms(1) k(1)])
  moreover have "length (frame_buffer q ! slot_at q k) = maxFrames q"
    using wf_queueD(1)[OF assms(1)] slot_at_less[of q k] by (simp add: wf_shape_def)
  ultimately show ?thesis
    by (simp add: k(2) slot_sample_def slot_ready_def complete_sample_def Let_def frame_count_def)
qed

lemma complete_admit:
  assumes "\<forall>x\<in>set waiting. complete_sample (fst x)" and "\<forall>x\<in>set xs. fits q (fst x)"
  shows "\<forall>x\<in>set (admit waiting xs). complete_sample (fst x)"
proof
  fix x assume "x \<in> set (admit waiting xs)"
  then consider "x \<in> set waiting" | "x \<in> set (samples xs)"
    unfolding admit_def by (auto dest: in_set_takeD)
  then show "complete_sample (fst x)"
  proof cases
    case 2
    then obtain t tb where "(t, tb) \<in> set xs" "x = sample_of t tb" by (auto simp: samples_def)
    then show ?thesis using assms(2) complete_view[of q t tb] by auto
  qed (use assms(1) in simp)
qed

lemma complete_recorded:
  assumes "fitting q rs" and "\<forall>x\<in>set waiting. complete_sample (fst x)"
  shows "\<forall>x\<in>set (recorded_items ok rs popped waiting sp). complete_sample (fst x)"
  using assms
proof (induction ok rs popped waiting sp rule: recorded_items.induct)
  case (2 ok r rs popped waiting sp)
  let ?batch = "admit waiting (before_drain r)"
  have b: "\<forall>x\<in>set ?batch. complete_sample (fst x)"
    using complete_admit[OF "2.prems"(2), of "before_drain r" q] "2.prems"(1) by (auto simp: fitting_def)
  have a: "\<forall>x\<in>set (admit [] (after_drain r)). complete_sample (fst x)"
    using complete_admit[of "[]" "after_drain r" q] "2.prems"(1) by (auto simp: fitting_def)
  have f: "fitting q rs" using "2.prems"(1) by (simp add: fitting_def)
  show ?case
  proof (cases "rotate_interval ok (popped + length ?batch) sp")
    case (Inr x)
    obtain go_on popped' sp' where x: "x = (go_on, popped', sp')" by (metis surj_pair)
    show ?thesis
    proof (cases "go_on \<and> running r")
      case True
      from "2.IH"[OF refl Inr _ refl this f a] x Inr True b show ?thesis by (auto simp: Let_def)
    qed (use Inr x b in \<open>auto simp: Let_def\<close>)
  qed (use b in \<open>simp add: Let_def\<close>)
qed simp

subsection \<open>Recording\<close>

text \<open>
  C2: The processor, run with any rounds of pushes by the sampler of which one finds
  \<open>isRunning_\<close> false, returns without a fault. It has then recorded_items, in order and once each, the
  samples that found room in the queue before a drain (and no others), given back their thread
  buckets, left the later ones in the queue in order, and disarmed the timer if \<open>setitimer\<close> works.
\<close>

theorem processor_records_accepted_samples:
  assumes "wf_queue q" and "fitting q rs" and "ends rs"
    and "wf_handler lo hi h" and "0 \<le> lo" and "in_sync (h, k)"
    and "enough_refs hp (recorded_items ok rs popped (contents q) (h, k))"
  shows "\<exists>s. run_processor J ok rs popped \<lparr>traces = q, log_state = (new_log_writer le, hp), sampling = (h, k)\<rparr>
      = Some (Inr s) \<and>
    out (fst (log_state s)) = log le (session_events J {} hp (recorded_items ok rs popped (contents q) (h, k))) \<and>
    snd (log_state s) = give_back (recorded_items ok rs popped (contents q) (h, k)) hp \<and>
    wf_queue (traces s) \<and> contents (traces s) = left_over ok rs popped (contents q) (h, k) \<and>
    ((\<forall>i. ok i) \<longrightarrow> micros (itimer (snd (sampling s))) = 0)"
proof -
  let ?D = "recorded_items ok rs popped (contents q) (h, k)"
  let ?s = "\<lparr>traces = q, log_state = (new_log_writer le, hp), sampling = (h, k)\<rparr>"
  have "\<forall>x\<in>set ?D. complete_sample (fst x)"
    using complete_recorded[OF assms(2)] complete_contents[OF assms(1)] by blast
  then obtain w where w: "deliver (record_sample J) ?D (new_log_writer le, hp) = Inr (w, give_back ?D hp)"
    "out w = log le (session_events J {} hp ?D)"
    using session_effect[OF _ assms(7), of J "new_log_writer le"] by (auto simp: new_log_writer_def)
  obtain s h1 k1 where s: "run_processor J ok rs popped ?s = Some (Inr s)" "log_state s = (w, give_back ?D hp)"
    "wf_queue (traces s)" "contents (traces s) = left_over ok rs popped (contents q) (h, k)"
    "in_sync (h1, k1)" "sampling s = snd (stopSigprof ok (h1, k1))"
    using run_processor_refines[of ?s rs h k lo hi J ok popped] assms w(1) by auto
  have "micros (itimer (snd (sampling s))) = 0" if ok: "\<forall>i. ok i"
  proof -
    obtain res s' where u: "update_to ok 0 (h1, k1) = (res, s')" by (cases "update_to ok 0 (h1, k1)")
    then have "res" using ok by (auto simp: update_to_def Let_def split: if_splits)
    then show ?thesis using update_to_effect(2)[OF _ s(5) u] s(6) u by (simp add: stopSigprof_def)
  qed
  then show ?thesis using s w(2) by simp
qed

definition example_trace :: "call_frame list call_trace" where
  "example_trace = \<lparr>env_id = 9, num_frames = 1, frames = [\<lparr>lineno = 6, method_id = 5\<rparr>]\<rparr>"

definition example_rounds :: "round list" where
  "example_rounds = [\<lparr>before_drain = [(example_trace, None), (example_trace, Some 0)], after_drain = [], running = True\<rparr>,
     \<lparr>before_drain = [(example_trace, None)], after_drain = [(example_trace, None)], running = False\<rparr>]"

definition example_handler :: signal_handler where
  "example_handler = \<lparr>intervalIndex = 0, timingIntervals = replicate NUMBER_OF_INTERVALS 7, currentInterval = -1\<rparr>"

definition example_kernel :: kernel where
  "example_kernel = \<lparr>itimer = (0, 0), calls = 0\<rparr>"

lemma example_recorded:
  "recorded_items (\<lambda>i. True) example_rounds 0 (contents (new_queue 4)) (example_handler, example_kernel) =
     samples [(example_trace, None), (example_trace, Some 0), (example_trace, None)]"
  by (simp add: example_rounds_def contents_new_queue admit_def samples_def rotate_interval_def Size_def)

theorem processor_records_accepted_samples_witness:
  "\<exists>s. run_processor example_jvmti (\<lambda>i. True) example_rounds 0 \<lparr>traces = new_queue 4,
       log_state = (new_log_writer True, example_heap), sampling = (example_handler, example_kernel)\<rparr> = Some (Inr s) \<and>
     contents (traces s) = [sample_of example_trace None]"
proof -
  let ?D = "recorded_items (\<lambda>i. True) example_rounds 0 (contents (new_queue 4)) (example_handler, example_kernel)"
  have "fitting (new_queue 4) example_rounds"
    by (simp add: fitting_def example_rounds_def fits_def new_queue_def example_trace_def frame_count_def)
  moreover have "ends example_rounds" by (simp add: ends_def example_rounds_def)
  moreover have "wf_handler 7 7 example_handler"
    by (simp add: wf_handler_def example_handler_def NUMBER_OF_INTERVALS_def)
  moreover have "in_sync (example_handler, example_kernel)" by (simp add: in_sync_def example_handler_def)
  moreover have "enough_refs example_heap ?D"
    unfolding example_recorded by (auto simp: enough_refs_def samples_def sample_of_def example_heap_def)
  moreover have "left_over (\<lambda>i. True) example_rounds 0 (contents (new_queue 4)) (example_handler, example_kernel) =
      [sample_of example_trace None]"
    by (simp add: example_rounds_def contents_new_queue admit_def samples_def rotate_interval_def Size_def)
  ultimately show ?thesis
    using processor_records_accepted_samples[OF wf_new_queue, of 4 example_rounds 7 7 example_handler example_kernel
        example_heap "\<lambda>i. True" 0 example_jvmti True]
    by auto
qed

subsection \<open>Starting and stopping\<close>

text \<open>
  The two flags, and whether the agent thread runs. \<open>workerDone\<close> is an \<open>atomic_flag\<close>: set while
  the thread works, cleared by its last step.
\<close>

record processor =
  isRunning :: bool
  workerDone :: bool
  worker :: bool
  interval :: int

definition new_processor :: "int \<Rightarrow> processor" where
  "new_processor i = \<lparr>isRunning = False, workerDone = False, worker = False, interval = i\<rparr>"

text \<open>\<open>start\<close>; the argument is whether \<open>RunAgentThread\<close> succeeds. Its failure is only logged.\<close>

definition start_processor :: "bool \<Rightarrow> processor \<Rightarrow> processor" where
  "start_processor ok p = p\<lparr>isRunning := True, workerDone := True, worker := ok\<rparr>"

text \<open>The last step of the agent thread.\<close>

definition worker_exit :: "processor \<Rightarrow> processor" where
  "worker_exit p = p\<lparr>workerDone := False, worker := False\<rparr>"

text \<open>
  \<open>while (workerDone.test_and_set()) sched_yield();\<close> along a schedule that says before which
  iterations the agent thread gets to its end; \<open>None\<close> is a loop that has not ended.
\<close>

fun await_worker :: "bool list \<Rightarrow> processor \<Rightarrow> processor option" where
  "await_worker [] p = None"
| "await_worker (e # es) p =
    (let p1 = (if e \<and> worker p then worker_exit p else p) in
     if workerDone p1 then await_worker es (p1\<lparr>workerDone := True\<rparr>)
     else Some (p1\<lparr>workerDone := True\<rparr>))"

definition stop_processor :: "bool list \<Rightarrow> processor \<Rightarrow> processor option" where
  "stop_processor sch p = await_worker sch (p\<lparr>isRunning := False\<rparr>)"

lemma await_running_worker:
  "worker p \<Longrightarrow> workerDone p \<Longrightarrow> True \<in> set sch \<Longrightarrow> \<exists>p'. await_worker sch p = Some p' \<and> \<not> worker p' \<and> isRunning p' = isRunning p"
proof (induction sch arbitrary: p)
  case (Cons e es)
  show ?case
  proof (cases e)
    case False
    then show ?thesis using Cons.IH[of "p\<lparr>workerDone := True\<rparr>"] Cons.prems by simp
  qed (simp add: Cons.prems worker_exit_def Let_def)
qed simp

lemma await_no_worker: "\<not> worker p \<Longrightarrow> workerDone p \<Longrightarrow> await_worker sch p = None"
  by (induction sch arbitrary: p) (simp_all add: Let_def)

text \<open>
  C32: After a start whose agent thread runs, \<open>stop\<close> returns as soon as that thread ends, with
  nothing running. After a start whose \<open>RunAgentThread\<close> failed, the processor claims to be running
  and \<open>stop\<close> spins for ever.
\<close>

theorem stop_waits_for_worker:
  "isRunning (start_processor ok p) \<and>
   (if ok then \<forall>sch\<in>{sch. True \<in> set sch}. \<exists>p'. stop_processor sch (start_processor ok p) = Some p' \<and>
        \<not> worker p' \<and> \<not> isRunning p'
    else \<forall>sch. stop_processor sch (start_processor ok p) = None)"
  using await_running_worker[of "(start_processor ok p)\<lparr>isRunning := False\<rparr>"]
    await_no_worker[of "(start_processor ok p)\<lparr>isRunning := False\<rparr>"]
  by (simp add: stop_processor_def) (auto simp: start_processor_def)

theorem stop_waits_for_worker_witness:
  "\<exists>p'. stop_processor [False, True] (start_processor True (new_processor 1)) = Some p' \<and> \<not> worker p' \<and> \<not> isRunning p'"
  using stop_waits_for_worker[of True "new_processor 1"] by simp

end
