(* ===== verification/Profiler.thy ===== *)
theory Profiler
  imports Configuration Processor
begin

text \<open>
  \<open>Profiler\<close> (\<^verbatim>\<open>profiler.h\<close>, \<^verbatim>\<open>profiler.cpp\<close>): the settings, the objects built from them,
  and starting and stopping. Every operation holds the spin lock \<open>ongoingConf\<close> and is one step here.

  The profiler's objects refer to each other. An object is its state with a number that identifies it,
  and a C++ reference is the number of the object it was made for: a reference is dangling when the object
  that is now in its place has another number.
\<close>

record writer_obj =
  w_id :: nat
  w_file :: string
  w_log :: log_writer

record buffer_obj =
  b_id :: nat
  b_listener :: nat
  b_queue :: queue

record handler_obj =
  h_id :: nat
  h_timer :: signal_handler

record processor_obj =
  p_writer :: nat
  p_buffer :: nat
  p_handler :: nat
  p_proc :: processor

datatype sig_action = Sig_Default | Sig_Profiler | Sig_Ignore

text \<open>
  The two configurations, the objects, the number of objects made so far, the heap of strings, and of
  the kernel the timer and what \<open>SIGPROF\<close> does.
\<close>

record profiler =
  liveConf :: configuration
  conf :: configuration
  reloadConfig :: bool
  logFile :: "string option"
  writer_at :: "writer_obj option"
  buffer_at :: "buffer_obj option"
  handler_at :: "handler_obj option"
  processor_at :: "processor_obj option"
  made :: nat
  texts :: char_heap
  timer :: kernel
  sigprof :: sig_action

text \<open>
  What the system supplies: \<open>malloc\<close>, the values of \<open>rand\<close> for the \<open>n\<close>-th seed, the clock at a state,
  the process id, the byte order, and whether the \<open>n\<close>-th call of \<open>setitimer\<close> succeeds.
\<close>

record system =
  alloc :: "char_heap \<Rightarrow> addr"
  rand :: "nat \<Rightarrow> nat \<Rightarrow> int"
  epochMillis :: "nat \<Rightarrow> nat"
  getpid :: nat
  little_endian :: bool
  setitimer_ok :: "nat \<Rightarrow> bool"

subsection \<open>configure\<close>

definition log_name :: "system \<Rightarrow> nat \<Rightarrow> string" where
  "log_name E n = ''log-'' @ show_nat (getpid E) @ ''-'' @ show_nat (epochMillis E n) @ ''.hpl''"

text \<open>
  The log: the old file and writer are deleted and the old path is freed. A null path is replaced by a
  new name, of which both configurations get one and the same copy; otherwise the path is shared.
\<close>

definition configure_log :: "system \<Rightarrow> profiler \<Rightarrow> profiler result" where
  "configure_log E p =
     and_then (safe_free_string (logFilePath (conf p)) (texts p)) (\<lambda>h.
     and_then (case logFilePath (liveConf p) of
         None \<Rightarrow> and_then (safe_copy_string (alloc E) (log_name E (made p)) 0 None h) (\<lambda>(a, h1).
                   Inr (log_name E (made p), a, h1))
       | Some a \<Rightarrow> (case map_of h a of None \<Rightarrow> Inl Use_After_Free | Some fileName \<Rightarrow> Inr (fileName, a, h))) (\<lambda>(fileName, a, h1).
     Inr (p\<lparr>conf := (conf p)\<lparr>logFilePath := Some a\<rparr>, liveConf := (liveConf p)\<lparr>logFilePath := Some a\<rparr>,
            texts := h1, logFile := Some fileName,
            writer_at := Some \<lparr>w_id = made p, w_file = fileName, w_log = new_log_writer (little_endian E)\<rparr>,
            made := made p + 1\<rparr>)))"

text \<open>The queue; \<open>new JVMPI_CallFrame[maxFrameSize]\<close> throws when the size is negative.\<close>

definition configure_buffer :: "profiler \<Rightarrow> profiler result" where
  "configure_buffer p =
     (let n = maxFramesToCapture (liveConf p) in
      case writer_at p of
        None \<Rightarrow> Inl Null_Deref
      | Some w \<Rightarrow>
          if sint n < 0 then Inl Bad_Alloc
          else Inr (p\<lparr>conf := (conf p)\<lparr>maxFramesToCapture := n\<rparr>,
                 buffer_at := Some \<lparr>b_id = made p, b_listener = w_id w, b_queue = new_queue (nat (sint n))\<rparr>,
                 made := made p + 1\<rparr>))"

text \<open>
  \<open>Size * samplingIntervalMin / 1000 / 2\<close> is computed in the type of \<open>Size\<close>, an unsigned 64 bit integer, and then cut to an \<open>int\<close>.
\<close>

definition processor_interval :: "jint \<Rightarrow> jint" where
  "processor_interval samplingMin =
     (let i = ucast (word_of_nat Size * scast samplingMin div 1000 div 2 :: u64) :: jint in
      if sint i > 0 then i else 1)"

definition configure_sampling :: "system \<Rightarrow> profiler \<Rightarrow> profiler result" where
  "configure_sampling E p =
     (let lo = samplingIntervalMin (liveConf p); hi = samplingIntervalMax (liveConf p) in
      and_then (new_signal_handler (rand E (made p)) (sint lo) (sint hi)) (\<lambda>h.
        case (writer_at p, buffer_at p) of
          (Some w, Some b) \<Rightarrow>
            Inr (p\<lparr>conf := (conf p)\<lparr>samplingIntervalMin := lo, samplingIntervalMax := hi\<rparr>,
                   handler_at := Some \<lparr>h_id = made p, h_timer = h\<rparr>,
                   processor_at := Some \<lparr>p_writer = w_id w, p_buffer = b_id b, p_handler = made p,
                     p_proc = new_processor (sint (processor_interval lo))\<rparr>,
                   made := made p + 1\<rparr>)
        | _ \<Rightarrow> Inl Null_Deref))"

definition configure :: "system \<Rightarrow> profiler \<Rightarrow> profiler result" where
  "configure E p =
     (let needsUpdate = (processor_at p = None);
          needsUpdate1 = (needsUpdate \<or> logFilePath (conf p) \<noteq> logFilePath (liveConf p)) in
      and_then (if needsUpdate1 then configure_log E p else Inr p) (\<lambda>p1.
      let needsUpdate2 = (needsUpdate1 \<or> maxFramesToCapture (conf p1) \<noteq> maxFramesToCapture (liveConf p1)) in
      and_then (if needsUpdate2 then configure_buffer p1 else Inr p1) (\<lambda>p2.
      let needsUpdate3 = (needsUpdate2 \<or>
            samplingIntervalMin (conf p2) \<noteq> samplingIntervalMin (liveConf p2) \<or>
            samplingIntervalMax (conf p2) \<noteq> samplingIntervalMax (liveConf p2)) in
      and_then (if needsUpdate3 then configure_sampling E p2 else Inr p2) (\<lambda>p3.
        Inr (p3\<lparr>reloadConfig := False\<rparr>)))))"

subsection \<open>Setters and getters\<close>

definition is_running :: "profiler \<Rightarrow> bool" where
  "is_running p = (case processor_at p of None \<Rightarrow> False | Some o1 \<Rightarrow> isRunning (p_proc o1))"

definition setFilePath :: "system \<Rightarrow> string option \<Rightarrow> profiler \<Rightarrow> profiler result" where
  "setFilePath E newFilePath p =
     (if is_running p then Inr p
      else and_then (if logFilePath (liveConf p) \<noteq> None \<and> logFilePath (liveConf p) \<noteq> logFilePath (conf p)
                     then safe_free_string (logFilePath (liveConf p)) (texts p) else Inr (texts p)) (\<lambda>h.
           and_then (case newFilePath of
               None \<Rightarrow> Inr (None, h)
             | Some s \<Rightarrow> and_then (safe_copy_string (alloc E) s 0 None h) (\<lambda>(a, h1). Inr (Some a, h1))) (\<lambda>(path, h1).
           Inr (p\<lparr>liveConf := (liveConf p)\<lparr>logFilePath := path\<rparr>, texts := h1, reloadConfig := True\<rparr>))))"

definition positive_interval :: "jint \<Rightarrow> jint" where
  "positive_interval i = (if sint i > 0 then i else DEFAULT_SAMPLING_INTERVAL)"

definition setSamplingInterval :: "jint \<Rightarrow> jint \<Rightarrow> profiler \<Rightarrow> profiler" where
  "setSamplingInterval intervalMin intervalMax p =
     (if is_running p then p
      else let lo = positive_interval intervalMin; hi = positive_interval intervalMax in
        p\<lparr>liveConf := (liveConf p)\<lparr>samplingIntervalMin := (if sint hi < sint lo then hi else lo),
                                  samplingIntervalMax := (if sint lo < sint hi then hi else lo)\<rparr>,
          reloadConfig := True\<rparr>)"

definition setMaxFramesToCapture :: "jint \<Rightarrow> profiler \<Rightarrow> profiler" where
  "setMaxFramesToCapture requested p =
     (if is_running p then p
      else p\<lparr>liveConf := (liveConf p)\<lparr>maxFramesToCapture :=
               (if sint requested > 0 \<and> sint requested < sint MAX_FRAMES_TO_CAPTURE
                then requested else DEFAULT_MAX_FRAMES_TO_CAPTURE)\<rparr>,
             reloadConfig := True\<rparr>)"

definition getFilePath :: "profiler \<Rightarrow> string result" where
  "getFilePath p = (case logFilePath (liveConf p) of
      None \<Rightarrow> Inr ''''
    | Some a \<Rightarrow> (case map_of (texts p) a of None \<Rightarrow> Inl Use_After_Free | Some s \<Rightarrow> Inr s))"

definition getSamplingIntervalMin :: "profiler \<Rightarrow> jint" where
  "getSamplingIntervalMin p = samplingIntervalMin (liveConf p)"

definition getSamplingIntervalMax :: "profiler \<Rightarrow> jint" where
  "getSamplingIntervalMax p = samplingIntervalMax (liveConf p)"

definition getMaxFramesToCapture :: "profiler \<Rightarrow> jint" where
  "getMaxFramesToCapture p = maxFramesToCapture (liveConf p)"

subsection \<open>Construction, start, stop, destruction\<close>

text \<open>The constructor, on the agent's options and the strings they own; it checks their values with the setters.\<close>

definition new_profiler :: "system \<Rightarrow> configuration \<times> char_heap \<Rightarrow> profiler result" where
  "new_profiler E = (\<lambda>(c, h).
     configure E (setMaxFramesToCapture (maxFramesToCapture c)
       (setSamplingInterval (samplingIntervalMin c) (samplingIntervalMax c)
         \<lparr>liveConf = c, conf = new_configuration, reloadConfig = False, logFile = None, writer_at = None,
          buffer_at = None, handler_at = None, processor_at = None, made = 0, texts = h,
          timer = \<lparr>itimer = (0, 0), calls = 0\<rparr>, sigprof = Sig_Default\<rparr>)))"

text \<open>\<open>start\<close>; the second argument is whether \<open>RunAgentThread\<close> succeeds.\<close>

definition start_profiler :: "system \<Rightarrow> bool \<Rightarrow> profiler \<Rightarrow> (bool \<times> profiler) result" where
  "start_profiler E agent_ok p =
     (if is_running p then Inr (True, p)
      else and_then (if reloadConfig p then configure E p else Inr p) (\<lambda>p1.
        case (handler_at p1, processor_at p1) of
          (Some h, Some o1) \<Rightarrow>
            and_then (updateSigprofInterval (setitimer_ok E) (h_timer h, timer p1)) (\<lambda>(res, h1, k1).
              Inr (res, p1\<lparr>sigprof := Sig_Profiler,
                processor_at := Some (o1\<lparr>p_proc := start_processor agent_ok (p_proc o1)\<rparr>),
                handler_at := Some (h\<lparr>h_timer := h1\<rparr>), timer := k1\<rparr>))
        | _ \<Rightarrow> Inl Null_Deref))"

text \<open>\<open>stop\<close>, along a schedule of the agent thread; \<open>None\<close> is a call that still waits.\<close>

definition stop_profiler :: "system \<Rightarrow> bool list \<Rightarrow> profiler \<Rightarrow> profiler result option" where
  "stop_profiler E sch p =
     (if \<not> is_running p then Some (Inr p)
      else case (handler_at p, processor_at p) of
        (Some h, Some o1) \<Rightarrow>
          (case stopSigprof (setitimer_ok E) (h_timer h, timer p) of (res, h1, k1) \<Rightarrow>
           (case stop_processor sch (p_proc o1) of
              None \<Rightarrow> None
            | Some q \<Rightarrow> Some (Inr (p\<lparr>sigprof := Sig_Ignore, processor_at := Some (o1\<lparr>p_proc := q\<rparr>),
                handler_at := Some (h\<lparr>h_timer := h1\<rparr>), timer := k1\<rparr>))))
      | _ \<Rightarrow> Some (Inl Null_Deref))"

text \<open>
  The destructor, down to the strings that are left: a path both configurations share stays, for the
  owner of the live configuration. Deleting a processor whose thread runs would leave it with dangling references.
\<close>

definition delete_profiler :: "profiler \<Rightarrow> char_heap result" where
  "delete_profiler p =
     (case processor_at p of
        Some o1 \<Rightarrow> if worker (p_proc o1) then Inl Use_After_Free
          else delete_configuration ((conf p)\<lparr>logFilePath :=
            (if logFilePath (liveConf p) = logFilePath (conf p) then None else logFilePath (conf p))\<rparr>) (texts p)
      | None \<Rightarrow> delete_configuration ((conf p)\<lparr>logFilePath :=
            (if logFilePath (liveConf p) = logFilePath (conf p) then None else logFilePath (conf p))\<rparr>) (texts p))"

subsection \<open>Well-formed profilers\<close>

definition valid_settings :: "configuration \<Rightarrow> bool" where
  "valid_settings c \<longleftrightarrow> 0 < sint (samplingIntervalMin c) \<and> sint (samplingIntervalMin c) \<le> sint (samplingIntervalMax c) \<and>
     0 < sint (maxFramesToCapture c) \<and> sint (maxFramesToCapture c) < 2048"

text \<open>
  The strings: the paths and the agent's host and port, nothing else, on the heap and without sharing but that
  of one path by both configurations.
\<close>

definition wf_texts :: "profiler \<Rightarrow> bool" where
  "wf_texts p \<longleftrightarrow>
     dom (map_of (texts p)) = set_option (logFilePath (conf p)) \<union> owned (liveConf p) \<and>
     set_option (host (liveConf p)) \<inter> set_option (port (liveConf p)) = {} \<and>
     (set_option (logFilePath (conf p)) \<union> set_option (logFilePath (liveConf p))) \<inter>
       (set_option (host (liveConf p)) \<union> set_option (port (liveConf p))) = {} \<and>
     host (conf p) = None \<and> port (conf p) = None"

text \<open>
  Every reference is to the object in place, every object is built from \<open>conf\<close>, and the worker thread is there only
  while the profiler is running.
\<close>

definition wf_objects :: "profiler \<Rightarrow> bool" where
  "wf_objects p \<longleftrightarrow> (\<exists>w b h o1.
     writer_at p = Some w \<and> buffer_at p = Some b \<and> handler_at p = Some h \<and> processor_at p = Some o1 \<and>
     b_listener b = w_id w \<and> p_writer o1 = w_id w \<and> p_buffer o1 = b_id b \<and> p_handler o1 = h_id h \<and>
     w_file w \<in> set_option (text_at (texts p) (logFilePath (conf p))) \<and> logFile p = Some (w_file w) \<and>
     wf_queue (b_queue b) \<and> int (maxFrames (b_queue b)) = sint (maxFramesToCapture (conf p)) \<and>
     wf_handler (sint (samplingIntervalMin (conf p))) (sint (samplingIntervalMax (conf p))) (h_timer h) \<and>
     in_sync (h_timer h, timer p) \<and>
     interval (p_proc o1) = sint (processor_interval (samplingIntervalMin (conf p))) \<and>
     (worker (p_proc o1) \<longrightarrow> isRunning (p_proc o1) \<and> workerDone (p_proc o1)) \<and>
     w_id w < made p \<and> b_id b < made p \<and> h_id h < made p)"

definition wf_profiler :: "profiler \<Rightarrow> bool" where
  "wf_profiler p \<longleftrightarrow> valid_settings (liveConf p) \<and> valid_settings (conf p) \<and> wf_texts p \<and> wf_objects p \<and>
     (\<not> reloadConfig p \<longrightarrow> logFilePath (liveConf p) = logFilePath (conf p) \<and>
        maxFramesToCapture (liveConf p) = maxFramesToCapture (conf p) \<and>
        samplingIntervalMin (liveConf p) = samplingIntervalMin (conf p) \<and>
        samplingIntervalMax (liveConf p) = samplingIntervalMax (conf p))"

text \<open>What the system is documented to do.\<close>

definition system_ok :: "system \<Rightarrow> bool" where
  "system_ok E \<longleftrightarrow> malloc_spec (alloc E) \<and> (\<forall>n i. 0 \<le> rand E n i) \<and> getpid E < 10 ^ 10 \<and> (\<forall>n. epochMillis E n < 10 ^ 19)"

lemma length_show_nat: "n < 10 ^ k \<Longrightarrow> 0 < k \<Longrightarrow> length (show_nat n) \<le> k"
proof (induction n arbitrary: k rule: show_nat.induct)
  case (1 n)
  show ?case
  proof (cases "n < 10")
    case True
    then show ?thesis using "1.prems" by (subst show_nat.simps) simp
  next
    case False
    obtain j where j: "k = Suc j" using "1.prems"(2) by (cases k) auto
    then have "0 < j" using "1.prems"(1) False by (cases j) auto
    note j = j this
    then have "n div 10 < 10 ^ j" using "1.prems" by (simp add: less_mult_imp_div_less)
    then show ?thesis using "1.IH"[of j] False j by (subst show_nat.simps) simp
  qed
qed

lemma length_log_name: "system_ok E \<Longrightarrow> length (log_name E n) < 2 ^ 62"
  using length_show_nat[of "getpid E" 10] length_show_nat[of "epochMillis E n" 19]
  by (auto simp: log_name_def system_ok_def intro: order.strict_trans1[of _ "38 :: nat"])

lemma copy_text: "length s < 2 ^ 62 \<Longrightarrow> safe_copy_string f s 0 None h = Inr (f h, AList.update (f h) s h)"
  using copy_effect[of s "[]" s "[]" 0 None f h] by simp

lemma free_text: "p = None \<or> (\<exists>a. p = Some a \<and> a \<in> dom (map_of h)) \<Longrightarrow>
    \<exists>h'. safe_free_string p h = Inr h' \<and> map_of h' = map_of h |` (- set_option p)"
  by (auto simp: safe_free_string_def delete_conv' restrict_map_def fun_eq_iff split: option.split)

lemma system_okD:
  assumes "system_ok E"
  shows "malloc_spec (alloc E)" and "0 \<le> rand E n i"
  using assms by (simp_all add: system_ok_def)

lemma configure_log_ok:
  assumes "system_ok E" and "wf_texts p" and "logFilePath (conf p) = None \<or> logFilePath (conf p) \<noteq> logFilePath (liveConf p)"
  shows "\<exists>a h w. configure_log E p = Inr (p\<lparr>conf := (conf p)\<lparr>logFilePath := Some a\<rparr>,
      liveConf := (liveConf p)\<lparr>logFilePath := Some a\<rparr>, texts := h, logFile := Some (w_file w),
      writer_at := Some w, made := made p + 1\<rparr>) \<and>
    wf_texts (p\<lparr>conf := (conf p)\<lparr>logFilePath := Some a\<rparr>, liveConf := (liveConf p)\<lparr>logFilePath := Some a\<rparr>, texts := h\<rparr>) \<and>
    map_of h a = Some (w_file w) \<and> w_id w = made p"
proof -
  note wf = assms(2)[unfolded wf_texts_def owned_def]
  have "logFilePath (conf p) = None \<or> (\<exists>a. logFilePath (conf p) = Some a \<and> a \<in> dom (map_of (texts p)))"
    using wf by (cases "logFilePath (conf p)") auto
  from free_text[OF this] obtain h where h: "safe_free_string (logFilePath (conf p)) (texts p) = Inr h"
    "map_of h = map_of (texts p) |` (- set_option (logFilePath (conf p)))" by blast
  show ?thesis
  proof (cases "logFilePath (liveConf p)")
    case None
    let ?a = "alloc E h" and ?n = "log_name E (made p)"
    have fresh: "map_of h ?a = None" using system_okD(1)[OF assms(1)] by simp
    have cp: "safe_copy_string (alloc E) ?n 0 None h = Inr (?a, AList.update ?a ?n h)"
      by (rule copy_text[OF length_log_name[OF assms(1)]])
    have keep: "set_option (host (liveConf p)) \<union> set_option (port (liveConf p)) \<subseteq> dom (map_of h)"
      using wf None by (auto simp: h(2))
    then have new: "?a \<notin> set_option (host (liveConf p)) \<union> set_option (port (liveConf p))" using fresh by blast
    have "dom (map_of (AList.update ?a ?n h)) = insert ?a (set_option (host (liveConf p)) \<union> set_option (port (liveConf p)))"
      using wf None by (auto simp: update_conv' h(2))
    then have "wf_texts (p\<lparr>conf := (conf p)\<lparr>logFilePath := Some ?a\<rparr>, liveConf := (liveConf p)\<lparr>logFilePath := Some ?a\<rparr>,
        texts := AList.update ?a ?n h\<rparr>)"
      using wf new by (auto simp: wf_texts_def owned_def)
    then show ?thesis
      using h(1) cp None
      by (intro exI[of _ ?a] exI[of _ "AList.update ?a ?n h"]
          exI[of _ "\<lparr>w_id = made p, w_file = ?n, w_log = new_log_writer (little_endian E)\<rparr>"])
        (simp add: configure_log_def update_conv')
  next
    case (Some l)
    then have "l \<in> dom (map_of (texts p))" "l \<notin> set_option (logFilePath (conf p))" using wf assms(3) by auto
    then obtain s where s: "map_of h l = Some s" by (auto simp: h(2) restrict_map_def)
    have "wf_texts (p\<lparr>conf := (conf p)\<lparr>logFilePath := Some l\<rparr>, liveConf := (liveConf p)\<lparr>logFilePath := Some l\<rparr>, texts := h\<rparr>)"
      using wf Some assms(3) by (auto simp: wf_texts_def owned_def h(2))
    then show ?thesis
      using h(1) s Some
      by (intro exI[of _ l] exI[of _ h] exI[of _ "\<lparr>w_id = made p, w_file = s, w_log = new_log_writer (little_endian E)\<rparr>"])
        (simp add: configure_log_def)
  qed
qed

subsection \<open>configure builds a consistent profiler\<close>

definition log_ready :: "profiler \<Rightarrow> bool" where
  "log_ready p \<longleftrightarrow> (\<exists>w. writer_at p = Some w \<and> w_id w < made p \<and> w_file w \<in> set_option (text_at (texts p) (logFilePath (conf p))) \<and>
     logFile p = Some (w_file w) \<and> logFilePath (conf p) = logFilePath (liveConf p))"

definition buffer_ready :: "profiler \<Rightarrow> bool" where
  "buffer_ready p \<longleftrightarrow> (\<exists>w b. writer_at p = Some w \<and> buffer_at p = Some b \<and> b_id b < made p \<and> b_listener b = w_id w \<and>
     wf_queue (b_queue b) \<and> int (maxFrames (b_queue b)) = sint (maxFramesToCapture (conf p)) \<and>
     maxFramesToCapture (conf p) = maxFramesToCapture (liveConf p))"

definition settings_applied :: "profiler \<Rightarrow> bool" where
  "settings_applied p \<longleftrightarrow> logFilePath (liveConf p) = logFilePath (conf p) \<and>
     maxFramesToCapture (liveConf p) = maxFramesToCapture (conf p) \<and>
     samplingIntervalMin (liveConf p) = samplingIntervalMin (conf p) \<and>
     samplingIntervalMax (liveConf p) = samplingIntervalMax (conf p)"

text \<open>What all stages leave alone.\<close>

definition same_world :: "profiler \<Rightarrow> profiler \<Rightarrow> bool" where
  "same_world p q \<longleftrightarrow> timer q = timer p \<and> sigprof q = sigprof p \<and> host (liveConf q) = host (liveConf p) \<and>
     port (liveConf q) = port (liveConf p) \<and> start (liveConf q) = start (liveConf p) \<and>
     maxFramesToCapture (liveConf q) = maxFramesToCapture (liveConf p) \<and>
     samplingIntervalMin (liveConf q) = samplingIntervalMin (liveConf p) \<and>
     samplingIntervalMax (liveConf q) = samplingIntervalMax (liveConf p) \<and>
     (\<forall>a s. logFilePath (liveConf p) = Some a \<longrightarrow> map_of (texts p) a = Some s \<longrightarrow>
        logFilePath (liveConf q) = Some a \<and> map_of (texts q) a = Some s)"

lemma same_world_refl [simp]: "same_world p p"
  by (simp add: same_world_def)

lemma same_world_trans: "same_world p q \<Longrightarrow> same_world q r \<Longrightarrow> same_world p r"
  by (auto simp: same_world_def)

lemma log_stage:
  assumes "system_ok E" and "wf_texts p" and "logFilePath (conf p) = None \<or> logFilePath (conf p) \<noteq> logFilePath (liveConf p)"
  shows "\<exists>q. configure_log E p = Inr q \<and> wf_texts q \<and> log_ready q \<and> same_world p q"
proof -
  obtain a h w where q: "configure_log E p = Inr (p\<lparr>conf := (conf p)\<lparr>logFilePath := Some a\<rparr>,
      liveConf := (liveConf p)\<lparr>logFilePath := Some a\<rparr>, texts := h, logFile := Some (w_file w),
      writer_at := Some w, made := made p + 1\<rparr>)"
    "wf_texts (p\<lparr>conf := (conf p)\<lparr>logFilePath := Some a\<rparr>, liveConf := (liveConf p)\<lparr>logFilePath := Some a\<rparr>, texts := h\<rparr>)"
    "map_of h a = Some (w_file w)" "w_id w = made p"
    using configure_log_ok[OF assms] by blast
  have "\<forall>l s. logFilePath (liveConf p) = Some l \<longrightarrow> map_of (texts p) l = Some s \<longrightarrow> a = l \<and> map_of h l = Some s"
  proof (intro allI impI)
    fix l s assume l: "logFilePath (liveConf p) = Some l" "map_of (texts p) l = Some s"
    obtain h1 where h1: "safe_free_string (logFilePath (conf p)) (texts p) = Inr h1"
      "map_of h1 = map_of (texts p) |` (- set_option (logFilePath (conf p)))"
      using free_text[of "logFilePath (conf p)" "texts p"] assms(2) unfolding wf_texts_def
      by (cases "logFilePath (conf p)") auto
    have "l \<notin> set_option (logFilePath (conf p))" using l(1) assms(3) by auto
    then have s: "map_of h1 l = Some s" using l(2) by (simp add: h1(2))
    have "configure_log E p = Inr (p\<lparr>conf := (conf p)\<lparr>logFilePath := Some l\<rparr>,
        liveConf := (liveConf p)\<lparr>logFilePath := Some l\<rparr>, texts := h1, logFile := Some s,
        writer_at := Some \<lparr>w_id = made p, w_file = s, w_log = new_log_writer (little_endian E)\<rparr>, made := made p + 1\<rparr>)"
      by (simp add: configure_log_def h1(1) l(1) s)
    then have "texts (p\<lparr>texts := h1\<rparr>) = texts (p\<lparr>texts := h\<rparr>)" "Some a = Some l"
      using q(1) by (auto dest: arg_cong[of _ _ texts] arg_cong[of _ _ "\<lambda>x. logFilePath (conf x)"])
    then show "a = l \<and> map_of h l = Some s" using s by simp
  qed
  then show ?thesis
    using q by (auto simp: wf_texts_def owned_def log_ready_def same_world_def text_at_def)
qed

lemma buffer_stage:
  assumes "valid_settings (liveConf p)" and "log_ready p"
  shows "\<exists>q. configure_buffer p = Inr q \<and> wf_texts q = wf_texts p \<and> log_ready q \<and> buffer_ready q \<and> same_world p q \<and>
    liveConf q = liveConf p"
proof -
  obtain w where w: "writer_at p = Some w" using assms(2) by (auto simp: log_ready_def)
  have n: "\<not> sint (maxFramesToCapture (liveConf p)) < 0" using assms(1) by (simp add: valid_settings_def)
  then show ?thesis
    using w assms(2) wf_new_queue[of "nat (sint (maxFramesToCapture (liveConf p)))"]
    by (auto simp: configure_buffer_def Let_def log_ready_def buffer_ready_def same_world_def wf_texts_def new_queue_def)
qed

lemma sampling_stage:
  assumes "system_ok E" and "valid_settings (liveConf p)" and "log_ready p" and "buffer_ready p"
  shows "\<exists>q. configure_sampling E p = Inr q \<and> wf_texts q = wf_texts p \<and> wf_objects q \<and> settings_applied q \<and>
    same_world p q \<and> liveConf q = liveConf p \<and> \<not> is_running q"
proof -
  let ?lo = "samplingIntervalMin (liveConf p)" and ?hi = "samplingIntervalMax (liveConf p)"
  obtain w b where wb: "writer_at p = Some w" "buffer_at p = Some b" "b_listener b = w_id w"
    "wf_queue (b_queue b)" "int (maxFrames (b_queue b)) = sint (maxFramesToCapture (conf p))"
    "maxFramesToCapture (conf p) = maxFramesToCapture (liveConf p)" "b_id b < made p"
    using assms(4) by (auto simp: buffer_ready_def)
  have "sint ?hi < 2 ^ 31" using sint_lt[of ?hi] by simp
  then obtain t where t: "new_signal_handler (rand E (made p)) (sint ?lo) (sint ?hi) = Inr t"
    "wf_handler (sint ?lo) (sint ?hi) t" "currentInterval t = -1"
    using new_signal_handler_ok[of "rand E (made p)" "sint ?lo" "sint ?hi"] system_okD(2)[OF assms(1)] assms(2)
    by (auto simp: valid_settings_def)
  let ?q = "p\<lparr>conf := (conf p)\<lparr>samplingIntervalMin := ?lo, samplingIntervalMax := ?hi\<rparr>,
      handler_at := Some \<lparr>h_id = made p, h_timer = t\<rparr>,
      processor_at := Some \<lparr>p_writer = w_id w, p_buffer = b_id b, p_handler = made p,
        p_proc = new_processor (sint (processor_interval ?lo))\<rparr>, made := made p + 1\<rparr>"
  have "configure_sampling E p = Inr ?q" using t(1) wb(1,2) by (simp add: configure_sampling_def Let_def)
  moreover have "wf_objects ?q"
    using wb t(2,3) assms(3) by (auto simp: wf_objects_def log_ready_def in_sync_def new_processor_def)
  moreover have "settings_applied ?q" using wb(6) assms(3) by (auto simp: settings_applied_def log_ready_def)
  ultimately show ?thesis
    by (intro exI[of _ ?q]) (simp add: same_world_def wf_texts_def is_running_def new_processor_def)
qed

text \<open>The stages in a row; a stage that is not needed leaves the objects of the earlier ones in place.\<close>

definition configurable :: "profiler \<Rightarrow> bool" where
  "configurable p \<longleftrightarrow> valid_settings (liveConf p) \<and> wf_texts p \<and> \<not> is_running p \<and>
     (processor_at p = None \<and> logFilePath (conf p) = None \<or> wf_objects p)"

lemma ready_objects:
  assumes "wf_objects p"
  shows "processor_at p \<noteq> None" and "logFilePath (conf p) = logFilePath (liveConf p) \<Longrightarrow> log_ready p"
    and "maxFramesToCapture (conf p) = maxFramesToCapture (liveConf p) \<Longrightarrow> buffer_ready p"
  using assms by (auto simp: wf_objects_def log_ready_def buffer_ready_def)

lemma valid_settings_cong:
  "same_world p q \<Longrightarrow> valid_settings (liveConf q) = valid_settings (liveConf p)"
  "settings_applied q \<Longrightarrow> valid_settings (conf q) = valid_settings (liveConf q)"
  by (auto simp: same_world_def valid_settings_def settings_applied_def)

lemma configure_ok:
  assumes "system_ok E" and "configurable p"
  shows "\<exists>q. configure E p = Inr q \<and> wf_profiler q \<and> settings_applied q \<and> \<not> reloadConfig q \<and> \<not> is_running q \<and>
    same_world p q"
proof -
  define n1 where "n1 \<longleftrightarrow> processor_at p = None \<or> logFilePath (conf p) \<noteq> logFilePath (liveConf p)"
  have p: "valid_settings (liveConf p)" "wf_texts p" "\<not> is_running p"
    "processor_at p = None \<and> logFilePath (conf p) = None \<or> wf_objects p"
    using assms(2) by (simp_all add: configurable_def)
  obtain p1 where p1: "(if n1 then configure_log E p else Inr p) = Inr p1" "wf_texts p1" "log_ready p1" "same_world p p1"
    "\<not> n1 \<longrightarrow> p1 = p \<and> wf_objects p"
  proof (cases n1)
    case True
    then have "logFilePath (conf p) = None \<or> logFilePath (conf p) \<noteq> logFilePath (liveConf p)"
      using p(4) ready_objects(1)[of p] by (auto simp: n1_def)
    from log_stage[OF assms(1) p(2) this] show ?thesis using that True by auto
  next
    case False
    then have "wf_objects p" "log_ready p" using p(4) ready_objects(2)[of p] by (auto simp: n1_def)
    then show ?thesis using that[of p] False p(2) by simp
  qed
  define n2 where "n2 \<longleftrightarrow> n1 \<or> maxFramesToCapture (conf p1) \<noteq> maxFramesToCapture (liveConf p1)"
  have live1: "valid_settings (liveConf p1)" using valid_settings_cong(1)[OF p1(4)] p(1) by simp
  obtain p2 where p2: "(if n2 then configure_buffer p1 else Inr p1) = Inr p2" "wf_texts p2" "log_ready p2" "buffer_ready p2"
    "same_world p1 p2" "\<not> n2 \<longrightarrow> p2 = p \<and> wf_objects p"
  proof (cases n2)
    case True
    from buffer_stage[OF live1 p1(3)] show ?thesis using that True p1(2) by auto
  next
    case False
    then have "p1 = p" "buffer_ready p" using p1(5) ready_objects(3)[of p] by (auto simp: n2_def)
    then show ?thesis using that[of p1] False p1 by (simp add: n2_def)
  qed
  define n3 where "n3 \<longleftrightarrow> n2 \<or> samplingIntervalMin (conf p2) \<noteq> samplingIntervalMin (liveConf p2) \<or>
      samplingIntervalMax (conf p2) \<noteq> samplingIntervalMax (liveConf p2)"
  have live2: "valid_settings (liveConf p2)" using valid_settings_cong(1)[OF p2(5)] live1 by simp
  obtain p3 where p3: "(if n3 then configure_sampling E p2 else Inr p2) = Inr p3" "wf_texts p3" "wf_objects p3"
    "settings_applied p3" "same_world p2 p3" "\<not> is_running p3"
  proof (cases n3)
    case True
    from sampling_stage[OF assms(1) live2 p2(3,4)] show ?thesis using that True p2(2) by auto
  next
    case False
    then have "p2 = p" "wf_objects p" using p2(6) by (simp_all add: n3_def)
    moreover have "settings_applied p2"
      using False p2(3,4) by (auto simp: n3_def settings_applied_def log_ready_def buffer_ready_def)
    ultimately show ?thesis using that[of p2] False p2(2) p(3) by simp
  qed
  let ?q = "p3\<lparr>reloadConfig := False\<rparr>"
  have "configure E p = Inr ?q"
    unfolding configure_def Let_def
    by (simp only: p1(1) p2(1) p3(1) and_then.simps flip: n1_def n2_def n3_def)
  moreover have sw: "same_world p p3" using p1(4) p2(5) p3(5) same_world_trans by blast
  moreover have "valid_settings (liveConf p3)" "valid_settings (conf p3)"
    using valid_settings_cong(1)[OF sw] valid_settings_cong(2)[OF p3(4)] p(1) by simp_all
  ultimately show ?thesis
    using p3(2-4,6)
    by (intro exI[of _ ?q]) (auto simp: wf_profiler_def settings_applied_def same_world_def wf_texts_def wf_objects_def is_running_def)
qed

subsection \<open>Every operation keeps a profiler well-formed\<close>

lemma wf_configurable: "wf_profiler p \<Longrightarrow> \<not> is_running p \<Longrightarrow> configurable p"
  by (simp add: configurable_def wf_profiler_def)

lemma positive_interval_pos: "0 < sint (positive_interval i)"
  by (simp add: positive_interval_def DEFAULT_SAMPLING_INTERVAL_def)

lemma setters_keep [simp]:
  "processor_at (setSamplingInterval a b p) = processor_at p" "processor_at (setMaxFramesToCapture n p) = processor_at p"
  "conf (setSamplingInterval a b p) = conf p" "conf (setMaxFramesToCapture n p) = conf p"
  "texts (setSamplingInterval a b p) = texts p" "texts (setMaxFramesToCapture n p) = texts p"
  "samplingIntervalMin (liveConf (setMaxFramesToCapture n p)) = samplingIntervalMin (liveConf p)"
  "samplingIntervalMax (liveConf (setMaxFramesToCapture n p)) = samplingIntervalMax (liveConf p)"
  "owned (liveConf (setSamplingInterval a b p)) = owned (liveConf p)" "owned (liveConf (setMaxFramesToCapture n p)) = owned (liveConf p)"
  by (simp_all add: setSamplingInterval_def setMaxFramesToCapture_def Let_def owned_def)

lemma setters_running [simp]:
  "is_running (setSamplingInterval a b p) = is_running p" "is_running (setMaxFramesToCapture n p) = is_running p"
  by (simp_all add: is_running_def)

lemma setSamplingInterval_live:
  "\<not> is_running p \<Longrightarrow> 0 < sint (samplingIntervalMin (liveConf (setSamplingInterval a b p))) \<and>
    sint (samplingIntervalMin (liveConf (setSamplingInterval a b p))) \<le> sint (samplingIntervalMax (liveConf (setSamplingInterval a b p)))"
  using positive_interval_pos[of a] positive_interval_pos[of b] by (simp add: setSamplingInterval_def Let_def)

lemma setMaxFrames_live:
  "\<not> is_running p \<Longrightarrow> 0 < sint (maxFramesToCapture (liveConf (setMaxFramesToCapture n p))) \<and>
    sint (maxFramesToCapture (liveConf (setMaxFramesToCapture n p))) < 2048"
  by (simp add: setMaxFramesToCapture_def DEFAULT_MAX_FRAMES_TO_CAPTURE_def MAX_FRAMES_TO_CAPTURE_def)

lemma checked_settings:
  assumes "\<not> is_running p"
  shows "valid_settings (liveConf (setMaxFramesToCapture n (setSamplingInterval a b p)))"
  using setSamplingInterval_live[OF assms, of a b] setMaxFrames_live[of "setSamplingInterval a b p" n] assms
  by (simp add: valid_settings_def)

lemma setSamplingInterval_wf: "wf_profiler p \<Longrightarrow> wf_profiler (setSamplingInterval a b p)"
  using positive_interval_pos[of a] positive_interval_pos[of b]
  by (cases "is_running p")
    (auto simp: setSamplingInterval_def Let_def wf_profiler_def valid_settings_def wf_texts_def wf_objects_def owned_def)

lemma setMaxFrames_wf: "wf_profiler p \<Longrightarrow> wf_profiler (setMaxFramesToCapture n p)"
  by (cases "is_running p")
    (auto simp: setMaxFramesToCapture_def wf_profiler_def valid_settings_def wf_texts_def wf_objects_def owned_def
      DEFAULT_MAX_FRAMES_TO_CAPTURE_def MAX_FRAMES_TO_CAPTURE_def)

text \<open>A path is replaced: the old copy is freed unless it is still the path of the log.\<close>

lemma setFilePath_wf:
  assumes "wf_profiler p" and "malloc_spec (alloc E)" and "\<forall>s. path = Some s \<longrightarrow> length s < 2 ^ 62"
  shows "\<exists>q. setFilePath E path p = Inr q \<and> wf_profiler q \<and>
    (\<not> is_running p \<longrightarrow> text_at (texts q) (logFilePath (liveConf q)) = path)"
proof (cases "is_running p")
  case True
  then show ?thesis using assms(1) by (simp add: setFilePath_def)
next
  case False
  let ?live = "logFilePath (liveConf p)" and ?old = "logFilePath (conf p)"
  let ?hp = "set_option (host (liveConf p)) \<union> set_option (port (liveConf p))"
  have wf: "wf_texts p" "wf_objects p" using assms(1) by (simp_all add: wf_profiler_def)
  note W = wf(1)[unfolded wf_texts_def owned_def]
  obtain w where w: "w_file w \<in> set_option (text_at (texts p) ?old)" "writer_at p = Some w" "logFile p = Some (w_file w)"
    using wf(2) by (auto simp: wf_objects_def)
  obtain h where h: "(if ?live \<noteq> None \<and> ?live \<noteq> ?old then safe_free_string ?live (texts p) else Inr (texts p)) = Inr h"
    "dom (map_of h) = set_option ?old \<union> ?hp" "\<forall>a\<in>set_option ?old. map_of h a = map_of (texts p) a"
  proof (cases "?live \<noteq> None \<and> ?live \<noteq> ?old")
    case True
    then obtain l where l: "?live = Some l" "?old \<noteq> Some l" by auto
    then have "l \<in> dom (map_of (texts p))" using W by auto
    then obtain h where h: "safe_free_string ?live (texts p) = Inr h" "map_of h = map_of (texts p) |` (- {l})"
      using free_text[of ?live "texts p"] l(1) by auto
    moreover have "dom (map_of h) = set_option ?old \<union> ?hp" using W l by (auto simp: h(2))
    moreover have "\<forall>a\<in>set_option ?old. map_of h a = map_of (texts p) a" using l(2) by (auto simp: h(2) restrict_map_def)
    ultimately show ?thesis using that[of h] True by simp
  next
    case False
    then have "dom (map_of (texts p)) = set_option ?old \<union> ?hp" using W by auto
    then show ?thesis using that[OF if_not_P[OF False]] by simp
  qed
  have keep: "wf_profiler (p\<lparr>liveConf := (liveConf p)\<lparr>logFilePath := path'\<rparr>, texts := h1, reloadConfig := True\<rparr>)"
    if "dom (map_of h1) = set_option ?old \<union> ?hp \<union> set_option path'" "set_option path' \<inter> (set_option ?old \<union> ?hp) = {}"
      "\<forall>a\<in>set_option ?old. map_of h1 a = map_of (texts p) a" for path' h1
  proof -
    have "text_at h1 ?old = text_at (texts p) ?old" using that(3) by (cases ?old) (simp_all add: text_at_def)
    moreover have "wf_texts (p\<lparr>liveConf := (liveConf p)\<lparr>logFilePath := path'\<rparr>, texts := h1, reloadConfig := True\<rparr>)"
      using W that(1,2) unfolding wf_texts_def owned_def by (simp add: Un_ac) blast
    ultimately show ?thesis
      using assms(1) w by (auto simp: wf_profiler_def valid_settings_def wf_objects_def)
  qed
  show ?thesis
  proof (cases path)
    case None
    then show ?thesis using keep[of h None] h False by (simp add: setFilePath_def text_at_def)
  next
    case (Some s)
    have fresh: "map_of h (alloc E h) = None" using assms(2) by simp
    have "safe_copy_string (alloc E) s 0 None h = Inr (alloc E h, AList.update (alloc E h) s h)"
      using assms(3) Some by (intro copy_text) simp
    moreover have "wf_profiler (p\<lparr>liveConf := (liveConf p)\<lparr>logFilePath := Some (alloc E h)\<rparr>,
        texts := AList.update (alloc E h) s h, reloadConfig := True\<rparr>)"
      using fresh h(2,3) by (intro keep) (auto simp: update_conv')
    ultimately show ?thesis using h(1) False Some by (simp add: setFilePath_def text_at_def update_conv')
  qed
qed

lemma start_wf:
  assumes "system_ok E" and "wf_profiler p" and "\<not> is_running p"
  shows "\<exists>res q. start_profiler E agent_ok p = Inr (res, q) \<and> wf_profiler q \<and> settings_applied q \<and> is_running q \<and>
    sigprof q = Sig_Profiler \<and> (\<exists>o1. processor_at q = Some o1 \<and> worker (p_proc o1) = agent_ok) \<and>
    (res \<longrightarrow> sint (samplingIntervalMin (liveConf q)) \<le> micros (itimer (timer q)) \<and>
      micros (itimer (timer q)) \<le> sint (samplingIntervalMax (liveConf q))) \<and>
    (\<not> res \<longrightarrow> itimer (timer q) = itimer (timer p))"
proof -
  obtain p1 where p1: "(if reloadConfig p then configure E p else Inr p) = Inr p1" "wf_profiler p1" "settings_applied p1"
    "\<not> is_running p1" "timer p1 = timer p" "\<not> reloadConfig p1"
  proof (cases "reloadConfig p")
    case True
    from configure_ok[OF assms(1) wf_configurable[OF assms(2,3)]] show ?thesis
      using that True by (auto simp: same_world_def)
  next
    case False
    then have "settings_applied p" using assms(2) by (simp add: wf_profiler_def settings_applied_def)
    then show ?thesis using that[of p] False assms(2,3) by simp
  qed
  obtain h o1 where o: "handler_at p1 = Some h" "processor_at p1 = Some o1"
    "wf_handler (sint (samplingIntervalMin (conf p1))) (sint (samplingIntervalMax (conf p1))) (h_timer h)"
    "in_sync (h_timer h, timer p1)"
    using p1(2) by (auto simp: wf_profiler_def wf_objects_def)
  have pos: "0 \<le> sint (samplingIntervalMin (conf p1))" using p1(2) by (simp add: wf_profiler_def valid_settings_def)
  obtain res h' k' where u: "updateSigprofInterval (setitimer_ok E) (h_timer h, timer p1) = Inr (res, h', k')"
    "wf_handler (sint (samplingIntervalMin (conf p1))) (sint (samplingIntervalMax (conf p1))) h'" "in_sync (h', k')"
    "res \<longrightarrow> sint (samplingIntervalMin (conf p1)) \<le> micros (itimer k') \<and> micros (itimer k') \<le> sint (samplingIntervalMax (conf p1))"
    "\<not> res \<longrightarrow> itimer k' = itimer (timer p1)"
    using updateSigprofInterval_effect[OF o(3) pos o(4)] by blast
  let ?q = "p1\<lparr>sigprof := Sig_Profiler, processor_at := Some (o1\<lparr>p_proc := start_processor agent_ok (p_proc o1)\<rparr>),
      handler_at := Some (h\<lparr>h_timer := h'\<rparr>), timer := k'\<rparr>"
  have "start_profiler E agent_ok p = Inr (res, ?q)"
    unfolding start_profiler_def p1(1) using assms(3) o(1,2) u(1) by simp
  moreover have "wf_profiler ?q"
    using p1(2) o u(2,3) by (auto simp: wf_profiler_def wf_texts_def wf_objects_def start_processor_def)
  moreover have "settings_applied ?q" "is_running ?q" "\<exists>o1. processor_at ?q = Some o1 \<and> worker (p_proc o1) = agent_ok"
    using p1(3) by (simp_all add: settings_applied_def is_running_def start_processor_def)
  ultimately show ?thesis
    using u(4,5) p1(3,5) by (intro exI[of _ res] exI[of _ ?q]) (simp add: settings_applied_def)
qed

lemma await_worker_done: "await_worker sch q = Some q' \<Longrightarrow> worker q \<longrightarrow> workerDone q \<Longrightarrow> \<not> worker q'"
  by (induction sch arbitrary: q) (auto simp: Let_def worker_exit_def split: if_splits)

lemma await_worker_interval: "await_worker sch q = Some q' \<Longrightarrow> interval q' = interval q"
  by (induction sch arbitrary: q) (auto simp: Let_def worker_exit_def split: if_splits)

lemma stop_wf:
  assumes "wf_profiler p" and "stop_profiler E sch p = Some r"
  shows "\<exists>q. r = Inr q \<and> wf_profiler q \<and> liveConf q = liveConf p \<and>
    (is_running p \<longrightarrow> sigprof q = Sig_Ignore \<and> ((\<forall>i. setitimer_ok E i) \<longrightarrow> micros (itimer (timer q)) = 0))"
proof (cases "is_running p")
  case False
  then show ?thesis using assms by (intro exI[of _ p]) (auto simp: stop_profiler_def)
next
  case True
  obtain h o1 where o: "handler_at p = Some h" "processor_at p = Some o1"
    "wf_handler (sint (samplingIntervalMin (conf p))) (sint (samplingIntervalMax (conf p))) (h_timer h)"
    "in_sync (h_timer h, timer p)"
    using assms(1) by (auto simp: wf_profiler_def wf_objects_def)
  obtain res h' k' where u: "update_to (setitimer_ok E) 0 (h_timer h, timer p) = (res, h', k')" by (metis surj_pair)
  note e = update_to_effect[OF order_refl o(4) u]
  obtain pr where pr: "stop_processor sch (p_proc o1) = Some pr"
    using assms(2) True o(1,2) u by (cases "stop_processor sch (p_proc o1)") (auto simp: stop_profiler_def stopSigprof_def)
  let ?q = "p\<lparr>sigprof := Sig_Ignore, processor_at := Some (o1\<lparr>p_proc := pr\<rparr>), handler_at := Some (h\<lparr>h_timer := h'\<rparr>), timer := k'\<rparr>"
  have "r = Inr ?q" using assms(2) True o(1,2) u pr by (simp add: stop_profiler_def stopSigprof_def)
  moreover have "interval pr = interval (p_proc o1)" using await_worker_interval pr by (fastforce simp: stop_processor_def)
  moreover have "\<not> worker pr"
  proof -
    have "worker (p_proc o1) \<longrightarrow> workerDone (p_proc o1)" using assms(1) o(2) by (auto simp: wf_profiler_def wf_objects_def)
    then show ?thesis using await_worker_done[of sch "(p_proc o1)\<lparr>isRunning := False\<rparr>" pr] pr by (simp add: stop_processor_def)
  qed
  moreover have "wf_handler lo hi h'" if "wf_handler lo hi (h_timer h)" for lo hi
    using that e(4) by (simp add: wf_handler_def)
  moreover have "res" if "\<forall>i. setitimer_ok E i" using u that by (auto simp: update_to_def Let_def split: if_splits)
  ultimately show ?thesis
    using assms(1) o e(1,2) by (auto simp: wf_profiler_def wf_texts_def wf_objects_def)
qed

subsection \<open>Any sequence of calls\<close>

text \<open>The calls of the API, and samples that the signal handler puts into the queue.\<close>

datatype call =
    Set_Path "string option"
  | Set_Interval jint jint
  | Set_Frames jint
  | Start bool
  | Stop "bool list"
  | Sampled "call_frame list call_trace" "addr option"

fun run_call :: "system \<Rightarrow> call \<Rightarrow> profiler \<Rightarrow> profiler result option" where
  "run_call E (Set_Path s) p = Some (setFilePath E s p)"
| "run_call E (Set_Interval a b) p = Some (Inr (setSamplingInterval a b p))"
| "run_call E (Set_Frames n) p = Some (Inr (setMaxFramesToCapture n p))"
| "run_call E (Start agent_ok) p = Some (and_then (start_profiler E agent_ok p) (\<lambda>(res, q). Inr q))"
| "run_call E (Stop sch) p = stop_profiler E sch p"
| "run_call E (Sampled t tb) p =
     (case buffer_at p of
        None \<Rightarrow> Some (Inl Null_Deref)
      | Some b \<Rightarrow> Some (and_then (push t tb (b_queue b)) (\<lambda>(res, q). Inr (p\<lparr>buffer_at := Some (b\<lparr>b_queue := q\<rparr>)\<rparr>))))"

fun run_calls :: "system \<Rightarrow> call list \<Rightarrow> profiler \<Rightarrow> profiler result option" where
  "run_calls E [] p = Some (Inr p)"
| "run_calls E (x # xs) p =
     (case run_call E x p of
        None \<Rightarrow> None
      | Some (Inl e) \<Rightarrow> Some (Inl e)
      | Some (Inr q) \<Rightarrow> run_calls E xs q)"

text \<open>
  Paths are not absurdly long, and a sample has room in the frames of the queue (the signal handler takes it into an
  array of that size).
\<close>

fun call_ok :: "profiler \<Rightarrow> call \<Rightarrow> bool" where
  "call_ok p (Set_Path s) = (\<forall>t. s = Some t \<longrightarrow> length t < 2 ^ 62)"
| "call_ok p (Sampled t tb) = (\<forall>b. buffer_at p = Some b \<longrightarrow> fits (b_queue b) t)"
| "call_ok p _ = True"

fun calls_ok :: "system \<Rightarrow> call list \<Rightarrow> profiler \<Rightarrow> bool" where
  "calls_ok E [] p = True"
| "calls_ok E (x # xs) p = (call_ok p x \<and>
     (case run_call E x p of Some (Inr q) \<Rightarrow> calls_ok E xs q | _ \<Rightarrow> True))"

lemma push_wf:
  assumes "wf_queue q" and "fits q t"
  shows "\<exists>res q'. push t tb q = Inr (res, q') \<and> wf_queue q' \<and> maxFrames q' = maxFrames q"
proof (cases "used q < Size")
  case True
  then show ?thesis using push_room[OF wf_queueD(1)[OF assms(1)] True assms(2)] wf_stored[OF assms(1) True assms(2)]
    by (intro exI[of _ True] exI[of _ "stored t tb q"]) simp
next
  case False
  then have "used q = Size" using used_le_Size[OF wf_queueD(1)[OF assms(1)]] by simp
  then show ?thesis using push_full[OF wf_queueD(1)[OF assms(1)]] assms(1)
    by (intro exI[of _ False] exI[of _ q]) simp
qed

lemma run_call_wf:
  assumes "system_ok E" and "wf_profiler p" and "call_ok p x" and "run_call E x p = Some r"
  shows "\<exists>q. r = Inr q \<and> wf_profiler q"
proof (cases x)
  case (Set_Path s)
  then show ?thesis using setFilePath_wf[OF assms(2) system_okD(1)[OF assms(1)], of s] assms(3,4) by auto
next
  case (Set_Interval a b)
  then show ?thesis using setSamplingInterval_wf[OF assms(2)] assms(4) by auto
next
  case (Set_Frames n)
  then show ?thesis using setMaxFrames_wf[OF assms(2)] assms(4) by auto
next
  case (Start agent_ok)
  show ?thesis
  proof (cases "is_running p")
    case True
    then show ?thesis using Start assms(2,4) by (auto simp: start_profiler_def)
  next
    case False
    then show ?thesis using start_wf[OF assms(1,2) False, of agent_ok] Start assms(4) by auto
  qed
next
  case (Stop sch)
  then show ?thesis using stop_wf[OF assms(2), of E sch r] assms(4) by auto
next
  case (Sampled t tb)
  obtain b where b: "buffer_at p = Some b" "wf_queue (b_queue b)" using assms(2) by (auto simp: wf_profiler_def wf_objects_def)
  then obtain res q where q: "push t tb (b_queue b) = Inr (res, q)" "wf_queue q" "maxFrames q = maxFrames (b_queue b)"
    using push_wf[of "b_queue b" t tb] assms(3) Sampled by auto
  have "r = Inr (p\<lparr>buffer_at := Some (b\<lparr>b_queue := q\<rparr>)\<rparr>)" using assms(4) Sampled b(1) q(1) by simp
  moreover have "wf_profiler (p\<lparr>buffer_at := Some (b\<lparr>b_queue := q\<rparr>)\<rparr>)"
    using assms(2) b q by (auto simp: wf_profiler_def wf_texts_def wf_objects_def)
  ultimately show ?thesis by blast
qed

lemma run_calls_wf:
  assumes "system_ok E" and "wf_profiler p" and "calls_ok E xs p" and "run_calls E xs p = Some r"
  shows "\<exists>q. r = Inr q \<and> wf_profiler q"
  using assms(2-4)
proof (induction xs arbitrary: p)
  case (Cons x xs)
  obtain r1 where r1: "run_call E x p = Some r1" using Cons.prems(3) by (cases "run_call E x p") auto
  moreover obtain q where "r1 = Inr q" "wf_profiler q"
    using run_call_wf[OF assms(1) Cons.prems(1) _ r1] Cons.prems(2) by auto
  ultimately show ?case using Cons.IH[of q] Cons.prems(2,3) by simp
qed auto

lemma new_profiler_wf:
  assumes "system_ok E" and "wf_options (c, h)"
  shows "\<exists>p. new_profiler E (c, h) = Inr p \<and> wf_profiler p \<and> settings_applied p \<and> \<not> is_running p \<and>
    host (liveConf p) = host c \<and> port (liveConf p) = port c \<and> start (liveConf p) = start c"
proof -
  let ?start = "\<lparr>liveConf = c, conf = new_configuration, reloadConfig = False, logFile = None, writer_at = None,
      buffer_at = None, handler_at = None, processor_at = None, made = 0, texts = h,
      timer = \<lparr>itimer = (0, 0), calls = 0\<rparr>, sigprof = Sig_Default\<rparr>"
  let ?p = "setMaxFramesToCapture (maxFramesToCapture c) (setSamplingInterval (samplingIntervalMin c) (samplingIntervalMax c) ?start)"
  have r0: "\<not> is_running ?start" by (simp add: is_running_def)
  have "valid_settings (liveConf ?p)" by (rule checked_settings[OF r0])
  moreover have "\<not> is_running ?p" and "processor_at ?p = None \<and> logFilePath (conf ?p) = None"
    using r0 by (simp_all add: new_configuration_def)
  moreover have "wf_texts ?p"
  proof -
    have "logFilePath (liveConf ?p) = logFilePath c" "host (liveConf ?p) = host c" "port (liveConf ?p) = port c"
      by (simp_all add: setSamplingInterval_def setMaxFramesToCapture_def Let_def)
    then show ?thesis using assms(2) by (auto simp: wf_options_def wf_texts_def new_configuration_def owned_def)
  qed
  ultimately have "configurable ?p" by (simp add: configurable_def)
  moreover have "host (liveConf ?p) = host c \<and> port (liveConf ?p) = port c \<and> start (liveConf ?p) = start c"
    by (simp add: setSamplingInterval_def setMaxFramesToCapture_def Let_def)
  ultimately show ?thesis using configure_ok[OF assms(1), of ?p] by (auto simp: new_profiler_def same_world_def)
qed

text \<open>The destructors: the profiler's strings and the agent's are freed, each once.\<close>

lemma delete_all:
  assumes "wf_profiler p" and "\<not> is_running p"
  shows "\<exists>h1 h2. delete_profiler p = Inr h1 \<and> delete_configuration (liveConf p) h1 = Inr h2 \<and> map_of h2 = Map.empty"
proof -
  note W = assms(1)[unfolded wf_profiler_def wf_texts_def owned_def]
  let ?old = "if logFilePath (liveConf p) = logFilePath (conf p) then None else logFilePath (conf p)"
  have "?old = None \<or> (\<exists>a. ?old = Some a \<and> a \<in> dom (map_of (texts p)))"
    using W by (cases "logFilePath (conf p)") auto
  from free_text[OF this] obtain h1 where h1: "safe_free_string ?old (texts p) = Inr h1"
    "map_of h1 = map_of (texts p) |` (- set_option ?old)" by blast
  have "\<not> (\<exists>o1. processor_at p = Some o1 \<and> worker (p_proc o1))"
    using assms by (auto simp: wf_profiler_def wf_objects_def is_running_def)
  then have d: "delete_profiler p = Inr h1"
    using W h1(1) by (auto simp: delete_profiler_def delete_configuration_def safe_free_string_def split: option.split)
  have dom1: "dom (map_of h1) = owned (liveConf p)" using W by (auto simp: h1(2) owned_def)
  have free: "\<exists>h'. safe_free_string x h = Inr h' \<and> dom (map_of h') = dom (map_of h) - set_option x"
    if "set_option x \<subseteq> dom (map_of h)" for x h
    using free_text[of x h] that by (cases x) auto
  have "set_option (logFilePath (liveConf p)) \<subseteq> dom (map_of h1)" by (auto simp: dom1 owned_def)
  then obtain h2 where h2: "safe_free_string (logFilePath (liveConf p)) h1 = Inr h2"
    "dom (map_of h2) = owned (liveConf p) - set_option (logFilePath (liveConf p))"
    using free[of "logFilePath (liveConf p)" h1] dom1 by auto
  have dom2: "dom (map_of h2) = set_option (host (liveConf p)) \<union> set_option (port (liveConf p))"
    using W by (auto simp: h2(2) owned_def)
  then obtain h3 where h3: "safe_free_string (host (liveConf p)) h2 = Inr h3"
    "dom (map_of h3) = dom (map_of h2) - set_option (host (liveConf p))"
    using free[of "host (liveConf p)" h2] by auto
  have dom3: "dom (map_of h3) = set_option (port (liveConf p))" using W by (auto simp: h3(2) dom2)
  then obtain h4 where h4: "safe_free_string (port (liveConf p)) h3 = Inr h4" "dom (map_of h4) = {}"
    using free[of "port (liveConf p)" h3] by auto
  show ?thesis using d h2(1) h3(1) h4 by (intro exI[of _ h1] exI[of _ h4]) (simp add: delete_configuration_def)
qed

subsection \<open>Properties\<close>

text \<open>
  C3: The profiler built from any options survives any use. Whatever sequence of calls (setters, starts, stops that return) and samples
  follows the constructor, no operation faults: none frees a string twice or reads a freed one, follows a
  null pointer or overflows. Afterwards every reference between the objects is to the object in place, the objects are
  built from the current configuration, the settings are in range, and the two destructors free every
  string exactly once unless the profiler is still running.
\<close>

theorem profiler_never_faults:
  assumes "system_ok E" and "wf_options ch"
  shows "\<exists>p. new_profiler E ch = Inr p \<and> wf_profiler p \<and>
    (\<forall>xs r. calls_ok E xs p \<and> run_calls E xs p = Some r \<longrightarrow>
      (\<exists>q. r = Inr q \<and> wf_profiler q \<and>
        (\<not> is_running q \<longrightarrow>
          (\<exists>h1 h2. delete_profiler q = Inr h1 \<and> delete_configuration (liveConf q) h1 = Inr h2 \<and> map_of h2 = Map.empty))))"
proof -
  obtain c h where ch: "ch = (c, h)" by fastforce
  obtain p where p: "new_profiler E ch = Inr p" "wf_profiler p" using new_profiler_wf[OF assms(1), of c h] assms(2) ch by blast
  show ?thesis using p run_calls_wf[OF assms(1) p(2)] delete_all by (intro exI[of _ p]) blast
qed

definition example_system :: system where
  "example_system = \<lparr>alloc = first_free, rand = (\<lambda>n i. int i), epochMillis = (\<lambda>n. 1500000000000), getpid = 42,
     little_endian = True, setitimer_ok = (\<lambda>n. True)\<rparr>"

lemma example_system_ok: "system_ok example_system"
  by (simp add: system_ok_def example_system_def malloc_spec_first_free)

lemma wf_new_options: "wf_options (new_configuration, [])"
  by (simp add: wf_options_def new_configuration_def owned_def)

theorem profiler_never_faults_witness:
  "\<exists>p q. new_profiler example_system (new_configuration, []) = Inr p \<and>
     run_calls example_system [Set_Frames 5, Set_Path (Some ''a.hpl''), Start True] p = Some (Inr q) \<and> wf_profiler q"
proof -
  let ?xs = "[Set_Frames 5, Set_Path (Some ''a.hpl''), Start True]"
  obtain p where p: "new_profiler example_system (new_configuration, []) = Inr p" "wf_profiler p"
    "\<And>r. calls_ok example_system ?xs p \<Longrightarrow> run_calls example_system ?xs p = Some r \<Longrightarrow> \<exists>q. r = Inr q \<and> wf_profiler q"
    using profiler_never_faults[OF example_system_ok wf_new_options] by blast
  have "calls_ok example_system ?xs p" by (simp split: option.split sum.split)
  moreover have "run_calls example_system ?xs p \<noteq> None" by (simp split: option.split sum.split)
  ultimately show ?thesis using p by (cases "run_calls example_system ?xs p") blast+
qed



text \<open>\<open>sleep_for_millis\<close> multiplies in 32 bits.\<close>

definition sleep_micros :: "jint \<Rightarrow> u32" where
  "sleep_micros period = period * 1000"

lemma processor_interval_value:
  assumes "0 < sint m"
  shows "sint (processor_interval m) = max 1 (int Size * sint m div 2000)"
proof -
  have m: "sint m < 2 ^ 31" using sint_lt[of m] by simp
  let ?k = "int Size * sint m div 2000"
  have k: "0 \<le> ?k" "?k < 2 ^ 31" using assms m by (simp_all add: Size_def)
  have "uint (scast m :: u64) = sint m mod 2 ^ 64"
    by (simp only: scast_eq uint_word_of_int) simp
  also have "\<dots> = sint m" using assms m by (intro mod_pos_pos_trivial) simp_all
  finally have "uint (scast m :: u64) = sint m" .
  then have "uint (word_of_nat Size * scast m :: u64) = int Size * sint m"
    using assms m by (simp add: uint_word_ariths Size_def)
  then have "uint (word_of_nat Size * scast m div 1000 div 2 :: u64) = ?k"
    by (simp add: uint_div zdiv_zmult2_eq[symmetric])
  then have "(ucast (word_of_nat Size * scast m div 1000 div 2 :: u64) :: jint) = word_of_int ?k"
    by (metis of_int_uint ucast_eq)
  moreover have "sint (word_of_int ?k :: jint) = ?k"
    using k by (simp add: signed_of_int signed_take_bit_int_eq_self)
  ultimately have "processor_interval m = (if ?k > 0 then word_of_int ?k else 1)"
    by (simp add: processor_interval_def Let_def)
  then show ?thesis using k \<open>sint (word_of_int ?k :: jint) = ?k\<close> by auto
qed

text \<open>
  The worker wakes in time: for every sampling interval the setters accept, the interval of the processor is computed
  without overflow, as \<open>Size * min / 2000\<close> milliseconds but at least one, and a sleep is never longer
  than the time in which one thread, sampled once per interval, fills half of the queue (or than a millisecond). The
  multiplication that turns it into microseconds is exact up to a sampling interval of 8388608 microseconds.
\<close>

theorem worker_wakes_in_time:
  assumes "0 < sint m"
  shows "sint (processor_interval m) = max 1 (int Size * sint m div 2000) \<and>
    uint (sleep_micros (processor_interval m)) \<le> max 1000 (int Size * sint m div 2) \<and>
    (sint m \<le> 8388608 \<longrightarrow> uint (sleep_micros (processor_interval m)) = 1000 * sint (processor_interval m))"
proof -
  let ?p = "processor_interval m"
  note v = processor_interval_value[OF assms]
  then have pos: "0 < sint ?p" by simp
  have u: "uint ?p = sint ?p" using pos by (simp add: uint_sint take_bit_int_eq_self sint_lt order_less_le_trans[OF sint_lt])
  have prod: "uint (sleep_micros ?p) = (sint ?p * 1000) mod 2 ^ 32" by (simp add: sleep_micros_def uint_word_ariths u)
  have half: "x div 2000 * 1000 \<le> x div 2" for x :: int
    using zdiv_zmult2_eq[of 1000 x 2] div_mult_mod_eq[of "x div 2" 1000] pos_mod_sign[of 1000 "x div 2"] by simp
  have both: "max 1 k * 1000 \<le> max 1000 y" if "k * 1000 \<le> y" for k y :: int using that by (cases "1 \<le> k") simp_all
  have "sint ?p * 1000 \<le> max 1000 (int Size * sint m div 2)" unfolding v by (rule both[OF half])
  then have "uint (sleep_micros ?p) \<le> max 1000 (int Size * sint m div 2)"
    using prod pos zmod_le_nonneg_dividend[of "sint ?p * 1000" "2 ^ 32"] by linarith
  moreover have "uint (sleep_micros ?p) = 1000 * sint ?p" if "sint m \<le> 8388608"
  proof -
    have "int Size * sint m div 2000 \<le> 8589934592 div 2000" using that by (intro zdiv_mono1) (simp_all add: Size_def)
    then have "sint ?p * 1000 < 2 ^ 32" using v by simp
    then show ?thesis using prod pos by simp
  qed
  ultimately show ?thesis using v by blast
qed

theorem worker_wakes_in_time_witness:
  "sint (processor_interval 10000) = 5120 \<and> uint (sleep_micros (processor_interval 10000)) = 5120000"
  using worker_wakes_in_time[of 10000] by (simp add: Size_def)

end
