(* ===== verification/Concurrent_Map.thy ===== *)
theory Concurrent_Map
  imports Hash_Table
begin

text \<open>
  \<open>Migration\<close> and \<open>ConcurrentMapProvider\<close> (\<^verbatim>\<open>concurrent_map.h\<close>), for one thread at a time: the
  table is replaced by a larger (or cleaner) one when an insertion overflows, and the migration itself
  starts over into a table of twice the size when it overflows. The thread that starts a migration
  is the one that runs it to its end.
\<close>

subsection \<open>Migration\<close>

text \<open>One cell of \<open>migrateRange\<close>: whether the destination overflowed, and the two tables.\<close>

definition migrate_cell :: "nat \<Rightarrow> hash_table \<times> hash_table \<Rightarrow> (bool \<times> hash_table \<times> hash_table) result" where
  "migrate_cell index = (\<lambda>(source, dest).
     if index < length (cells source) then
       let srcHash = cell_hash (cells source ! index); srcValue = cell_value (cells source ! index) in
       if srcHash = MapHashEmpty then
         if srcValue = MapValEmpty then Inr (False, set_value index MapValMove source, dest)
         else if srcValue = MapValMove then Inr (False, source, dest)
         else Inl Spins_Forever
       else if srcValue = MapValEmpty then Inr (False, set_value index MapValMove source, dest)
       else if srcValue = MapValMove then Inr (False, source, dest)
       else
         and_then (insertOrUpdate dest srcHash srcValue) (\<lambda>(res, oldValue, dest1).
           let source1 = set_value index MapValMove source in
           if res = INSERT_OVERFLOW then Inr (True, set_value index srcValue source1, dest1)
           else Inr (False, source1, dest1))
     else Inl Out_Of_Bounds)"

fun migrate_cells :: "nat \<Rightarrow> nat \<Rightarrow> hash_table \<times> hash_table \<Rightarrow> (bool \<times> hash_table \<times> hash_table) result" where
  "migrate_cells index 0 s = Inr (False, s)"
| "migrate_cells index (Suc todo) s =
     and_then (migrate_cell index s) (\<lambda>(overflow, s1).
       if overflow then Inr (True, s1) else migrate_cells (index + 1) todo s1)"

definition migrateRange :: "nat \<Rightarrow> hash_table \<times> hash_table \<Rightarrow> (bool \<times> hash_table \<times> hash_table) result" where
  "migrateRange startIndex s =
     (let last = min (startIndex + kMigrationChunkSize) (sizeMask (fst s) + 1) in
      migrate_cells startIndex (last - startIndex) s)"

datatype source_end = Next_Source | Range_Overflow | All_Done

text \<open>The chunks of one source; \<open>lastIndex\<close> is its constant \<open>sizeMask\<close>.\<close>

function run_source :: "nat \<Rightarrow> nat \<Rightarrow> int \<Rightarrow> hash_table \<times> hash_table \<Rightarrow>
    (source_end \<times> int \<times> hash_table \<times> hash_table) result" where
  "run_source lastIndex index unitsRemaining s =
     (if index > lastIndex then Inr (Next_Source, unitsRemaining, s)
      else and_then (migrateRange index s) (\<lambda>(rangeOverflow, s1).
        if rangeOverflow then Inr (Range_Overflow, unitsRemaining, s1)
        else if unitsRemaining = 1 then Inr (All_Done, unitsRemaining - 1, s1)
        else run_source lastIndex (index + kMigrationChunkSize) (unitsRemaining - 1) s1))"
  by pat_completeness auto

termination
  by (relation "measure (\<lambda>(lastIndex, index, u, s). lastIndex + 1 - index)") (auto simp: kMigrationChunkSize_def)

declare run_source.simps [simp del]

fun run_sources :: "hash_table list \<Rightarrow> int \<Rightarrow> hash_table \<Rightarrow> (source_end \<times> hash_table list \<times> hash_table) result" where
  "run_sources [] unitsRemaining dest = Inr (Next_Source, [], dest)"
| "run_sources (t # ts) unitsRemaining dest =
     and_then (run_source (sizeMask t) 0 unitsRemaining (t, dest)) (\<lambda>(e, units1, t1, dest1).
       if e = Next_Source
       then and_then (run_sources ts units1 dest1) (\<lambda>(e2, ts2, dest2). Inr (e2, t1 # ts2, dest2))
       else Inr (e, t1 # ts, dest1))"

record migration =
  sources :: "hash_table list"
  dest :: hash_table
  unitsRemaining :: int

definition units :: "hash_table list \<Rightarrow> int" where
  "units ts = int (sum_list (map getMigrationSize ts))"

datatype job_end = Published hash_table | Restarted migration

text \<open>\<open>Migration::run\<close> by its only participant.\<close>

definition run_migration :: "migration \<Rightarrow> job_end result" where
  "run_migration m =
     and_then (run_sources (sources m) (unitsRemaining m) (dest m)) (\<lambda>(e, ts, d).
       if e = Range_Overflow
       then Inr (Restarted \<lparr>sources = ts @ [d],
              dest = new_table (word_of_nat (2 * (sizeMask d + 1))), unitsRemaining = units (ts @ [d])\<rparr>)
       else Inr (Published d))"

text \<open>\<open>participate\<close>: jobs are run until the coordinator is ended.\<close>

partial_function (option) participate :: "migration \<Rightarrow> hash_table result option" where
  "participate m =
     (case run_migration m of
        Inl e \<Rightarrow> Some (Inl e)
      | Inr (Published d) \<Rightarrow> Some (Inr d)
      | Inr (Restarted m1) \<Rightarrow> participate m1)"

subsection \<open>The map\<close>

text \<open>The current table, and the tables scheduled for deletion, as they were when the migration began.\<close>

record map_state =
  current :: hash_table
  scheduled :: "hash_table list"

definition new_map :: "jint \<Rightarrow> map_state" where
  "new_map initialSize = \<lparr>current = new_table initialSize, scheduled = []\<rparr>"

text \<open>
  The size of the new table. The floating point estimate is exact: the size and the number of cells
  sampled are powers of two, and at most 256 cells are sampled.
\<close>

definition estimated_size :: "hash_table \<Rightarrow> nat" where
  "estimated_size t =
     (let sampleMax = min kMaxSampleSize (sizeMask t + 1);
          estimatedSize = length (filter (\<lambda>e. cell_value e \<noteq> MapValEmpty) (take sampleMax (cells t)))
      in (sizeMask t + 1) * estimatedSize div sampleMax)"

definition migration_size :: "bool \<Rightarrow> hash_table \<Rightarrow> jint" where
  "migration_size doubleSize t =
     (if doubleSize then word_of_nat (2 * (sizeMask t + 1))
      else word_of_int (max (int kSizeMin) (sint (nearestPow2 (word_of_nat (2 * estimated_size t))))))"

text \<open>
  \<open>migrationStart\<close>. It gives up when a sampled cell has been moved, leaving the migration to the thread
  that moved it.
\<close>

definition migrationStart :: "bool \<Rightarrow> hash_table \<Rightarrow> migration option" where
  "migrationStart doubleSize t =
     (if \<not> doubleSize \<and> (\<exists>e\<in>set (take (min kMaxSampleSize (sizeMask t + 1)) (cells t)). cell_value e = MapValMove)
      then None
      else Some \<lparr>sources = [t], dest = new_table (migration_size doubleSize t), unitsRemaining = units [t]\<rparr>)"

partial_function (option) put_hash :: "bool \<Rightarrow> i64 \<Rightarrow> u64 \<Rightarrow> map_state \<Rightarrow> (u64 \<times> map_state) result option" where
  "put_hash doubleSize h v s =
     (case insertOrUpdate (current s) h v of
        Inl e \<Rightarrow> Some (Inl e)
      | Inr (res, oldValue, t) \<Rightarrow>
          if res = INSERT_OK then Some (Inr (oldValue, s\<lparr>current := t\<rparr>))
          else if res = INSERT_OVERFLOW then
            (case migrationStart doubleSize t of
               None \<Rightarrow> Some (Inl Spins_Forever)
             | Some m \<Rightarrow>
            (case participate m of
               None \<Rightarrow> None
             | Some (Inl e) \<Rightarrow> Some (Inl e)
             | Some (Inr newRoot) \<Rightarrow> put_hash True h v \<lparr>current = newRoot, scheduled = scheduled s @ [t]\<rparr>))
          else Some (Inl Spins_Forever))"

definition put :: "(u64 \<Rightarrow> i64) \<Rightarrow> u64 \<Rightarrow> u64 \<Rightarrow> map_state \<Rightarrow> (u64 \<times> map_state) result option" where
  "put hasher key v s = put_hash False (hasher key) v s"

definition get :: "(u64 \<Rightarrow> i64) \<Rightarrow> u64 \<Rightarrow> map_state \<Rightarrow> u64 result option" where
  "get hasher key s =
     map_option (\<lambda>r. and_then r (\<lambda>el.
       let res = (case el of None \<Rightarrow> MapValEmpty | Some i \<Rightarrow> cell_value (cells (current s) ! i)) in
       if res = MapValMove then Inl Spins_Forever else Inr res)) (find_cell (current s) (hasher key))"

definition remove :: "(u64 \<Rightarrow> i64) \<Rightarrow> u64 \<Rightarrow> map_state \<Rightarrow> (u64 \<times> map_state) result option" where
  "remove hasher key s =
     map_option (\<lambda>r. and_then r (\<lambda>el.
       case el of
         None \<Rightarrow> Inr (MapValEmpty, s)
       | Some i \<Rightarrow>
           let oldValue = cell_value (cells (current s) ! i) in
           if oldValue = MapValMove then Inl Spins_Forever
           else Inr (oldValue, s\<lparr>current := set_value i MapValEmpty (current s)\<rparr>)))
       (find_cell (current s) (hasher key))"

definition capacity :: "map_state \<Rightarrow> nat" where
  "capacity s = sizeMask (current s) + 1"

definition unsafeUsed :: "map_state \<Rightarrow> nat" where
  "unsafeUsed s = length (filter (\<lambda>e. cell_value e \<noteq> MapValEmpty \<and> cell_value e \<noteq> MapValMove)
     (take (sizeMask (current s) + 1) (cells (current s))))"

definition unsafeDirty :: "map_state \<Rightarrow> nat" where
  "unsafeDirty s = length (filter (\<lambda>e. cell_hash e \<noteq> MapHashEmpty)
     (take (sizeMask (current s) + 1) (cells (current s))))"

subsection \<open>What a list of tables holds\<close>

text \<open>
  During a migration the map is spread over the sources and the destination. A key's value in the
  whole is the sum over the tables of its values, absent ones being zero; \<open>holders\<close> counts the tables
  that have one, and has to stay at most one.
\<close>

definition live :: "hash_table \<Rightarrow> i64 \<Rightarrow> u64" where
  "live t h = (if lookup t h = MapValMove then MapValEmpty else lookup t h)"

definition holds :: "hash_table \<Rightarrow> i64 \<Rightarrow> nat" where
  "holds t h = (if live t h = MapValEmpty then 0 else 1)"

definition merged :: "hash_table list \<Rightarrow> i64 \<Rightarrow> u64" where
  "merged ts h = sum_list (map (\<lambda>t. live t h) ts)"

definition holders :: "hash_table list \<Rightarrow> i64 \<Rightarrow> nat" where
  "holders ts h = sum_list (map (\<lambda>t. holds t h) ts)"

definition same_map :: "hash_table list \<Rightarrow> hash_table list \<Rightarrow> bool" where
  "same_map ts us \<longleftrightarrow> merged us = merged ts \<and> holders us = holders ts"

lemma merged_simps [simp]:
  "merged [] h = 0" "merged (t # ts) h = live t h + merged ts h" "merged (ts @ us) h = merged ts h + merged us h"
  by (simp_all add: merged_def)

lemma holders_simps [simp]:
  "holders [] h = 0" "holders (t # ts) h = holds t h + holders ts h" "holders (ts @ us) h = holders ts h + holders us h"
  by (simp_all add: holders_def)

lemma same_mapI:
  "(\<And>h. merged us h = merged ts h) \<Longrightarrow> (\<And>h. holders us h = holders ts h) \<Longrightarrow> same_map ts us"
  by (auto simp: same_map_def)

lemma same_mapD: "same_map ts us \<Longrightarrow> merged us h = merged ts h \<and> holders us h = holders ts h"
  by (simp add: same_map_def)

lemma settled_lookup: "settled t \<Longrightarrow> lookup t h \<noteq> MapValMove"
  by (auto simp: lookup_def settled_def MapValEmpty_def MapValMove_def split: option.split dest: find_Some_iff[THEN iffD1])

lemma live_settled [simp]: "settled t \<Longrightarrow> live t = lookup t"
  by (simp add: live_def settled_lookup fun_eq_iff)

definition moved_below :: "nat \<Rightarrow> hash_table \<Rightarrow> bool" where
  "moved_below n t \<longleftrightarrow> (\<forall>i<n. cell_value (cells t ! i) = MapValMove)"

definition drained :: "hash_table \<Rightarrow> bool" where
  "drained t \<longleftrightarrow> moved_below (length (cells t)) t"

lemma live_drained:
  assumes "drained t"
  shows "live t h = MapValEmpty"
proof -
  have "\<forall>e\<in>set (cells t). cell_value e = MapValMove"
    using assms by (auto simp: drained_def moved_below_def in_set_conv_nth)
  then show ?thesis
    by (auto simp: live_def lookup_def split: option.split dest: find_Some_iff[THEN iffD1])
qed

lemma holders_drained: "\<forall>t\<in>set ts. drained t \<Longrightarrow> merged ts h = 0"
  by (induction ts) (simp_all add: live_drained MapValEmpty_def)

lemma holders_0: "holders ts h = 0 \<longleftrightarrow> (\<forall>t\<in>set ts. live t h = MapValEmpty)"
  by (induction ts) (auto simp: holds_def)

subsection \<open>Moving a cell\<close>

lemma live_set_moved:
  assumes "wf_table k t" and "i < length (cells t)" and "i \<in> used_cells t"
  shows "live (set_value i MapValMove t) = (live t)(cell_hash (cells t ! i) := MapValEmpty)"
  using lookup_set_value[OF assms(1,3)] by (auto simp: live_def MapValEmpty_def MapValMove_def)

lemma live_set_moved_unused:
  assumes "wf_table k t" and "i < length (cells t)" and "i \<notin> used_cells t"
  shows "live (set_value i MapValMove t) = live t"
proof -
  have w: "wf_table k (set_value i MapValMove t)" using wf_set_value[OF assms(1,2)] by simp
  have "lookup (set_value i MapValMove t) x = lookup t x" for x
  proof (cases "\<exists>j\<in>used_cells t. cell_hash (cells t ! j) = x")
    case True
    then obtain j where j: "j \<in> used_cells t" "cell_hash (cells t ! j) = x" by blast
    then have "j \<noteq> i" using assms(3) by auto
    then show ?thesis
      using lookup_stored[OF assms(1) j(1)] lookup_stored[OF w, of j] j assms(2) by simp
  next
    case False
    show ?thesis
    proof (cases "x = MapHashEmpty")
      case False
      then have a: "\<forall>j<length (cells t). cell_hash (cells t ! j) \<noteq> x"
        using \<open>\<not> (\<exists>j\<in>used_cells t. cell_hash (cells t ! j) = x)\<close> by (auto simp: used_cells_def)
      then show ?thesis using lookup_absent[OF a] lookup_absent[of "set_value i MapValMove t" x] assms(2) by simp
    qed (simp add: lookup_def)
  qed
  then show ?thesis by (simp add: live_def fun_eq_iff)
qed

text \<open>
  The circumstances in which a destination of \<open>2 ^ k\<close> cells cannot overflow: every key has its own home cell
  there.
\<close>

definition snug :: "nat \<Rightarrow> i64 set \<Rightarrow> nat \<Rightarrow> hash_table list \<Rightarrow> hash_table \<Rightarrow> bool" where
  "snug J H k ts d \<longleftrightarrow> roomy J H \<and> J \<le> k \<and> tidy H d \<and> (\<forall>h. 0 < holders (ts @ [d]) h \<longrightarrow> h \<in> H)"

text \<open>What a step of the migration keeps: the tables' invariants and the map of the two together.\<close>

definition kept :: "nat \<Rightarrow> i64 set \<Rightarrow> nat \<Rightarrow> nat \<Rightarrow> hash_table \<times> hash_table \<Rightarrow> hash_table \<times> hash_table \<Rightarrow> bool" where
  "kept J H k k' = (\<lambda>(s, d) (s', d'). wf_table k s' \<and> wf_table k' d' \<and> settled d' \<and> same_map [s, d] [s', d'] \<and>
     (\<forall>j. cell_value (cells s ! j) = MapValMove \<longrightarrow> cell_value (cells s' ! j) = MapValMove) \<and>
     (snug J H k' [s] d \<longrightarrow> snug J H k' [s'] d'))"

lemma kept_refl: "wf_table k s \<Longrightarrow> wf_table k' d \<Longrightarrow> settled d \<Longrightarrow> kept J H k k' (s, d) (s, d)"
  by (simp add: kept_def same_map_def)

lemma kept_trans: "kept J H k k' a b \<Longrightarrow> kept J H k k' b c \<Longrightarrow> kept J H k k' a c"
  by (cases a; cases b; cases c) (auto simp: kept_def same_map_def)

lemma migrate_cell_effect:
  assumes "wf_table k s" and "wf_table k' d" and "settled d" and "i < length (cells s)"
    and "\<And>h. holders [s, d] h \<le> 1"
  shows "\<exists>ov s' d'. migrate_cell i (s, d) = Inr (ov, s', d') \<and> kept J H k k' (s, d) (s', d') \<and>
    (\<not> ov \<longrightarrow> cell_value (cells s' ! i) = MapValMove) \<and> (snug J H k' [s] d \<longrightarrow> \<not> ov)"
proof -
  let ?h = "cell_hash (cells s ! i)" and ?v = "cell_value (cells s ! i)" and ?s = "set_value i MapValMove s"
  have ws: "wf_table k ?s" using wf_set_value[OF assms(1,4)] by simp
  have wc: "?h = MapHashEmpty \<Longrightarrow> ?v \<in> {MapValEmpty, MapValMove}"
    using wf_tableD(2)[OF assms(1,4)] by (simp add: wf_cell_def)
  have move: "kept J H k k' (s, d) (?s, d)" if "live ?s = live s"
    using ws assms that by (simp add: kept_def same_map_def merged_def holders_def holds_def fun_eq_iff snug_def)
  consider (moved) "?v = MapValMove" | (unused) "?h = MapHashEmpty" "?v = MapValEmpty"
    | (deleted) "?h \<noteq> MapHashEmpty" "?v = MapValEmpty"
    | (stored) "?h \<noteq> MapHashEmpty" "?v \<noteq> MapValEmpty" "?v \<noteq> MapValMove"
    using wc by auto
  then show ?thesis
  proof cases
    case moved
    then have "migrate_cell i (s, d) = Inr (False, s, d)"
      using assms(4) by (simp add: migrate_cell_def Let_def MapValMove_def MapValEmpty_def)
    then show ?thesis using kept_refl[OF assms(1-3)] moved by auto
  next
    case unused
    then have "migrate_cell i (s, d) = Inr (False, ?s, d)"
      using assms(4) by (simp add: migrate_cell_def Let_def)
    moreover have "i \<notin> used_cells s" using unused by (simp add: used_cells_def)
    ultimately show ?thesis using move live_set_moved_unused[OF assms(1,4)] assms(4) by auto
  next
    case deleted
    then have m: "migrate_cell i (s, d) = Inr (False, ?s, d)"
      using assms(4) by (simp add: migrate_cell_def Let_def)
    have u: "i \<in> used_cells s" using deleted assms(4) by (simp add: used_cells_def)
    have "live s ?h = MapValEmpty" using lookup_stored[OF assms(1) u] deleted by (simp add: live_def)
    then have "live ?s = live s" using live_set_moved[OF assms(1,4) u] by (simp add: fun_eq_iff)
    then show ?thesis using m move assms(4) by auto
  next
    case stored
    have u: "i \<in> used_cells s" using stored assms(4) by (simp add: used_cells_def)
    have lv: "live s ?h = ?v" using lookup_stored[OF assms(1) u] stored by (simp add: live_def)
    have de: "lookup d ?h = MapValEmpty"
      using assms(5)[of ?h] lv stored assms(3) by (auto simp: holds_def split: if_splits)
    have fits: "\<exists>t. insertOrUpdate d ?h ?v = Inr (INSERT_OK, lookup d ?h, t) \<and> tidy H t" if "snug J H k' [s] d"
    proof -
      have "0 < holders ([s] @ [d]) ?h" using lv stored by (simp add: holds_def)
      then have "?h \<in> H" using that unfolding snug_def by blast
      then show ?thesis using insert_tidy[OF assms(2,3), of H J ?h] that stored(1) by (simp add: snug_def)
    qed
    have restore: "set_value i ?v ?s = s"
      using assms(4) by (simp add: set_value_def set_cell_def)
    consider "insertOrUpdate d ?h ?v = Inr (INSERT_OVERFLOW, MapValEmpty, d)"
      | d' where "insertOrUpdate d ?h ?v = Inr (INSERT_OK, lookup d ?h, d')" "wf_table k' d'"
        "lookup d' = (lookup d)(?h := ?v)" "settled d'"
      using insertOrUpdate_spec[OF assms(2,3) stored(1), of ?v] stored(3) by blast
    then show ?thesis
    proof cases
      case 1
      then have "migrate_cell i (s, d) = Inr (True, s, d)"
        using stored assms(4) restore by (simp add: migrate_cell_def Let_def)
      moreover have "\<not> snug J H k' [s] d" using fits 1 by auto
      ultimately show ?thesis using kept_refl[OF assms(1-3)] by auto
    next
      case 2
      then have m: "migrate_cell i (s, d) = Inr (False, ?s, d')"
        using stored assms(4) by (simp add: migrate_cell_def Let_def)
      have sm: "same_map [s, d] [?s, d']"
        using live_set_moved[OF assms(1,4) u] 2(3,4) lv de assms(3) stored(2)
        by (intro same_mapI) (simp_all add: holds_def MapValEmpty_def)
      have "snug J H k' [?s] d'" if "snug J H k' [s] d"
        using that fits[OF that] 2(1) same_mapD[OF sm] by (auto simp: snug_def)
      then show ?thesis using m ws 2 assms(4) sm by (auto simp: kept_def)
    qed
  qed
qed

lemma kept_length: "kept J H k k' (s, d) (s', d') \<Longrightarrow> wf_table k s \<Longrightarrow> length (cells s') = length (cells s)"
  using shaped_length[of k s] shaped_length[of k s'] wf_tableD(1)[of k s] wf_tableD(1)[of k s']
  by (simp add: kept_def)

lemma migrate_cells_effect:
  assumes "wf_table k s" and "wf_table k' d" and "settled d" and "i + n \<le> length (cells s)"
    and "\<And>h. holders [s, d] h \<le> 1"
  shows "\<exists>ov s' d'. migrate_cells i n (s, d) = Inr (ov, s', d') \<and> kept J H k k' (s, d) (s', d') \<and>
    (\<not> ov \<longrightarrow> moved_below i s \<longrightarrow> moved_below (i + n) s') \<and> (snug J H k' [s] d \<longrightarrow> \<not> ov)"
  using assms
proof (induction n arbitrary: i s d)
  case 0
  then show ?case using kept_refl by auto
next
  case (Suc n)
  have i: "i < length (cells s)" using Suc.prems(4) by simp
  obtain ov s1 d1 where m: "migrate_cell i (s, d) = Inr (ov, s1, d1)" "kept J H k k' (s, d) (s1, d1)"
    "\<not> ov \<longrightarrow> cell_value (cells s1 ! i) = MapValMove" "snug J H k' [s] d \<longrightarrow> \<not> ov"
    using migrate_cell_effect[OF Suc.prems(1-3) i Suc.prems(5)] by blast
  show ?case
  proof (cases ov)
    case True
    then show ?thesis using m by auto
  next
    case False
    have K: "wf_table k s1" "wf_table k' d1" "settled d1" "\<And>h. holders [s1, d1] h \<le> 1"
      using m(2) Suc.prems(5) by (auto simp: kept_def same_map_def)
    have "Suc i + n \<le> length (cells s1)" using kept_length[OF m(2) Suc.prems(1)] Suc.prems(4) by simp
    then obtain ov2 s2 d2 where r: "migrate_cells (Suc i) n (s1, d1) = Inr (ov2, s2, d2)" "kept J H k k' (s1, d1) (s2, d2)"
      "\<not> ov2 \<longrightarrow> moved_below (Suc i) s1 \<longrightarrow> moved_below (Suc i + n) s2" "snug J H k' [s1] d1 \<longrightarrow> \<not> ov2"
      using Suc.IH[OF K(1-3) _ K(4)] by blast
    have "moved_below (Suc i) s1" if "moved_below i s"
      using that m(2,3) False by (auto simp: moved_below_def kept_def less_Suc_eq)
    moreover have "snug J H k' [s] d \<longrightarrow> \<not> ov2" using m(2) r(4) by (simp add: kept_def)
    ultimately show ?thesis using m(1) r(1,3) False kept_trans[OF m(2) r(2)] by auto
  qed
qed

subsection \<open>Moving a table\<close>

lemma run_source_effect:
  assumes "wf_table k s" and "wf_table k' d" and "settled d" and "\<And>h. holders [s, d] h \<le> 1"
    and "index + 32 * r = 2 ^ k" and "int r \<le> u" and "moved_below index s"
  shows "\<exists>e u' s' d'. run_source (2 ^ k - 1) index u (s, d) = Inr (e, u', s', d') \<and> kept J H k k' (s, d) (s', d') \<and>
    (e \<noteq> Range_Overflow \<longrightarrow> drained s') \<and> (e = Next_Source \<longrightarrow> u' = u - int r) \<and> (e = All_Done \<longrightarrow> u = int r) \<and> (snug J H k' [s] d \<longrightarrow> e \<noteq> Range_Overflow)"
  using assms
proof (induction r arbitrary: index u s d)
  case 0
  then have "index > 2 ^ k - 1" by simp
  moreover have "drained s" using 0 shaped_length[OF wf_tableD(1)[OF 0(1)]] by (simp add: drained_def)
  ultimately show ?case using kept_refl[OF 0(1-3)] by (subst run_source.simps) simp
next
  case (Suc r)
  have len: "length (cells s) = 2 ^ k" "sizeMask s = 2 ^ k - 1"
    using wf_tableD(1)[OF Suc.prems(1)] by (simp_all add: shaped_def)
  have le: "index + 32 \<le> 2 ^ k" using Suc.prems(5) by simp
  obtain ov s1 d1 where m: "migrate_cells index 32 (s, d) = Inr (ov, s1, d1)" "kept J H k k' (s, d) (s1, d1)"
    "\<not> ov \<longrightarrow> moved_below (index + 32) s1" "snug J H k' [s] d \<longrightarrow> \<not> ov"
    using migrate_cells_effect[OF Suc.prems(1-3), where i = index and n = 32 and J = J and H = H] le len(1) Suc.prems(4,7) by auto
  have range: "migrateRange index (s, d) = Inr (ov, s1, d1)"
    using m(1) le len by (simp add: migrateRange_def kMigrationChunkSize_def Let_def min_def)
  have K: "wf_table k s1" "wf_table k' d1" "settled d1" "\<And>h. holders [s1, d1] h \<le> 1"
    using m(2) Suc.prems(4) by (auto simp: kept_def same_map_def)
  consider (over) "ov" | (last) "\<not> ov" "u = 1" | (more) "\<not> ov" "u \<noteq> 1" by blast
  then show ?case
  proof cases
    case over
    then show ?thesis using range le m(2,4) by (subst run_source.simps) auto
  next
    case last
    then have r0: "r = 0" using Suc.prems(6) by simp
    have "moved_below (2 ^ k) s1" using m(3) last(1) Suc.prems(5) r0 by simp
    then have "drained s1" using shaped_length[OF wf_tableD(1)[OF K(1)]] by (simp add: drained_def)
    then show ?thesis using range le last m(2) r0 by (subst run_source.simps) auto
  next
    case more
    have "index + 32 + 32 * r = 2 ^ k" using Suc.prems(5) by simp
    moreover have "int r \<le> u - 1" using Suc.prems(6) by simp
    moreover have "moved_below (index + 32) s1" using m(3) more(1) by simp
    ultimately obtain e u' s2 d2 where r: "run_source (2 ^ k - 1) (index + 32) (u - 1) (s1, d1) = Inr (e, u', s2, d2)"
      "kept J H k k' (s1, d1) (s2, d2)" "e \<noteq> Range_Overflow \<longrightarrow> drained s2" "e = Next_Source \<longrightarrow> u' = u - 1 - int r"
      "e = All_Done \<longrightarrow> u - 1 = int r" "snug J H k' [s1] d1 \<longrightarrow> e \<noteq> Range_Overflow"
      using Suc.IH[OF K] by blast
    have "\<not> 2 ^ k - 1 < index" using le by linarith
    then have "run_source (2 ^ k - 1) index u (s, d) = Inr (e, u', s2, d2)"
      using range more r(1) by (subst run_source.simps) (simp add: kMigrationChunkSize_def)
    moreover have "snug J H k' [s] d \<longrightarrow> e \<noteq> Range_Overflow" using m(2) r(6) by (simp add: kept_def)
    ultimately show ?thesis using r(3-5) kept_trans[OF m(2) r(2)] by auto
  qed
qed

definition wf_tables :: "hash_table list \<Rightarrow> bool" where
  "wf_tables ts \<longleftrightarrow> (\<forall>t\<in>set ts. \<exists>k. wf_table k t)"

lemma migration_units:
  assumes "wf_table k t"
  shows "getMigrationSize t > 0" and "32 * getMigrationSize t = 2 ^ k" and "sizeMask t = 2 ^ k - 1"
proof -
  have s: "5 \<le> k" "sizeMask t = 2 ^ k - 1" using wf_tableD(1)[OF assms] by (simp_all add: shaped_def)
  have "(2 :: nat) ^ k = 2 ^ (k - 5) * 2 ^ 5" using s(1) by (metis le_add_diff_inverse2 power_add)
  then have "getMigrationSize t = 2 ^ (k - 5)" "(2 :: nat) ^ k = 32 * 2 ^ (k - 5)"
    using s by (simp_all add: getMigrationSize_def kMigrationChunkSize_def)
  then show "getMigrationSize t > 0" "32 * getMigrationSize t = 2 ^ k" "sizeMask t = 2 ^ k - 1"
    using s by simp_all
qed

text \<open>
  A pass over the sources keeps the map they hold with the destination; when it does not overflow every
  source has been emptied, the countdown of chunks ending with the last chunk of the last source.
\<close>

lemma run_sources_effect:
  assumes "wf_tables ts" and "wf_table k' d" and "settled d" and "\<And>h. holders (ts @ [d]) h \<le> 1"
    and "u = units ts"
  shows "\<exists>e ts' d'. run_sources ts u d = Inr (e, ts', d') \<and> wf_tables ts' \<and> wf_table k' d' \<and> settled d' \<and>
    same_map (ts @ [d]) (ts' @ [d']) \<and> (e \<noteq> Range_Overflow \<longrightarrow> (\<forall>t\<in>set ts'. drained t)) \<and>
    (snug J H k' ts d \<longrightarrow> e \<noteq> Range_Overflow \<and> snug J H k' ts' d')"
  using assms
proof (induction ts arbitrary: u d)
  case Nil
  then show ?case by (simp add: same_map_def)
next
  case (Cons t ts)
  obtain k where k: "wf_table k t" using Cons.prems(1) by (auto simp: wf_tables_def)
  note mu = migration_units[OF k]
  have h2: "holders [t, d] h \<le> 1" for h using Cons.prems(4)[of h] by simp
  have u: "u = int (getMigrationSize t) + units ts" using Cons.prems(5) by (simp add: units_def)
  have nonneg: "0 \<le> units ts" by (simp add: units_def)
  have "0 + 32 * getMigrationSize t = 2 ^ k" "int (getMigrationSize t) \<le> u" "moved_below 0 t"
    using mu(2) u nonneg by (simp_all add: moved_below_def)
  then obtain e u' t' d' where r: "run_source (sizeMask t) 0 u (t, d) = Inr (e, u', t', d')"
    "kept J H k k' (t, d) (t', d')" "e \<noteq> Range_Overflow \<longrightarrow> drained t'" "e = Next_Source \<longrightarrow> u' = u - int (getMigrationSize t)"
    "e = All_Done \<longrightarrow> u = int (getMigrationSize t)" "snug J H k' [t] d \<longrightarrow> e \<noteq> Range_Overflow"
    using run_source_effect[OF k Cons.prems(2,3) h2, where index = 0 and r = "getMigrationSize t" and u = u and J = J and H = H] mu(3) by auto
  have K: "wf_table k t'" "wf_table k' d'" "settled d'" and sm: "\<And>h. merged [t', d'] h = merged [t, d] h"
    "\<And>h. holders [t', d'] h = holders [t, d] h"
    using r(2) by (auto simp: kept_def same_map_def)
  have step: "same_map (t # ts @ [d]) (t' # ts @ [d'])"
  proof (rule same_mapI)
    fix h
    show "merged (t' # ts @ [d']) h = merged (t # ts @ [d]) h" using sm(1)[of h] by (simp add: add.left_commute)
    show "holders (t' # ts @ [d']) h = holders (t # ts @ [d]) h" using sm(2)[of h] by simp
  qed
  have sn: "snug J H k' [t] d" if "snug J H k' (t # ts) d" using that by (auto simp: snug_def)
  have sn1: "snug J H k' ts d'" if "snug J H k' (t # ts) d"
  proof -
    have "snug J H k' [t'] d'" using r(2) sn[OF that] by (simp add: kept_def)
    moreover have "h \<in> H" if "0 < holders (ts @ [d']) h" for h
    proof -
      have "0 < holders ((t # ts) @ [d]) h" using that conjunct2[OF same_mapD[OF step, of h]]
        by (simp only: holders_simps append_Cons)
      then show ?thesis using \<open>snug J H k' (t # ts) d\<close> unfolding snug_def by blast
    qed
    ultimately show ?thesis unfolding snug_def by blast
  qed
  have wts: "wf_tables ts" using Cons.prems(1) by (simp add: wf_tables_def)
  show ?case
  proof (cases "e = Next_Source")
    case True
    have "holders (ts @ [d']) h \<le> 1" for h
      using Cons.prems(4)[of h] same_mapD[OF step, of h] by simp
    then obtain e2 ts2 d2 where r2: "run_sources ts u' d' = Inr (e2, ts2, d2)" "wf_tables ts2" "wf_table k' d2"
      "settled d2" "same_map (ts @ [d']) (ts2 @ [d2])" "e2 \<noteq> Range_Overflow \<longrightarrow> (\<forall>t\<in>set ts2. drained t)"
      "snug J H k' ts d' \<longrightarrow> e2 \<noteq> Range_Overflow \<and> snug J H k' ts2 d2"
      using Cons.IH[OF wts K(2,3), of u'] u r(4) True by auto
    have "same_map (t # ts @ [d]) (t' # ts2 @ [d2])"
      using step r2(5) by (auto simp: same_map_def fun_eq_iff)
    moreover have run: "run_sources (t # ts) u d = Inr (e2, t' # ts2, d2)" using r(1) r2(1) True by simp
    moreover have "wf_tables (t' # ts2)" using r2(2) K(1) by (auto simp: wf_tables_def)
    moreover have "e2 \<noteq> Range_Overflow \<longrightarrow> (\<forall>x\<in>set (t' # ts2). drained x)" using r2(6) r(3) True by simp
    moreover have "snug J H k' (t # ts) d \<longrightarrow> e2 \<noteq> Range_Overflow \<and> snug J H k' (t' # ts2) d2"
    proof
      assume s: "snug J H k' (t # ts) d"
      then have "snug J H k' ts2 d2" "e2 \<noteq> Range_Overflow" using sn1 r2(7) by auto
      moreover have "holders (t' # ts2 @ [d2]) h = holders (t # ts @ [d]) h" for h
        using \<open>same_map (t # ts @ [d]) (t' # ts2 @ [d2])\<close> by (simp only: same_map_def)
      ultimately show "e2 \<noteq> Range_Overflow \<and> snug J H k' (t' # ts2) d2" using s unfolding snug_def append_Cons by metis
    qed
    ultimately show ?thesis
      using r2(3,4) by (intro exI[of _ e2] exI[of _ "t' # ts2"] exI[of _ d2] conjI) (simp_all only: append_Cons)
  next
    case False
    then have run: "run_sources (t # ts) u d = Inr (e, t' # ts, d')" using r(1) by simp
    have "e \<noteq> Range_Overflow \<longrightarrow> (\<forall>x\<in>set (t' # ts). drained x)"
    proof
      assume over: "e \<noteq> Range_Overflow"
      have "e = All_Done" using False over by (cases e) simp_all
      then have "units ts = 0" using r(5) u by simp
      moreover have "\<exists>x\<in>set ts. getMigrationSize x > 0" if "ts \<noteq> []"
        using that wts migration_units(1) by (cases ts) (auto simp: wf_tables_def)
      ultimately have "ts = []" by (auto simp: units_def)
      then show "\<forall>x\<in>set (t' # ts). drained x" using r(3) over by simp
    qed
    moreover have "wf_tables (t' # ts)" using K(1) wts by (auto simp: wf_tables_def)
    moreover have "snug J H k' (t # ts) d \<longrightarrow> e \<noteq> Range_Overflow \<and> snug J H k' (t' # ts) d'"
    proof
      assume s: "snug J H k' (t # ts) d"
      then have "snug J H k' ts d'" "e \<noteq> Range_Overflow" using sn sn1 r(6) by auto
      moreover have "holders (t' # ts @ [d']) h = holders (t # ts @ [d]) h" for h
        using step by (simp only: same_map_def)
      ultimately show "e \<noteq> Range_Overflow \<and> snug J H k' (t' # ts) d'" using s unfolding snug_def append_Cons by metis
    qed
    ultimately show ?thesis
      using run step K(2,3)
      by (intro exI[of _ e] exI[of _ "t' # ts"] exI[of _ d'] conjI) (simp_all only: append_Cons)
  qed
qed

subsection \<open>Running a migration\<close>

definition job_ok :: "(i64 \<Rightarrow> u64) \<Rightarrow> nat \<Rightarrow> migration \<Rightarrow> bool" where
  "job_ok M k m \<longleftrightarrow> 5 \<le> k \<and> k \<le> 30 \<and> wf_tables (sources m) \<and> dest m = fresh_table k \<and>
     unitsRemaining m = units (sources m) \<and> merged (sources m) = M \<and>
     (\<forall>h. holders (sources m) h = (if M h = MapValEmpty then 0 else 1))"

definition next_size :: "nat \<Rightarrow> nat" where
  "next_size k = (if k = 30 then 5 else k + 1)"

lemma holders_fresh: "5 \<le> k \<Longrightarrow> k \<le> 30 \<Longrightarrow> merged (ts @ [fresh_table k]) = merged ts \<and>
    holders (ts @ [fresh_table k]) = holders ts"
  using fresh_table_wf[of k] by (simp add: fun_eq_iff holds_def MapValEmpty_def)

lemma run_migration_effect:
  assumes "job_ok M k m"
  shows "\<exists>e. run_migration m = Inr e \<and>
    (case e of
       Published d \<Rightarrow> wf_table k d \<and> settled d \<and> lookup d = M
     | Restarted m1 \<Rightarrow> job_ok M (next_size k) m1) \<and>
    (roomy J H \<and> J \<le> k \<and> {h. M h \<noteq> MapValEmpty} \<subseteq> H \<longrightarrow> (\<exists>d. e = Published d \<and> tidy H d))"
proof -
  have J: "5 \<le> k" "k \<le> 30" "wf_tables (sources m)" "dest m = fresh_table k" "unitsRemaining m = units (sources m)"
    "merged (sources m) = M" "\<And>h. holders (sources m) h = (if M h = MapValEmpty then 0 else 1)"
    using assms by (simp_all add: job_ok_def)
  note F = fresh_table_wf[OF J(1,2)] and hf = holders_fresh[OF J(1,2), of "sources m"]
  have le1: "holders (sources m @ [fresh_table k]) h \<le> 1" for h using hf J(7)[of h] by simp
  obtain e ts d where r: "run_sources (sources m) (unitsRemaining m) (dest m) = Inr (e, ts, d)" "wf_tables ts"
    "wf_table k d" "settled d" "same_map (sources m @ [fresh_table k]) (ts @ [d])"
    "e \<noteq> Range_Overflow \<longrightarrow> (\<forall>t\<in>set ts. drained t)"
    "snug J H k (sources m) (fresh_table k) \<longrightarrow> e \<noteq> Range_Overflow \<and> snug J H k ts d"
    using run_sources_effect[OF J(3) F(1,2) le1 J(5), where J = J and H = H] J(4) by auto
  have all: "merged (ts @ [d]) = M" "\<And>h. holders (ts @ [d]) h = (if M h = MapValEmpty then 0 else 1)"
    using r(5) hf J(6,7) by (auto simp: same_map_def)
  have snug0: "snug J H k (sources m) (fresh_table k)" if "roomy J H" "J \<le> k" "{h. M h \<noteq> MapValEmpty} \<subseteq> H"
  proof -
    have "tidy H (fresh_table k)" using F(4) by (simp add: tidy_def)
    moreover have "h \<in> H" if "0 < holders (sources m @ [fresh_table k]) h" for h
      using that hf J(7)[of h] \<open>{h. M h \<noteq> MapValEmpty} \<subseteq> H\<close> by (auto split: if_splits)
    ultimately show ?thesis using that by (simp add: snug_def)
  qed
  show ?thesis
  proof (cases "e = Range_Overflow")
    case True
    let ?m = "\<lparr>sources = ts @ [d], dest = new_table (word_of_nat (2 * (sizeMask d + 1))), unitsRemaining = units (ts @ [d])\<rparr>"
    have "run_migration m = Inr (Restarted ?m)" using r(1) True by (simp add: run_migration_def)
    moreover have "sizeMask d + 1 = 2 ^ k" using wf_tableD(1)[OF r(3)] by (simp add: shaped_def)
    then have "new_table (word_of_nat (2 * (sizeMask d + 1))) = fresh_table (next_size k)"
      using new_table_doubled[OF J(1,2)] by (simp add: next_size_def)
    then have "job_ok M (next_size k) ?m"
      using r(2,3) all J(1,2) by (auto simp: job_ok_def next_size_def wf_tables_def)
    moreover have "\<not> (roomy J H \<and> J \<le> k \<and> {h. M h \<noteq> MapValEmpty} \<subseteq> H)" using snug0 r(7) True by blast
    ultimately show ?thesis by auto
  next
    case False
    then have "run_migration m = Inr (Published d)" using r(1) by (simp add: run_migration_def)
    moreover have "lookup d = M"
    proof
      fix h
      have "merged ts h = 0" using holders_drained r(6) False by blast
      then show "lookup d h = M h" using fun_cong[OF all(1), of h] r(4) by simp
    qed
    moreover have "tidy H d" if "roomy J H \<and> J \<le> k \<and> {h. M h \<noteq> MapValEmpty} \<subseteq> H"
      using snug0 r(7) that by (auto simp: snug_def)
    ultimately show ?thesis using r(3,4) by auto
  qed
qed

lemma participate_correct:
  assumes "participate m = Some r" and "job_ok M k m"
  shows "\<exists>d k'. r = Inr d \<and> wf_table k' d \<and> settled d \<and> lookup d = M"
proof -
  have "\<forall>k. job_ok M k m \<longrightarrow> (\<exists>d k'. r = Inr d \<and> wf_table k' d \<and> settled d \<and> lookup d = M)"
  proof (rule participate.raw_induct[OF _ assms(1)])
    fix f m r
    assume IH: "\<And>m r. f m = Some r \<Longrightarrow>
        \<forall>k. job_ok M k m \<longrightarrow> (\<exists>d k'. r = Inr d \<and> wf_table k' d \<and> settled d \<and> lookup d = M)"
      and body: "(case run_migration m of Inl e \<Rightarrow> Some (Inl e) | Inr (Published d) \<Rightarrow> Some (Inr d)
        | Inr (Restarted m1) \<Rightarrow> f m1) = Some r"
    show "\<forall>k. job_ok M k m \<longrightarrow> (\<exists>d k'. r = Inr d \<and> wf_table k' d \<and> settled d \<and> lookup d = M)"
    proof (intro allI impI)
      fix k assume "job_ok M k m"
      from run_migration_effect[OF this, of undefined undefined] obtain e where e: "run_migration m = Inr e"
        "case e of Published d \<Rightarrow> wf_table k d \<and> settled d \<and> lookup d = M | Restarted m1 \<Rightarrow> job_ok M (next_size k) m1"
        by blast
      show "\<exists>d k'. r = Inr d \<and> wf_table k' d \<and> settled d \<and> lookup d = M"
      proof (cases e)
        case (Published d)
        then show ?thesis using e body by auto
      next
        case (Restarted m1)
        then have "f m1 = Some r" "job_ok M (next_size k) m1" using e body by simp_all
        then show ?thesis using IH[of m1 r] by blast
      qed
    qed
  qed
  then show ?thesis using assms(2) by blast
qed

text \<open>A migration ends when some size gives every key its own home cell.\<close>

lemma participate_returns:
  assumes "roomy J H" and "J \<le> 30" and "{h. M h \<noteq> MapValEmpty} \<subseteq> H" and "job_ok M k m"
  shows "\<exists>d k'. participate m = Some (Inr d) \<and> wf_table k' d \<and> settled d \<and> lookup d = M \<and> k \<le> k' \<and>
    (J \<le> k' \<longrightarrow> tidy H d)"
  using assms(4)
proof (induction "J - k" arbitrary: k m rule: less_induct)
  case less
  obtain e where e: "run_migration m = Inr e"
    "case e of Published d \<Rightarrow> wf_table k d \<and> settled d \<and> lookup d = M | Restarted m1 \<Rightarrow> job_ok M (next_size k) m1"
    "J \<le> k \<longrightarrow> (\<exists>d. e = Published d \<and> tidy H d)"
    using run_migration_effect[OF less.prems, of J H] assms(1,3) by blast
  show ?case
  proof (cases e)
    case (Published d)
    then have "participate m = Some (Inr d)" using e(1) by (subst participate.simps) simp
    then show ?thesis using e(2,3) Published by auto
  next
    case (Restarted m1)
    then have lt: "k < J" using e(3) by auto
    then have n: "next_size k = k + 1" using assms(2) by (simp add: next_size_def)
    then have job: "job_ok M (k + 1) m1" using e(2) Restarted by simp
    have "J - (k + 1) < J - k" using lt by simp
    from less.hyps[OF this job] obtain d k' where d: "participate m1 = Some (Inr d)" "wf_table k' d" "settled d" "lookup d = M" "k + 1 \<le> k'"
      "J \<le> k' \<longrightarrow> tidy H d"
      by blast
    have "participate m = Some (Inr d)" using e(1) Restarted d(1) by (subst participate.simps) simp
    then show ?thesis using d by (intro exI[of _ d] exI[of _ k']) simp
  qed
qed

subsection \<open>put\<close>

lemma estimated_le:
  assumes "wf_table k t"
  shows "estimated_size t \<le> 2 ^ k"
proof -
  let ?m = "min kMaxSampleSize (sizeMask t + 1)"
  let ?e = "length (filter (\<lambda>e. cell_value e \<noteq> MapValEmpty) (take ?m (cells t)))"
  have size: "sizeMask t + 1 = 2 ^ k" using wf_tableD(1)[OF assms] by (simp add: shaped_def)
  have "?e \<le> length (take ?m (cells t))" by (rule length_filter_le)
  then have "?e \<le> ?m" by simp
  moreover have "0 < ?m" by (simp add: kMaxSampleSize_def)
  ultimately have "2 ^ k * ?e div ?m \<le> 2 ^ k"
    by (metis div_le_mono mult_le_mono2 nonzero_mult_div_cancel_right not_gr_zero)
  then show ?thesis unfolding estimated_size_def size Let_def .
qed

lemma table_for_estimate:
  assumes "n \<le> 2 ^ 31"
  shows "\<exists>j. 5 \<le> j \<and> j \<le> 30 \<and>
    new_table (word_of_int (max (int kSizeMin) (sint (nearestPow2 (word_of_nat n))))) = fresh_table j"
proof -
  have small: "new_table (word_of_int 32) = fresh_table 5" using new_table_power[of 5 32] by simp
  let ?p = "sint (nearestPow2 (word_of_nat n))"
  show ?thesis
  proof (cases "?p \<le> 32")
    case True
    then have "max (int kSizeMin) ?p = 32" by (simp add: kSizeMin_def)
    then show ?thesis using small by (intro exI[of _ 5]) simp
  next
    case False
    have "n \<noteq> 0"
    proof
      assume "n = 0"
      then have "?p = sint (nearestPow2 0)" by simp
      also have "\<dots> \<le> 0" by code_simp
      finally show False using False by simp
    qed
    moreover have "n \<noteq> 2 ^ 31"
    proof
      assume "n = 2 ^ 31"
      then have "?p = sint (nearestPow2 0x80000000)" by simp
      also have "\<dots> \<le> 0" by code_simp
      finally show False using False by simp
    qed
    ultimately have n: "sint (word_of_nat n :: jint) = int n" "0 < n" using assms by (simp_all add: sint_word_of_nat)
    have "int n \<le> 2 ^ 30" using nearestPow2_big[of "word_of_nat n"] n(1) False by (intro leI notI) simp
    then obtain k where k: "k \<le> 30" "?p = 2 ^ k" using nearestPow2_spec[of "word_of_nat n"] n by auto
    have "5 \<le> k"
    proof (rule ccontr)
      assume "\<not> 5 \<le> k"
      then have "(2 :: int) ^ k \<le> 2 ^ 5" by (intro power_increasing) simp_all
      then show False using False k(2) by simp
    qed
    have "(2 :: nat) ^ k \<le> 2 ^ 30" using k(1) by (intro power_increasing) simp_all
    then have "sint (word_of_nat (2 ^ k) :: jint) = 2 ^ k" by (subst sint_word_of_nat) simp_all
    then have "new_table (word_of_int (max (int kSizeMin) ?p)) = fresh_table k"
      using new_table_power[OF \<open>5 \<le> k\<close> k(1)] k(2) False by (simp add: kSizeMin_def max_def)
    then show ?thesis using \<open>5 \<le> k\<close> k(1) by blast
  qed
qed

lemma migrationStart_ok:
  assumes "wf_table k t" and "settled t"
  shows "\<exists>m j. migrationStart b t = Some m \<and> job_ok (lookup t) j m \<and> (b \<longrightarrow> j = next_size k)"
proof -
  have sh: "5 \<le> k" "k \<le> 30" "sizeMask t + 1 = 2 ^ k" using wf_tableD(1)[OF assms(1)] by (simp_all add: shaped_def)
  have fresh: "\<exists>j. 5 \<le> j \<and> j \<le> 30 \<and> new_table (migration_size b t) = fresh_table j \<and> (b \<longrightarrow> j = next_size k)"
  proof (cases b)
    case True
    then show ?thesis
      using new_table_doubled[OF sh(1,2)] sh by (intro exI[of _ "next_size k"]) (simp add: migration_size_def next_size_def)
  next
    case False
    have "(2 :: nat) ^ k \<le> 2 ^ 30" using sh(2) by (intro power_increasing) simp_all
    then have "2 * estimated_size t \<le> 2 ^ 31" using estimated_le[OF assms(1)] by simp
    from table_for_estimate[OF this] False show ?thesis by (auto simp: migration_size_def)
  qed
  then obtain j where j: "5 \<le> j" "j \<le> 30" "new_table (migration_size b t) = fresh_table j" "b \<longrightarrow> j = next_size k"
    by blast
  have unmoved: "\<not> (\<exists>e\<in>set (take (min kMaxSampleSize (sizeMask t + 1)) (cells t)). cell_value e = MapValMove)"
    using assms(2) by (auto simp: settled_def dest: in_set_takeD)
  have "job_ok (lookup t) j \<lparr>sources = [t], dest = fresh_table j, unitsRemaining = units [t]\<rparr>"
    using j assms by (auto simp: job_ok_def wf_tables_def holds_def fun_eq_iff)
  then show ?thesis using unmoved j by (auto simp: migrationStart_def)
qed

definition wf_map :: "map_state \<Rightarrow> bool" where
  "wf_map s \<longleftrightarrow> settled (current s) \<and> (\<exists>k. wf_table k (current s))"

definition contents_of :: "map_state \<Rightarrow> i64 \<Rightarrow> u64" where
  "contents_of s = lookup (current s)"

lemma insert_map_spec:
  assumes "wf_map s" and "h \<noteq> MapHashEmpty" and "v \<noteq> MapValMove"
  shows "insertOrUpdate (current s) h v = Inr (INSERT_OVERFLOW, MapValEmpty, current s) \<or>
    (\<exists>t. insertOrUpdate (current s) h v = Inr (INSERT_OK, contents_of s h, t) \<and> wf_map (s\<lparr>current := t\<rparr>) \<and>
      lookup t = (contents_of s)(h := v))"
  using assms insertOrUpdate_spec[of _ "current s" h v] by (auto simp: wf_map_def contents_of_def)

text \<open>Whatever \<open>put\<close> returns is right.\<close>

lemma put_hash_correct:
  assumes "put_hash b h v s = Some r" and "wf_map s" and "h \<noteq> MapHashEmpty" and "v \<noteq> MapValMove"
  shows "\<exists>s'. r = Inr (contents_of s h, s') \<and> wf_map s' \<and> contents_of s' = (contents_of s)(h := v)"
proof -
  let ?P = "\<lambda>b h v s r. wf_map s \<longrightarrow> h \<noteq> MapHashEmpty \<longrightarrow> v \<noteq> MapValMove \<longrightarrow>
      (\<exists>s'. r = Inr (contents_of s h, s') \<and> wf_map s' \<and> contents_of s' = (contents_of s)(h := v))"
  have "?P b h v s r"
  proof (rule put_hash.raw_induct[of ?P, OF _ assms(1)])
    fix f b h v s r
    assume IH: "\<And>b h v s r. f b h v s = Some r \<Longrightarrow> ?P b h v s r"
      and body: "(case insertOrUpdate (current s) h v of
        Inl e \<Rightarrow> Some (Inl e)
      | Inr (res, oldValue, t) \<Rightarrow>
          if res = INSERT_OK then Some (Inr (oldValue, s\<lparr>current := t\<rparr>))
          else if res = INSERT_OVERFLOW then
            (case migrationStart b t of
               None \<Rightarrow> Some (Inl Spins_Forever)
             | Some m \<Rightarrow>
            (case participate m of
               None \<Rightarrow> None
             | Some (Inl e) \<Rightarrow> Some (Inl e)
             | Some (Inr newRoot) \<Rightarrow> f True h v \<lparr>current = newRoot, scheduled = scheduled s @ [t]\<rparr>))
          else Some (Inl Spins_Forever)) = Some r"
    show "?P b h v s r"
    proof (intro impI)
      assume wf: "wf_map s" and h: "h \<noteq> MapHashEmpty" and v: "v \<noteq> MapValMove"
      consider (over) "insertOrUpdate (current s) h v = Inr (INSERT_OVERFLOW, MapValEmpty, current s)"
        | (ok) t where "insertOrUpdate (current s) h v = Inr (INSERT_OK, contents_of s h, t)"
          "wf_map (s\<lparr>current := t\<rparr>)" "lookup t = (contents_of s)(h := v)"
        using insert_map_spec[OF wf h v] by blast
      then show "\<exists>s'. r = Inr (contents_of s h, s') \<and> wf_map s' \<and> contents_of s' = (contents_of s)(h := v)"
      proof cases
        case over
        obtain m j where m: "migrationStart b (current s) = Some m" "job_ok (lookup (current s)) j m"
          using wf migrationStart_ok[of _ "current s" b] unfolding wf_map_def by blast
        then obtain p where p: "participate m = Some p" using body over by (cases "participate m") auto
        obtain d k where d: "p = Inr d" "wf_table k d" "settled d" "lookup d = lookup (current s)"
          using participate_correct[OF p m(2)] by blast
        let ?s = "\<lparr>current = d, scheduled = scheduled s @ [current s]\<rparr>"
        have "f True h v ?s = Some r" using body over m(1) p d(1) by simp
        moreover have "wf_map ?s" "contents_of ?s = contents_of s" using d by (auto simp: wf_map_def contents_of_def)
        ultimately show ?thesis using IH[of True h v ?s r] h v by simp
      next
        case ok
        then have "r = Inr (contents_of s h, s\<lparr>current := t\<rparr>)" using body by simp
        then show ?thesis using ok by (simp add: contents_of_def)
      qed
    qed
  qed
  then show ?thesis using assms by blast
qed

lemma put_hash_overflow:
  assumes "insertOrUpdate (current s) h v = Inr (INSERT_OVERFLOW, old, t)" and "migrationStart b t = Some m"
    and "participate m = Some (Inr d)"
  shows "put_hash b h v s = put_hash True h v \<lparr>current = d, scheduled = scheduled s @ [t]\<rparr>"
  using assms by (subst put_hash.simps) simp

text \<open>From the second attempt on, the table doubles until every key has its own home cell.\<close>

lemma put_hash_doubling_returns:
  assumes "roomy J H" and "J \<le> 30" and "h \<noteq> MapHashEmpty" and "v \<noteq> MapValMove" and "h \<in> H"
    and "wf_table k (current s)" and "settled (current s)" and "J \<le> k \<longrightarrow> tidy H (current s)"
    and "{h. lookup (current s) h \<noteq> MapValEmpty} \<subseteq> H"
  shows "\<exists>r. put_hash True h v s = Some r"
  using assms(6-9)
proof (induction "J - k" arbitrary: k s rule: less_induct)
  case less
  show ?case
  proof (cases "insertOrUpdate (current s) h v = Inr (INSERT_OVERFLOW, MapValEmpty, current s)")
    case True
    have lt: "k < J"
    proof (rule ccontr)
      assume "\<not> k < J"
      then show False
        using insert_tidy[OF less.prems(1,2) _ assms(1), of h v] less.prems(3) assms(3,5) True by auto
    qed
    obtain m where m: "migrationStart True (current s) = Some m" "job_ok (lookup (current s)) (next_size k) m"
      using migrationStart_ok[OF less.prems(1,2), of True] by auto
    have n: "next_size k = k + 1" using lt assms(2) by (simp add: next_size_def)
    obtain d k' where d: "participate m = Some (Inr d)" "wf_table k' d" "settled d" "lookup d = lookup (current s)"
      "k + 1 \<le> k'" "J \<le> k' \<longrightarrow> tidy H d"
      using participate_returns[OF assms(1,2) less.prems(4) m(2)] n by auto
    let ?s = "\<lparr>current = d, scheduled = scheduled s @ [current s]\<rparr>"
    have "J - k' < J - k" using lt d(5) by simp
    then have "\<exists>r. put_hash True h v ?s = Some r"
      using less.hyps[of k' ?s] d(2-4,6) less.prems(4) by simp
    then show ?thesis using put_hash_overflow[OF True m(1) d(1)] by simp
  next
    case False
    then obtain t where "insertOrUpdate (current s) h v = Inr (INSERT_OK, lookup (current s) h, t)"
      using insertOrUpdate_spec[OF less.prems(1,2) assms(3), of v] by auto
    then show ?thesis by (subst put_hash.simps) simp
  qed
qed

lemma put_hash_returns:
  assumes "roomy J H" and "J \<le> 30" and "h \<noteq> MapHashEmpty" and "v \<noteq> MapValMove" and "h \<in> H" and "wf_map s"
    and "{h. contents_of s h \<noteq> MapValEmpty} \<subseteq> H"
  shows "\<exists>r. put_hash b h v s = Some r"
proof -
  obtain k where k: "wf_table k (current s)" "settled (current s)" using assms(6) by (auto simp: wf_map_def)
  have H: "{h. lookup (current s) h \<noteq> MapValEmpty} \<subseteq> H" using assms(7) by (simp add: contents_of_def)
  show ?thesis
  proof (cases "insertOrUpdate (current s) h v = Inr (INSERT_OVERFLOW, MapValEmpty, current s)")
    case True
    obtain m j where m: "migrationStart b (current s) = Some m" "job_ok (lookup (current s)) j m"
      using migrationStart_ok[OF k, of b] by blast
    obtain d k' where d: "participate m = Some (Inr d)" "wf_table k' d" "settled d" "lookup d = lookup (current s)"
      "J \<le> k' \<longrightarrow> tidy H d"
      using participate_returns[OF assms(1,2) H m(2)] by blast
    let ?s = "\<lparr>current = d, scheduled = scheduled s @ [current s]\<rparr>"
    have "\<exists>r. put_hash True h v ?s = Some r"
      using d H by (intro put_hash_doubling_returns[OF assms(1-5), of k']) simp_all
    then show ?thesis using put_hash_overflow[OF True m(1) d(1)] by simp
  next
    case False
    then obtain t where "insertOrUpdate (current s) h v = Inr (INSERT_OK, lookup (current s) h, t)"
      using insertOrUpdate_spec[OF k assms(3), of v] by auto
    then show ?thesis by (subst put_hash.simps) simp
  qed
qed

subsection \<open>The map keeps its contract\<close>

text \<open>
  The hasher of the thread map, for \<open>JNIEnv\<close> structures of 8 bytes, and the states in which \<open>put\<close>
  of a key is known to return: the hashes in the map and the new one have, at some size, pairwise
  distinct home cells and fill at most three quarters of the table.
\<close>

definition env_hash :: "u64 \<Rightarrow> i64" where
  "env_hash = pointer_hash 8"

definition value_of :: "(u64 \<Rightarrow> i64) \<Rightarrow> map_state \<Rightarrow> u64 \<Rightarrow> u64" where
  "value_of hasher s k = contents_of s (hasher k)"

definition admits_key :: "(u64 \<Rightarrow> i64) \<Rightarrow> map_state \<Rightarrow> u64 \<Rightarrow> bool" where
  "admits_key hasher s k \<longleftrightarrow> (\<exists>J\<le>30. roomy J (insert (hasher k) {h. contents_of s h \<noteq> MapValEmpty}))"

lemma put_map_correct:
  assumes "put hasher k v s = Some r" and "wf_map s" and "hasher k \<noteq> MapHashEmpty" and "v \<noteq> MapValMove"
  shows "\<exists>s'. r = Inr (value_of hasher s k, s') \<and> wf_map s' \<and>
    (\<forall>k'. value_of hasher s' k' = (if hasher k' = hasher k then v else value_of hasher s k'))"
  using put_hash_correct[of False "hasher k" v s r] assms by (auto simp: put_def value_of_def)

lemma put_map_returns:
  assumes "admits_key hasher s k" and "wf_map s" and "hasher k \<noteq> MapHashEmpty" and "v \<noteq> MapValMove"
  shows "\<exists>r. put hasher k v s = Some r"
proof -
  obtain J where "J \<le> 30" "roomy J (insert (hasher k) {h. contents_of s h \<noteq> MapValEmpty})"
    using assms(1) by (auto simp: admits_key_def)
  then show ?thesis
    using put_hash_returns[of J _ "hasher k" v s False] assms(2-4) by (auto simp: put_def)
qed

lemma get_map_correct:
  assumes "wf_map s" and "hasher k \<noteq> MapHashEmpty"
  shows "get hasher k s = Some (Inr (value_of hasher s k))"
proof -
  obtain n where n: "wf_table n (current s)" "settled (current s)" using assms(1) by (auto simp: wf_map_def)
  obtain r where r: "find_cell (current s) (hasher k) = Some (Inr r)"
    "case r of None \<Rightarrow> lookup (current s) (hasher k) = MapValEmpty
     | Some i \<Rightarrow> i \<in> used_cells (current s) \<and> cell_hash (cells (current s) ! i) = hasher k \<and>
         lookup (current s) (hasher k) = cell_value (cells (current s) ! i)"
    using find_cell_lookup[OF n(1) assms(2)] by blast
  have "MapValEmpty \<noteq> MapValMove" by (simp add: MapValEmpty_def MapValMove_def)
  then show ?thesis
    using r settledD[OF n(2)]
    by (cases r) (auto simp: get_def value_of_def contents_of_def used_cells_def Let_def)
qed

lemma remove_map_correct:
  assumes "wf_map s" and "hasher k \<noteq> MapHashEmpty"
  shows "\<exists>s'. remove hasher k s = Some (Inr (value_of hasher s k, s')) \<and> wf_map s' \<and>
    (\<forall>k'. value_of hasher s' k' = (if hasher k' = hasher k then MapValEmpty else value_of hasher s k'))"
proof -
  obtain n where n: "wf_table n (current s)" "settled (current s)" using assms(1) by (auto simp: wf_map_def)
  obtain r where r: "find_cell (current s) (hasher k) = Some (Inr r)"
    "case r of None \<Rightarrow> lookup (current s) (hasher k) = MapValEmpty
     | Some i \<Rightarrow> i \<in> used_cells (current s) \<and> cell_hash (cells (current s) ! i) = hasher k \<and>
         lookup (current s) (hasher k) = cell_value (cells (current s) ! i)"
    using find_cell_lookup[OF n(1) assms(2)] by blast
  show ?thesis
  proof (cases r)
    case None
    then show ?thesis using r assms(1) by (auto simp: remove_def value_of_def contents_of_def)
  next
    case (Some i)
    then have i: "i \<in> used_cells (current s)" "i < length (cells (current s))"
      "cell_hash (cells (current s) ! i) = hasher k" using r by (auto simp: used_cells_def)
    let ?s = "s\<lparr>current := set_value i MapValEmpty (current s)\<rparr>"
    have "remove hasher k s = Some (Inr (value_of hasher s k, ?s))"
      using r Some settledD[OF n(2) i(2)] by (simp add: remove_def value_of_def contents_of_def)
    moreover have "wf_map ?s"
      using wf_set_value[OF n(1) i(2)] settled_set_value[OF n(2) i(2)]
      by (auto simp: wf_map_def MapValEmpty_def MapValMove_def)
    moreover have "contents_of ?s = (contents_of s)(hasher k := MapValEmpty)"
      using lookup_set_value[OF n(1) i(1)] i(3) by (simp add: contents_of_def)
    ultimately show ?thesis by (auto simp: value_of_def)
  qed
qed

lemma env_hash_not_empty: "env_hash k \<noteq> MapHashEmpty"
proof -
  have "\<not> bit (xor_shr 41 v) 63" for v by (rule xor_shr_top)
  then show ?thesis
    using xor_shl_5_ones[of _ 63] by (auto simp: env_hash_def pointer_hash_def MapHashEmpty_def Let_def)
qed

interpretation env_map: map_provider wf_map "value_of env_hash" "\<lambda>k k'. env_hash k = env_hash k'"
    "admits_key env_hash" "put env_hash" "get env_hash" "remove env_hash"
proof unfold_locales
  fix s k v r
  note ne = env_hash_not_empty[of k]
  show "\<exists>r. put env_hash k v s = Some r" if "wf_map s" "admits_key env_hash s k" "v \<noteq> MapValMove"
    using put_map_returns[where hasher = env_hash, OF that(2,1) ne that(3)] .
  show "\<exists>s'. r = Inr (value_of env_hash s k, s') \<and> wf_map s' \<and>
      (\<forall>k'. value_of env_hash s' k' = (if env_hash k = env_hash k' then v else value_of env_hash s k'))"
    if "wf_map s" "v \<noteq> MapValMove" "put env_hash k v s = Some r"
    using put_map_correct[where hasher = env_hash, OF that(3,1) ne that(2)] by (auto simp: eq_commute[of "env_hash k"])
  show "get env_hash k s = Some (Inr (value_of env_hash s k))" if "wf_map s"
    using get_map_correct[where hasher = env_hash, OF that ne] .
  show "\<exists>s'. remove env_hash k s = Some (Inr (value_of env_hash s k, s')) \<and> wf_map s' \<and>
      (\<forall>k'. value_of env_hash s' k' = (if env_hash k = env_hash k' then MapValEmpty else value_of env_hash s k'))"
    if "wf_map s"
    using remove_map_correct[where hasher = env_hash, OF that ne] by (auto simp: eq_commute[of "env_hash k"])
  show "value_of env_hash s k \<noteq> MapValMove" if "wf_map s"
    using that settled_lookup by (auto simp: wf_map_def value_of_def contents_of_def)
  show "equivp (\<lambda>k k'. env_hash k = env_hash k')" by (intro equivpI reflpI sympI transpI) simp_all
qed (simp add: value_of_def)

subsection \<open>Properties\<close>

lemma new_map_wf:
  assumes "0 < sint n" and "sint n \<le> 2 ^ 30"
  shows "wf_map (new_map n)" and "contents_of (new_map n) = (\<lambda>_. MapValEmpty)"
  using new_table_wf[OF assms] by (auto simp: wf_map_def new_map_def contents_of_def)

lemma new_map_admits:
  assumes "0 < sint n" and "sint n \<le> 2 ^ 30"
  shows "admits_key hasher (new_map n) k"
  using new_map_wf(2)[OF assms] by (auto simp: admits_key_def roomy_def intro!: exI[of _ 5])

text \<open>
  C14: A migration loses nothing. Started on a well-formed table that no other migration is moving, at
  the estimated or the double size, and restarted with twice the size as often as its destination
  overflows, it can only end with a settled, well-formed table that holds exactly the same map; and it
  does end when at some size the stored hashes have home cells of their own.
\<close>

theorem migration_keeps_the_map:
  assumes "wf_table k t" and "settled t"
  shows "\<exists>m. migrationStart double t = Some m \<and>
    (\<forall>r. participate m = Some r \<longrightarrow>
       (\<exists>d k'. r = Inr d \<and> wf_table k' d \<and> settled d \<and> lookup d = lookup t)) \<and>
    ((\<exists>J\<le>30. roomy J {h. lookup t h \<noteq> MapValEmpty}) \<longrightarrow> (\<exists>r. participate m = Some r))"
proof -
  obtain m j where m: "migrationStart double t = Some m" "job_ok (lookup t) j m"
    using migrationStart_ok[OF assms] by blast
  have "\<exists>d k'. r = Inr d \<and> wf_table k' d \<and> settled d \<and> lookup d = lookup t" if "participate m = Some r" for r
    using participate_correct[OF that m(2)] .
  moreover have "\<exists>r. participate m = Some r" if "J \<le> 30" "roomy J {h. lookup t h \<noteq> MapValEmpty}" for J
    using participate_returns[OF that(2,1) subset_refl m(2)] by blast
  ultimately show ?thesis using m(1) by blast
qed

theorem migration_keeps_the_map_witness:
  "\<exists>m d. migrationStart True (new_table 32) = Some m \<and> participate m = Some (Inr d) \<and> lookup d = lookup (new_table 32)"
proof -
  obtain k where k: "wf_table k (new_table 32)" "settled (new_table 32)" "lookup (new_table 32) = (\<lambda>_. MapValEmpty)"
    using new_table_wf[of 32] by auto
  have "roomy 5 {h. lookup (new_table 32) h \<noteq> MapValEmpty}" by (simp add: k(3) roomy_def)
  moreover have "(5 :: nat) \<le> 30" by simp
  ultimately show ?thesis using migration_keeps_the_map[OF k(1,2), of True] by metis
qed

text \<open>
  C13: \<open>put\<close>, with every migration it causes, is a map update: when it returns it has stored the value
  under the key's hash, changed no key of another hash, returned the value that was there and left the
  map well formed. It returns whenever the hashes in use, the new one included, have home cells of their own at some
  size.
\<close>

theorem put_updates_the_map:
  assumes "wf_map s" and "hasher k \<noteq> MapHashEmpty" and "v \<noteq> MapValMove"
  shows "(\<forall>r. put hasher k v s = Some r \<longrightarrow>
      (\<exists>s'. r = Inr (value_of hasher s k, s') \<and> wf_map s' \<and>
         (\<forall>k'. value_of hasher s' k' = (if hasher k' = hasher k then v else value_of hasher s k')))) \<and>
    (admits_key hasher s k \<longrightarrow> (\<exists>r. put hasher k v s = Some r))"
  using put_map_correct[where hasher = hasher, OF _ assms] put_map_returns[where hasher = hasher, OF _ assms]
  by blast

theorem put_updates_the_map_witness:
  "\<exists>s'. put env_hash 4096 77 (new_map 256) = Some (Inr (MapValEmpty, s')) \<and> value_of env_hash s' 4096 = 77"
proof -
  have w: "wf_map (new_map 256)" "contents_of (new_map 256) = (\<lambda>_. MapValEmpty)" "admits_key env_hash (new_map 256) 4096"
    using new_map_wf[of 256] new_map_admits[of 256] by simp_all
  have "(77 :: u64) \<noteq> MapValMove" by (simp add: MapValMove_def)
  then show ?thesis
    using put_updates_the_map[where hasher = env_hash and k = 4096 and v = 77, OF w(1) env_hash_not_empty] w(2,3)
    by (auto simp: value_of_def)
qed

text \<open>
  \<open>get\<close> and \<open>remove\<close> return on every well-formed map, without waiting for a migration: \<open>get\<close>
  yields the value stored under the key's hash (null when there is none), and \<open>remove\<close> yields it and
  deletes it, changing no key of another hash.
\<close>

theorem get_and_remove:
  assumes "wf_map s" and "hasher k \<noteq> MapHashEmpty"
  shows "get hasher k s = Some (Inr (value_of hasher s k)) \<and>
    (\<exists>s'. remove hasher k s = Some (Inr (value_of hasher s k, s')) \<and> wf_map s' \<and>
       (\<forall>k'. value_of hasher s' k' = (if hasher k' = hasher k then MapValEmpty else value_of hasher s k')))"
  using get_map_correct[of s hasher k] remove_map_correct[of s hasher k] assms by blast

theorem get_and_remove_witness:
  "get env_hash 8 (new_map 256) = Some (Inr MapValEmpty) \<and>
   (\<exists>s'. remove env_hash 8 (new_map 256) = Some (Inr (MapValEmpty, s')))"
proof -
  have w: "wf_map (new_map 256)" "contents_of (new_map 256) = (\<lambda>_. MapValEmpty)"
    using new_map_wf[of 256] by simp_all
  show ?thesis
    using get_and_remove[where hasher = env_hash and k = 8, OF w(1) env_hash_not_empty] w(2) by (auto simp: value_of_def)
qed

end
