(* ===== verification/Map_Reclaim.thy ===== *)
theory Map_Reclaim
  imports Base
begin

text \<open>
  \<open>map::GC\<close> (\<^verbatim>\<open>concurrent_map.h\<close>), the epochs that decide when a replaced hash table may be
  deleted. Every thread of the thread map has a local epoch. A table waits in \<open>recentGarbage\<close> and then in
  \<open>oldGarbage\<close>; the global epoch moves on when every thread has been seen in it.

  All operations hold the mutex except \<open>ss_safepoint\<close>, which runs in a signal handler; each is one step.
  Tables are opaque here. The fields \<open>deleted\<close> and \<open>owed\<close> are auxiliary: the tables deleted so far,
  and for each table the threads attached when it was scheduled that have not been at a safepoint since.
\<close>

record 'g gc =
  totalThreads :: int
  globalEpoch :: u32
  remaining :: int
  recentGarbage :: "'g list"
  oldGarbage :: "'g list"
  deleted :: "'g list"

definition kEpochInitial :: u32 where "kEpochInitial = -1"

definition new_gc :: "'g gc" where
  "new_gc = \<lparr>totalThreads = 0, globalEpoch = 1, remaining = 0, recentGarbage = [], oldGarbage = [], deleted = []\<rparr>"

definition newEpoch :: "'g gc \<Rightarrow> 'g gc" where
  "newEpoch g = g\<lparr>deleted := deleted g @ rev (oldGarbage g), globalEpoch := globalEpoch g + 1,
     remaining := totalThreads g, oldGarbage := recentGarbage g, recentGarbage := []\<rparr>"

definition attachThread :: "'g gc \<Rightarrow> u32 \<times> 'g gc" where
  "attachThread g =
     (globalEpoch g - 1, g\<lparr>totalThreads := totalThreads g + 1, remaining := remaining g + 1\<rparr>)"

definition detachThread :: "u32 \<Rightarrow> 'g gc \<Rightarrow> u32 \<times> 'g gc" where
  "detachThread localEpoch g =
     (let g1 = g\<lparr>totalThreads := totalThreads g - 1\<rparr>;
          g2 = (if localEpoch < globalEpoch g1 then g1\<lparr>remaining := remaining g1 - 1\<rparr> else g1);
          g3 = (if remaining g2 = 0 then newEpoch g2 else g2)
      in (kEpochInitial, g3))"

definition safepoint :: "u32 \<Rightarrow> 'g gc \<Rightarrow> u32 \<times> 'g gc" where
  "safepoint localEpoch g =
     (let (l, g1) = (if localEpoch < globalEpoch g
                     then (globalEpoch g, g\<lparr>remaining := remaining g - 1\<rparr>) else (localEpoch, g))
      in (l, if remaining g1 = 0 then newEpoch g1 else g1))"

definition ss_safepoint :: "u32 \<Rightarrow> 'g gc \<Rightarrow> u32 \<times> 'g gc" where
  "ss_safepoint localEpoch g =
     (if localEpoch < globalEpoch g then (globalEpoch g, g\<lparr>remaining := remaining g - 1\<rparr>) else (localEpoch, g))"

definition scheduleDelete :: "'g \<Rightarrow> 'g gc \<Rightarrow> 'g gc" where
  "scheduleDelete t g = g\<lparr>recentGarbage := recentGarbage g @ [t]\<rparr>"

text \<open>\<open>~GC\<close>: at the end of the process what waited for another epoch is deleted as well.\<close>

definition delete_gc :: "'g gc \<Rightarrow> 'g gc" where
  "delete_gc g = newEpoch (g\<lparr>oldGarbage := oldGarbage g @ recentGarbage g, recentGarbage := []\<rparr>)"

text \<open>The callers in \<open>GCHelper\<close> (\<^verbatim>\<open>thread_map.h\<close>).\<close>

definition gc_detach :: "u32 \<Rightarrow> 'g gc \<Rightarrow> u32 \<times> 'g gc" where
  "gc_detach localEpoch g = (if localEpoch \<noteq> kEpochInitial then detachThread localEpoch g else (localEpoch, g))"

lemma delete_gc_deletes_all:
  "deleted (delete_gc g) = deleted g @ rev (recentGarbage g) @ rev (oldGarbage g)"
  "oldGarbage (delete_gc g) = []" "recentGarbage (delete_gc g) = []"
  by (simp_all add: delete_gc_def newEpoch_def)

subsection \<open>Threads and their steps\<close>

datatype 'g gc_event = Attach nat | Detach nat | Safepoint nat | Signal_Safepoint nat | Schedule 'g

text \<open>The system: the collector, the local epoch of each attached thread, and the tables' debts.\<close>

record 'g gc_sys =
  col :: "'g gc"
  locals :: "nat \<rightharpoonup> u32"
  owed :: "'g \<Rightarrow> nat set"

definition settle :: "nat \<Rightarrow> ('g \<Rightarrow> nat set) \<Rightarrow> 'g \<Rightarrow> nat set" where
  "settle i d = (\<lambda>t. d t - {i})"

fun gc_step :: "'g gc_event \<Rightarrow> 'g gc_sys \<Rightarrow> 'g gc_sys" where
  "gc_step (Attach i) s =
     (case attachThread (col s) of (l, g) \<Rightarrow> s\<lparr>col := g, locals := (locals s)(i \<mapsto> l)\<rparr>)"
| "gc_step (Detach i) s =
     (case locals s i of None \<Rightarrow> s
      | Some l \<Rightarrow> (case gc_detach l (col s) of (l', g) \<Rightarrow>
          s\<lparr>col := g, locals := (locals s)(i := None), owed := settle i (owed s)\<rparr>))"
| "gc_step (Safepoint i) s =
     (case locals s i of None \<Rightarrow> s
      | Some l \<Rightarrow> (case safepoint l (col s) of (l', g) \<Rightarrow>
          s\<lparr>col := g, locals := (locals s)(i \<mapsto> l'), owed := settle i (owed s)\<rparr>))"
| "gc_step (Signal_Safepoint i) s =
     (case locals s i of None \<Rightarrow> s
      | Some l \<Rightarrow> (case ss_safepoint l (col s) of (l', g) \<Rightarrow>
          s\<lparr>col := g, locals := (locals s)(i \<mapsto> l'), owed := settle i (owed s)\<rparr>))"
| "gc_step (Schedule t) s =
     s\<lparr>col := scheduleDelete t (col s), owed := (owed s)(t := dom (locals s))\<rparr>"

text \<open>
  Well-behaved steps: a thread attaches once, tables are scheduled once, and the 32 bit epoch does not
  wrap round.
\<close>

fun gc_event_ok :: "'g gc_sys \<Rightarrow> 'g gc_event \<Rightarrow> bool" where
  "gc_event_ok s (Attach i) = (locals s i = None)"
| "gc_event_ok s (Schedule t) = (t \<notin> set (recentGarbage (col s)) \<union> set (oldGarbage (col s)) \<union> set (deleted (col s)))"
| "gc_event_ok s _ = True"

definition epoch_in_range :: "'g gc_sys \<Rightarrow> bool" where
  "epoch_in_range s \<longleftrightarrow> unat (globalEpoch (col s)) < 2 ^ 31"

inductive gc_reachable :: "'g gc_sys \<Rightarrow> bool" where
  gc_start: "gc_reachable \<lparr>col = new_gc, locals = (\<lambda>_. None), owed = (\<lambda>_. {})\<rparr>"
| gc_step: "gc_reachable s \<Longrightarrow> gc_event_ok s e \<Longrightarrow> epoch_in_range s \<Longrightarrow> gc_reachable (gc_step e s)"

subsection \<open>The invariant\<close>

definition behind :: "'g gc_sys \<Rightarrow> nat set" where
  "behind s = {i. locals s i = Some (globalEpoch (col s) - 1)}"

text \<open>
  Every attached thread is in the current epoch or one behind, \<open>remaining\<close> counts those behind, and
  only they can still owe an old table a safepoint.
\<close>

definition gc_inv :: "'g gc_sys \<Rightarrow> bool" where
  "gc_inv s \<longleftrightarrow> finite (dom (locals s)) \<and> totalThreads (col s) = int (card (dom (locals s))) \<and>
     (\<forall>i l. locals s i = Some l \<longrightarrow> l = globalEpoch (col s) \<or> l = globalEpoch (col s) - 1) \<and>
     remaining (col s) = int (card (behind s)) \<and>
     1 \<le> unat (globalEpoch (col s)) \<and> unat (globalEpoch (col s)) \<le> 2 ^ 31 \<and>
     (\<forall>t\<in>set (oldGarbage (col s)). owed s t \<subseteq> behind s) \<and>
     (\<forall>t\<in>set (recentGarbage (col s)). owed s t \<subseteq> dom (locals s)) \<and>
     (\<forall>t\<in>set (deleted (col s)). owed s t = {})"

lemma behind_dom: "behind s \<subseteq> dom (locals s)"
  by (auto simp: behind_def)

lemma finite_behind: "gc_inv s \<Longrightarrow> finite (behind s)"
  using finite_subset[OF behind_dom[of s]] by (simp add: gc_inv_def)

lemma epoch_pred:
  assumes "gc_inv s"
  shows "globalEpoch (col s) - 1 < globalEpoch (col s)" and "globalEpoch (col s) - 1 \<noteq> globalEpoch (col s)"
    and "globalEpoch (col s) - 1 \<noteq> kEpochInitial" and "globalEpoch (col s) \<noteq> kEpochInitial"
proof -
  let ?g = "globalEpoch (col s)"
  have g: "1 \<le> unat ?g" "unat ?g \<le> 2 ^ 31" using assms by (auto simp: gc_inv_def)
  then have "?g \<noteq> 0" by auto
  then have p: "unat (?g - 1) = unat ?g - 1" by (simp add: unat_minus_one)
  have k: "unat kEpochInitial = 2 ^ 32 - 1"
    by (simp add: kEpochInitial_def unsigned_minus_1_eq_mask mask_eq_exp_minus_1)
  show "?g - 1 < ?g" using p g by (simp add: word_less_nat_alt)
  then show "?g - 1 \<noteq> ?g" by simp
  show "?g - 1 \<noteq> kEpochInitial" using p g k by (auto dest: arg_cong[of _ _ unat])
  show "?g \<noteq> kEpochInitial" using g k by (auto dest: arg_cong[of _ _ unat])
qed

lemma less_epoch_iff:
  "gc_inv s \<Longrightarrow> locals s i = Some l \<Longrightarrow> l < globalEpoch (col s) \<longleftrightarrow> i \<in> behind s"
  using epoch_pred[of s] by (auto simp: gc_inv_def behind_def)

lemma newEpoch_inv:
  assumes "gc_inv s" and "behind s = {}" and "unat (globalEpoch (col s)) < 2 ^ 31"
  shows "gc_inv (s\<lparr>col := newEpoch (col s)\<rparr>)"
proof -
  let ?s = "s\<lparr>col := newEpoch (col s)\<rparr>" and ?g = "globalEpoch (col s)"
  have loc: "locals s i = Some l \<Longrightarrow> l = ?g" for i l
    using assms(1,2) by (auto simp: gc_inv_def behind_def)
  have b: "behind ?s = dom (locals s)" using loc by (auto simp: behind_def newEpoch_def)
  have "unat (?g + 1) = unat ?g + 1" using assms(3) by (simp add: unat_word_ariths)
  then show ?thesis
    using assms b loc by (auto simp: gc_inv_def newEpoch_def)
qed

text \<open>The common end of \<open>safepoint\<close> and \<open>detachThread\<close>.\<close>

definition turn :: "'g gc_sys \<Rightarrow> 'g gc_sys" where
  "turn s = (if remaining (col s) = 0 then s\<lparr>col := newEpoch (col s)\<rparr> else s)"

lemma turn_inv:
  assumes "gc_inv s" and "unat (globalEpoch (col s)) < 2 ^ 31"
  shows "gc_inv (turn s)"
proof (cases "remaining (col s) = 0")
  case True
  then have "behind s = {}" using assms(1) finite_behind[OF assms(1)] by (auto simp: gc_inv_def)
  then show ?thesis using newEpoch_inv[OF assms(1)] assms(2) True by (simp add: turn_def)
qed (use assms in \<open>simp add: turn_def\<close>)

text \<open>A thread that moves up to the current epoch, and one that leaves.\<close>

definition caught_up :: "nat \<Rightarrow> 'g gc_sys \<Rightarrow> 'g gc_sys" where
  "caught_up i s = s\<lparr>col := (if i \<in> behind s then (col s)\<lparr>remaining := remaining (col s) - 1\<rparr> else col s),
     locals := (locals s)(i \<mapsto> globalEpoch (col s)), owed := settle i (owed s)\<rparr>"

definition gone :: "nat \<Rightarrow> 'g gc_sys \<Rightarrow> 'g gc_sys" where
  "gone i s = s\<lparr>col := (let g = (col s)\<lparr>totalThreads := totalThreads (col s) - 1\<rparr> in
       if i \<in> behind s then g\<lparr>remaining := remaining g - 1\<rparr> else g),
     locals := (locals s)(i := None), owed := settle i (owed s)\<rparr>"

lemma card_behind_minus:
  assumes "gc_inv s"
  shows "int (card (behind s - {i})) = remaining (col s) - (if i \<in> behind s then 1 else 0)"
proof -
  have "card (behind s) > 0" if "i \<in> behind s" using that finite_behind[OF assms] by (auto simp: card_gt_0_iff)
  then show ?thesis using assms finite_behind[OF assms] by (auto simp: gc_inv_def card_Diff_singleton_if of_nat_diff)
qed

lemma caught_up_inv:
  assumes "gc_inv s" and "i \<in> dom (locals s)"
  shows "gc_inv (caught_up i s)"
proof -
  have b: "behind (caught_up i s) = behind s - {i}"
    using epoch_pred(2)[OF assms(1)] by (auto simp: behind_def caught_up_def)
  have d: "dom (locals (caught_up i s)) = dom (locals s)" using assms(2) by (auto simp: caught_up_def)
  have g: "globalEpoch (col (caught_up i s)) = globalEpoch (col s)" "totalThreads (col (caught_up i s)) = totalThreads (col s)"
    "oldGarbage (col (caught_up i s)) = oldGarbage (col s)" "recentGarbage (col (caught_up i s)) = recentGarbage (col s)"
    "deleted (col (caught_up i s)) = deleted (col s)" "owed (caught_up i s) t = owed s t - {i}"
    "remaining (col (caught_up i s)) = remaining (col s) - (if i \<in> behind s then 1 else 0)" for t
    by (simp_all add: caught_up_def settle_def)
  show ?thesis
    unfolding gc_inv_def b d g card_behind_minus[OF assms(1)]
    using assms(1) by (auto simp: gc_inv_def caught_up_def)
qed

lemma gone_inv:
  assumes "gc_inv s" and "i \<in> dom (locals s)"
  shows "gc_inv (gone i s)"
proof -
  have b: "behind (gone i s) = behind s - {i}" by (auto simp: behind_def gone_def Let_def)
  have d: "dom (locals (gone i s)) = dom (locals s) - {i}" by (auto simp: gone_def)
  have "card (dom (locals s)) > 0" using assms by (auto simp: gc_inv_def card_gt_0_iff)
  then have c: "int (card (dom (locals s) - {i})) = int (card (dom (locals s))) - 1"
    using assms by (simp add: of_nat_diff)
  have g: "globalEpoch (col (gone i s)) = globalEpoch (col s)" "totalThreads (col (gone i s)) = totalThreads (col s) - 1"
    "oldGarbage (col (gone i s)) = oldGarbage (col s)" "recentGarbage (col (gone i s)) = recentGarbage (col s)"
    "deleted (col (gone i s)) = deleted (col s)" "owed (gone i s) t = owed s t - {i}"
    "remaining (col (gone i s)) = remaining (col s) - (if i \<in> behind s then 1 else 0)" for t
    by (simp_all add: gone_def settle_def Let_def)
  show ?thesis
    unfolding gc_inv_def b d g card_behind_minus[OF assms(1)] c
    using assms(1) by (auto simp: gc_inv_def gone_def)
qed

subsection \<open>Every step keeps the invariant\<close>

lemma gc_step_Safepoint:
  assumes "gc_inv s" and "locals s i = Some l"
  shows "gc_step (Safepoint i) s = turn (caught_up i s)"
    and "gc_step (Signal_Safepoint i) s = caught_up i s"
proof -
  have l: "l = globalEpoch (col s) \<or> l = globalEpoch (col s) - 1" using assms by (auto simp: gc_inv_def)
  have less: "l < globalEpoch (col s) \<longleftrightarrow> i \<in> behind s" using less_epoch_iff[OF assms] .
  have eq: "i \<notin> behind s \<Longrightarrow> l = globalEpoch (col s)" using l assms(2) by (auto simp: behind_def)
  show "gc_step (Safepoint i) s = turn (caught_up i s)"
    using less eq assms(2)
    by (cases "i \<in> behind s") (simp_all add: safepoint_def turn_def caught_up_def)
  show "gc_step (Signal_Safepoint i) s = caught_up i s"
    using less eq assms(2)
    by (cases "i \<in> behind s") (simp_all add: ss_safepoint_def caught_up_def)
qed

lemma gc_step_Detach:
  assumes "gc_inv s" and "locals s i = Some l"
  shows "gc_step (Detach i) s = turn (gone i s)"
proof -
  have "l = globalEpoch (col s) \<or> l = globalEpoch (col s) - 1" using assms by (auto simp: gc_inv_def)
  then have "l \<noteq> kEpochInitial" using epoch_pred(3,4)[OF assms(1)] by auto
  then show ?thesis
    using less_epoch_iff[OF assms] assms(2)
    by (cases "i \<in> behind s") (simp_all add: gc_detach_def detachThread_def turn_def gone_def Let_def)
qed

lemma gc_step_Attach_inv:
  assumes "gc_inv s" and "locals s i = None"
  shows "gc_inv (gc_step (Attach i) s)"
proof -
  let ?s = "gc_step (Attach i) s"
  have b: "behind ?s = insert i (behind s)" by (auto simp: behind_def attachThread_def)
  have d: "dom (locals ?s) = insert i (dom (locals s))" by (simp add: attachThread_def)
  have i: "i \<notin> dom (locals s)" "i \<notin> behind s" using assms(2) by (auto simp: behind_def)
  show ?thesis
    unfolding gc_inv_def b d
    using assms(1) i finite_behind[OF assms(1)] by (auto simp: gc_inv_def attachThread_def)
qed

lemma gc_step_inv:
  assumes "gc_inv s" and "gc_event_ok s e" and "epoch_in_range s"
  shows "gc_inv (gc_step e s)"
proof (cases e)
  case (Attach i)
  then show ?thesis using gc_step_Attach_inv[OF assms(1)] assms(2) by simp
next
  case (Detach i)
  show ?thesis
  proof (cases "locals s i")
    case (Some l)
    have "gc_inv (gone i s)" using gone_inv[OF assms(1)] Some by auto
    moreover have "globalEpoch (col (gone i s)) = globalEpoch (col s)" by (simp add: gone_def Let_def)
    ultimately show ?thesis
      using turn_inv[of "gone i s"] gc_step_Detach[OF assms(1) Some] assms(3) Detach by (simp add: epoch_in_range_def)
  qed (use assms(1) Detach in simp)
next
  case (Safepoint i)
  show ?thesis
  proof (cases "locals s i")
    case (Some l)
    have "gc_inv (caught_up i s)" using caught_up_inv[OF assms(1)] Some by auto
    moreover have "globalEpoch (col (caught_up i s)) = globalEpoch (col s)" by (simp add: caught_up_def)
    ultimately show ?thesis
      using turn_inv[of "caught_up i s"] gc_step_Safepoint(1)[OF assms(1) Some] assms(3) Safepoint
      by (simp add: epoch_in_range_def)
  qed (use assms(1) Safepoint in simp)
next
  case (Signal_Safepoint i)
  show ?thesis
  proof (cases "locals s i")
    case (Some l)
    then show ?thesis
      using caught_up_inv[OF assms(1), of i] gc_step_Safepoint(2)[OF assms(1) Some] Signal_Safepoint by auto
  qed (use assms(1) Signal_Safepoint in simp)
next
  case (Schedule t)
  have "behind (gc_step e s) = behind s" by (simp add: Schedule behind_def scheduleDelete_def)
  then show ?thesis using assms(1,2) Schedule by (auto simp: gc_inv_def scheduleDelete_def)
qed

lemma gc_reachable_inv: "gc_reachable s \<Longrightarrow> gc_inv s"
proof (induction rule: gc_reachable.induct)
  case gc_start
  then show ?case by (simp add: gc_inv_def new_gc_def behind_def)
next
  case (gc_step s e)
  then show ?case using gc_step_inv by blast
qed

subsection \<open>Properties\<close>

text \<open>
  C25: A table is deleted only after its grace period: in every reachable state no thread that was
  attached when a deleted table was scheduled still owes it a safepoint (or its departure).
\<close>

theorem tables_outlive_their_readers:
  assumes "gc_reachable s"
  shows "\<forall>t\<in>set (deleted (col s)). owed s t = {}"
  using gc_reachable_inv[OF assms] by (simp add: gc_inv_def)

definition example_gc :: "nat gc_sys" where
  "example_gc = gc_step (Safepoint 2) (gc_step (Safepoint 1) (gc_step (Safepoint 2) (gc_step (Safepoint 1)
     (gc_step (Schedule 7) (gc_step (Attach 2) (gc_step (Attach 1)
       \<lparr>col = new_gc, locals = (\<lambda>_. None), owed = (\<lambda>_. {})\<rparr>))))))"

theorem tables_outlive_their_readers_witness: "7 \<in> set (deleted (col example_gc)) \<and> owed example_gc 7 = {}"
proof -
  have "gc_reachable example_gc"
    unfolding example_gc_def
    by (intro gc_step gc_start)
      (simp_all add: new_gc_def epoch_in_range_def attachThread_def scheduleDelete_def safepoint_def newEpoch_def Let_def)
  moreover have "7 \<in> set (deleted (col example_gc))"
    by (simp add: example_gc_def new_gc_def attachThread_def scheduleDelete_def safepoint_def newEpoch_def Let_def)
  ultimately show ?thesis using tables_outlive_their_readers[of example_gc] by blast
qed

text \<open>
  \<open>remaining\<close> is exact: in every reachable state it is the number of attached threads that are one
  epoch behind, every other attached thread is in the current epoch, and \<open>totalThreads\<close> is the number
  of attached threads.
\<close>

theorem remaining_counts_threads_behind:
  assumes "gc_reachable s"
  shows "totalThreads (col s) = int (card (dom (locals s))) \<and>
    remaining (col s) = int (card {i. locals s i = Some (globalEpoch (col s) - 1)}) \<and>
    (\<forall>i\<in>dom (locals s). locals s i \<in> {Some (globalEpoch (col s)), Some (globalEpoch (col s) - 1)})"
  using gc_reachable_inv[OF assms] unfolding gc_inv_def behind_def by fastforce

theorem remaining_counts_threads_behind_witness:
  "totalThreads (col (gc_step (Attach 1) \<lparr>col = (new_gc :: nat gc), locals = (\<lambda>_. None), owed = (\<lambda>_. {})\<rparr>)) = 1"
proof -
  let ?s0 = "\<lparr>col = (new_gc :: nat gc), locals = (\<lambda>_. None), owed = (\<lambda>_. {})\<rparr>"
  have "gc_reachable (gc_step (Attach 1) ?s0)"
    by (intro gc_step gc_start) (simp_all add: epoch_in_range_def new_gc_def)
  from remaining_counts_threads_behind[OF this] show ?thesis by (simp add: attachThread_def)
qed

fun about :: "nat \<Rightarrow> 'g gc_event \<Rightarrow> bool" where
  "about i (Attach j) = (i = j)"
| "about i (Detach j) = (i = j)"
| "about i (Safepoint j) = (i = j)"
| "about i (Signal_Safepoint j) = (i = j)"
| "about i (Schedule t) = False"

fun gc_run :: "'g gc_event list \<Rightarrow> 'g gc_sys \<Rightarrow> 'g gc_sys" where
  "gc_run [] s = s"
| "gc_run (e # es) s = gc_run es (gc_step e s)"

fun gc_run_ok :: "'g gc_event list \<Rightarrow> 'g gc_sys \<Rightarrow> bool" where
  "gc_run_ok [] s = True"
| "gc_run_ok (e # es) s = (gc_event_ok s e \<and> epoch_in_range s \<and> gc_run_ok es (gc_step e s))"

lemma turn_blocked: "gc_inv s \<Longrightarrow> i \<in> behind s \<Longrightarrow> turn s = s"
  using finite_behind[of s] by (auto simp: turn_def gc_inv_def)

lemma blocked_step:
  assumes "gc_inv s" and "i \<in> behind s" and "gc_event_ok s e" and "\<not> about i e"
  shows "i \<in> behind (gc_step e s) \<and> deleted (col (gc_step e s)) = deleted (col s) \<and>
    globalEpoch (col (gc_step e s)) = globalEpoch (col s)"
proof (cases e)
  case (Attach j)
  then show ?thesis using assms by (auto simp: behind_def attachThread_def)
next
  case (Detach j)
  show ?thesis
  proof (cases "locals s j")
    case (Some l)
    have i: "i \<in> behind (gone j s)" using assms(2,4) Detach by (auto simp: behind_def gone_def Let_def)
    have "gc_step e s = gone j s"
      using gc_step_Detach[OF assms(1) Some] turn_blocked[OF gone_inv[OF assms(1)] i] Some Detach by auto
    then show ?thesis using i by (simp add: gone_def Let_def)
  qed (use assms Detach in simp)
next
  case (Safepoint j)
  show ?thesis
  proof (cases "locals s j")
    case (Some l)
    have i: "i \<in> behind (caught_up j s)" using assms(2,4) Safepoint by (auto simp: behind_def caught_up_def)
    have "gc_step e s = caught_up j s"
      using gc_step_Safepoint(1)[OF assms(1) Some] turn_blocked[OF caught_up_inv[OF assms(1)] i] Some Safepoint by auto
    then show ?thesis using i by (simp add: caught_up_def)
  qed (use assms Safepoint in simp)
next
  case (Signal_Safepoint j)
  show ?thesis
  proof (cases "locals s j")
    case (Some l)
    have "i \<in> behind (caught_up j s)" using assms(2,4) Signal_Safepoint by (auto simp: behind_def caught_up_def)
    then show ?thesis using gc_step_Safepoint(2)[OF assms(1) Some] Signal_Safepoint by (simp add: caught_up_def)
  qed (use assms Signal_Safepoint in simp)
next
  case (Schedule t)
  then show ?thesis using assms(2) by (simp add: behind_def scheduleDelete_def)
qed

text \<open>
  C35: One registered thread that is behind and is never heard of again stops the reclamation for good:
  whatever all the others do, the epoch stays where it is and no table is deleted any more.
\<close>

theorem silent_thread_stops_reclamation:
  assumes "gc_reachable s" and "locals s i = Some (globalEpoch (col s) - 1)"
    and "\<forall>e\<in>set es. \<not> about i e" and "gc_run_ok es s"
  shows "deleted (col (gc_run es s)) = deleted (col s) \<and> globalEpoch (col (gc_run es s)) = globalEpoch (col s)"
  using assms
proof (induction es arbitrary: s)
  case (Cons e es)
  have i: "i \<in> behind s" using Cons.prems(2) by (simp add: behind_def)
  have b: "i \<in> behind (gc_step e s) \<and> deleted (col (gc_step e s)) = deleted (col s) \<and>
      globalEpoch (col (gc_step e s)) = globalEpoch (col s)"
    using blocked_step[OF gc_reachable_inv[OF Cons.prems(1)] i] Cons.prems(3,4) by simp
  have "gc_reachable (gc_step e s)" using Cons.prems(1,4) by (auto intro: gc_step)
  then show ?case using Cons.IH[of "gc_step e s"] Cons.prems(3,4) b by (simp add: behind_def)
qed simp

theorem silent_thread_stops_reclamation_witness:
  "deleted (col (gc_run [Safepoint 1, Schedule 7, Safepoint 1, Safepoint 1]
     (gc_step (Attach 2) (gc_step (Attach 1) \<lparr>col = (new_gc :: nat gc), locals = (\<lambda>_. None), owed = (\<lambda>_. {})\<rparr>)))) = []"
proof -
  let ?s = "gc_step (Attach 2) (gc_step (Attach 1) \<lparr>col = (new_gc :: nat gc), locals = (\<lambda>_. None), owed = (\<lambda>_. {})\<rparr>)"
  have "gc_reachable ?s"
    by (intro gc_step gc_start) (simp_all add: epoch_in_range_def new_gc_def attachThread_def)
  then show ?thesis
    using silent_thread_stops_reclamation[of ?s 2 "[Safepoint 1, Schedule 7, Safepoint 1, Safepoint 1]"]
    by (simp add: attachThread_def new_gc_def epoch_in_range_def safepoint_def scheduleDelete_def newEpoch_def)
qed

end
