(* ===== verification/Thread_Map.thy ===== *)
theory Thread_Map
  imports Concurrent_Map Map_Reclaim Thread_Bucket
begin

text \<open>
  \<open>ThreadMapBase\<close> (\<^verbatim>\<open>thread_map.h\<close>): the map from \<open>JNIEnv\<close> pointers to thread buckets,
  a template over its map provider. The operations below take the provider's as arguments; what they
  guarantee is proved once from the provider's contract, and then holds of the recorder's instance.

  A bucket is created at an address \<open>a\<close> chosen by \<open>new\<close>, and kept in the map as that address. The
  tables a \<open>put\<close> has replaced are read off the provider's state by \<open>replaced\<close> and scheduled with the
  collector, as \<open>finishMigration\<close> does.
\<close>

record ('s, 'g) thread_map =
  tmap :: 's
  buckets :: bucket_heap
  collector :: "'g gc"

definition new_bucket :: "jint \<Rightarrow> byte list \<Rightarrow> 'g gc \<Rightarrow> thread_bucket \<times> 'g gc" where
  "new_bucket i n g = (case attachThread g of (e, g1) \<Rightarrow>
     (\<lparr>tid = i, name = n, refs = 1, localEpoch = e\<rparr>, g1))"

text \<open>The pointer a value of the map stands for; null is no bucket.\<close>

definition bucket_at :: "u64 \<Rightarrow> addr option" where
  "bucket_at v = (if v = MapValEmpty then None else Some (unat v))"

definition set_epoch :: "addr \<Rightarrow> u32 \<Rightarrow> bucket_heap \<Rightarrow> bucket_heap" where
  "set_epoch a e h = (case h a of None \<Rightarrow> h | Some b \<Rightarrow> h(a \<mapsto> b\<lparr>localEpoch := e\<rparr>))"

definition tm_put :: "('k \<Rightarrow> u64 \<Rightarrow> 's \<Rightarrow> (u64 \<times> 's) result option) \<Rightarrow> ('s \<Rightarrow> 'g list) \<Rightarrow>
    addr \<Rightarrow> 'k \<Rightarrow> byte list \<Rightarrow> jint \<Rightarrow> ('s, 'g) thread_map \<Rightarrow> ('s, 'g) thread_map result option" where
  "tm_put put_op replaced a jni_env n i tm =
     (case new_bucket i n (collector tm) of (b, g1) \<Rightarrow>
      let h1 = (buckets tm)(a \<mapsto> b) in
      map_option (\<lambda>r. and_then r (\<lambda>(old, m1).
        let g2 = fold scheduleDelete (drop (length (replaced (tmap tm))) (replaced m1)) g1 in
        and_then (case bucket_at old of None \<Rightarrow> Inr h1 | Some o1 \<Rightarrow> release o1 h1) (\<lambda>h2.
        and_then (deref h2 a) (\<lambda>info.
          case safepoint (localEpoch info) g2 of (e, g3) \<Rightarrow>
            Inr \<lparr>tmap = m1, buckets = set_epoch a e h2, collector = g3\<rparr>))))
        (put_op jni_env (word_of_nat a) (tmap tm)))"

definition tm_get :: "('k \<Rightarrow> 's \<Rightarrow> u64 result option) \<Rightarrow> 'k \<Rightarrow> ('s, 'g) thread_map \<Rightarrow>
    (addr option \<times> ('s, 'g) thread_map) result option" where
  "tm_get get_op jni_env tm =
     map_option (\<lambda>r. and_then r (\<lambda>v.
       and_then (acq_bucket (bucket_at v) (buckets tm)) (\<lambda>(info, h1).
         case info of
           None \<Rightarrow> Inr (None, tm\<lparr>buckets := h1\<rparr>)
         | Some a \<Rightarrow> and_then (deref h1 a) (\<lambda>b.
             case ss_safepoint (localEpoch b) (collector tm) of (e, g) \<Rightarrow>
               Inr (Some a, tm\<lparr>buckets := set_epoch a e h1, collector := g\<rparr>)))))
       (get_op jni_env (tmap tm))"

definition tm_remove :: "('k \<Rightarrow> 's \<Rightarrow> (u64 \<times> 's) result option) \<Rightarrow> 'k \<Rightarrow> ('s, 'g) thread_map \<Rightarrow>
    ('s, 'g) thread_map result option" where
  "tm_remove remove_op jni_env tm =
     map_option (\<lambda>r. and_then r (\<lambda>(v, m1).
       case bucket_at v of
         None \<Rightarrow> Inr (tm\<lparr>tmap := m1\<rparr>)
       | Some a \<Rightarrow> and_then (deref (buckets tm) a) (\<lambda>b.
           case gc_detach (localEpoch b) (collector tm) of (e, g) \<Rightarrow>
             and_then (release a (set_epoch a e (buckets tm))) (\<lambda>h1.
               Inr \<lparr>tmap = m1, buckets = h1, collector = g\<rparr>))))
       (remove_op jni_env (tmap tm))"

subsection \<open>Buckets and their references\<close>

text \<open>An address a pointer can have: not null, and not the mark of a moved value.\<close>

definition pointer :: "addr \<Rightarrow> bool" where
  "pointer a \<longleftrightarrow> 0 < a \<and> a < 2 ^ 64 - 1"

lemma pointer_value:
  assumes "pointer a"
  shows "word_of_nat a \<noteq> MapValMove" and "bucket_at (word_of_nat a) = Some a" and "word_of_nat a \<noteq> MapValEmpty"
proof -
  have u: "unat (word_of_nat a :: u64) = a" using assms by (simp add: pointer_def unat_of_nat)
  have "unat MapValMove = 2 ^ 64 - 1" by (simp add: MapValMove_def unsigned_minus_1_eq_mask mask_eq_exp_minus_1)
  then show "word_of_nat a \<noteq> MapValMove" using u assms unfolding pointer_def by (metis less_irrefl)
  show ne: "word_of_nat a \<noteq> MapValEmpty"
    using u assms unfolding pointer_def MapValEmpty_def by (metis less_irrefl unat_0)
  show "bucket_at (word_of_nat a) = Some a" using u ne by (simp add: bucket_at_def)
qed

lemma bucket_at_inj: "bucket_at v = Some a \<Longrightarrow> bucket_at w = Some a \<Longrightarrow> v = w"
  by (simp add: bucket_at_def word_unat_eq_iff split: if_splits)

lemma bucket_at_Empty [simp]: "bucket_at MapValEmpty = None"
  by (simp add: bucket_at_def)

text \<open>The heap up to the epochs.\<close>

definition strip :: "bucket_heap \<Rightarrow> addr \<rightharpoonup> jint \<times> byte list \<times> int" where
  "strip h = (\<lambda>a. map_option (\<lambda>b. (tid b, name b, refs b)) (h a))"

lemma strip_set_epoch [simp]: "strip (set_epoch a e h) = strip h"
  by (auto simp: strip_def set_epoch_def fun_eq_iff split: option.split)

lemma strip_upd [simp]: "strip (h(a \<mapsto> b)) = (strip h)(a \<mapsto> (tid b, name b, refs b))"
  by (simp add: strip_def fun_eq_iff)

lemma strip_None [simp]: "strip (h(a := None)) = (strip h)(a := None)"
  by (simp add: strip_def fun_eq_iff)

lemma strip_Some: "strip h a = Some (i, n, r) \<longleftrightarrow> (\<exists>b. h a = Some b \<and> tid b = i \<and> name b = n \<and> refs b = r)"
  by (auto simp: strip_def)

lemma strip_eq_None [simp]: "strip h a = None \<longleftrightarrow> h a = None"
  by (simp add: strip_def)

text \<open>
  The references to a bucket: one of the map when some key has it, and \<open>out a\<close> elsewhere (in the trace
  queue). A bucket is on the heap exactly when it has a reference, and its count is right.
\<close>

definition cell_ok :: "addr set \<Rightarrow> (addr \<Rightarrow> nat) \<Rightarrow> addr \<Rightarrow> thread_bucket option \<Rightarrow> bool" where
  "cell_ok A out a c = (case c of
      None \<Rightarrow> a \<notin> A \<and> out a = 0
    | Some b \<Rightarrow> (a \<in> A \<or> 0 < out a) \<and> refs b = int (out a) + (if a \<in> A then 1 else 0))"

definition counted :: "addr set \<Rightarrow> (addr \<Rightarrow> nat) \<Rightarrow> bucket_heap \<Rightarrow> bool" where
  "counted A out h \<longleftrightarrow> (\<forall>a. cell_ok A out a (h a))"

lemma counted_set_epoch [simp]: "counted A out (set_epoch a e h) = counted A out h"
proof -
  have "cell_ok A out x (set_epoch a e h x) = cell_ok A out x (h x)" for x
    by (auto simp: set_epoch_def cell_ok_def split: option.split)
  then show ?thesis by (simp add: counted_def)
qed

lemma countedD:
  assumes "counted A out h" and "a \<in> A \<or> 0 < out a"
  obtains b where "h a = Some b" "refs b = int (out a) + (if a \<in> A then 1 else 0)" "0 < refs b"
proof -
  have "cell_ok A out a (h a)" using assms(1) by (simp add: counted_def)
  then show thesis using assms(2) that by (cases "h a") (auto simp: cell_ok_def)
qed

lemma countedI:
  assumes "counted A out h" and "\<And>x. x \<noteq> a \<Longrightarrow> h' x = h x \<and> out' x = out x \<and> (x \<in> A' \<longleftrightarrow> x \<in> A)"
    and "cell_ok A' out' a (h' a)"
  shows "counted A' out' h'"
proof -
  have "cell_ok A' out' x (h' x)" for x
  proof (cases "x = a")
    case False
    have "cell_ok A out x (h x)" using assms(1) by (simp add: counted_def)
    then show ?thesis using assms(2)[OF False] by (auto simp: cell_ok_def split: option.splits)
  qed (use assms(3) in simp)
  then show ?thesis by (simp add: counted_def)
qed

lemma counted_new:
  assumes "counted A out h" and "h a = None" and "refs b = 1"
  shows "counted (insert a A) out (h(a \<mapsto> b))" and "a \<notin> A" and "out a = 0"
proof -
  have "cell_ok A out a (h a)" using assms(1) by (simp add: counted_def)
  then show a: "a \<notin> A" "out a = 0" using assms(2) by (simp_all add: cell_ok_def)
  show "counted (insert a A) out (h(a \<mapsto> b))"
    using a assms(3) by (intro countedI[OF assms(1), of a]) (simp_all add: cell_ok_def)
qed

lemma counted_acquire:
  assumes "counted A out h" and "a \<in> A"
  shows "\<exists>b h'. acq_bucket (Some a) h = Inr (Some a, h') \<and> h a = Some b \<and> h' = h(a \<mapsto> b\<lparr>refs := refs b + 1\<rparr>) \<and>
    counted A (out(a := out a + 1)) h'"
proof -
  obtain b where b: "h a = Some b" "refs b = int (out a) + (if a \<in> A then 1 else 0)" "0 < refs b"
    using countedD[OF assms(1), of a] assms(2) by blast
  have "counted A (out(a := out a + 1)) (h(a \<mapsto> b\<lparr>refs := refs b + 1\<rparr>))"
    using b assms(2) by (intro countedI[OF assms(1), of a]) (simp_all add: cell_ok_def)
  then show ?thesis using b by (auto simp: acq_bucket_def Let_def)
qed

lemma counted_release_out:
  assumes "counted A out h" and "0 < out a"
  shows "\<exists>h'. release a h = Inr h' \<and> counted A (out(a := out a - 1)) h'"
proof -
  obtain b where b: "h a = Some b" "refs b = int (out a) + (if a \<in> A then 1 else 0)" "0 < refs b"
    using countedD[OF assms(1), of a] assms(2) by blast
  show ?thesis
  proof (cases "refs b = 1")
    case True
    then have o: "a \<notin> A \<and> out a = 1" using b assms(2) by (auto split: if_splits)
    have "counted A (out(a := out a - 1)) (h(a := None))"
      using o by (intro countedI[OF assms(1), of a]) (simp_all add: cell_ok_def)
    then show ?thesis using release_last[of h a b] b True by auto
  next
    case False
    then have o: "a \<in> A \<or> 0 < out a - 1" using b assms(2) by (auto split: if_splits)
    have "refs b - 1 = int (out a - 1) + (if a \<in> A then 1 else 0)" using b(2) assms(2) by (simp add: of_nat_diff)
    then have "counted A (out(a := out a - 1)) (h(a \<mapsto> b\<lparr>refs := refs b - 1\<rparr>))"
      using o by (intro countedI[OF assms(1), of a]) (simp_all add: cell_ok_def)
    then show ?thesis using release_shared[of h a b] b False by auto
  qed
qed

text \<open>The map gives its reference up; the bucket goes with it unless others still have one.\<close>

lemma counted_release_map:
  assumes "counted A out h" and "a \<in> A"
  shows "\<exists>h'. release a h = Inr h' \<and> counted (A - {a}) out h' \<and> (h' a = None \<longleftrightarrow> out a = 0) \<and>
    (\<forall>x. x \<noteq> a \<longrightarrow> h' x = h x)"
proof -
  obtain b where b: "h a = Some b" "refs b = int (out a) + (if a \<in> A then 1 else 0)" "0 < refs b"
    using countedD[OF assms(1), of a] assms(2) by blast
  show ?thesis
  proof (cases "out a = 0")
    case True
    then have "counted (A - {a}) out (h(a := None))"
      by (intro countedI[OF assms(1), of a]) (simp_all add: cell_ok_def)
    then show ?thesis using release_last[of h a b] b assms(2) True by auto
  next
    case False
    then have "counted (A - {a}) out (h(a \<mapsto> b\<lparr>refs := refs b - 1\<rparr>))"
      using b assms(2) by (intro countedI[OF assms(1), of a]) (simp_all add: cell_ok_def)
    then show ?thesis using release_shared[of h a b] b assms(2) False by auto
  qed
qed

subsection \<open>The thread map over any provider\<close>

context map_provider
begin

definition held :: "'s \<Rightarrow> addr set" where
  "held s = {a. \<exists>k. bucket_at (value_at s k) = Some a}"

definition tm_ok :: "(addr \<Rightarrow> nat) \<Rightarrow> ('s, 'g) thread_map \<Rightarrow> bool" where
  "tm_ok out tm \<longleftrightarrow> wf (tmap tm) \<and> counted (held (tmap tm)) out (buckets tm) \<and>
     (\<forall>k k'. value_at (tmap tm) k \<noteq> MapValEmpty \<longrightarrow> value_at (tmap tm) k = value_at (tmap tm) k' \<longrightarrow> same k k')"

lemma tm_okD:
  assumes "tm_ok out tm"
  shows "wf (tmap tm)" and "counted (held (tmap tm)) out (buckets tm)"
    and "bucket_at (value_at (tmap tm) k) = Some a \<Longrightarrow> bucket_at (value_at (tmap tm) k') = Some a \<Longrightarrow> same k k'"
proof -
  show "wf (tmap tm)" "counted (held (tmap tm)) out (buckets tm)" using assms by (simp_all add: tm_ok_def)
  show "same k k'" if "bucket_at (value_at (tmap tm) k) = Some a" "bucket_at (value_at (tmap tm) k') = Some a"
    using bucket_at_inj[OF that] that assms by (auto simp: tm_ok_def bucket_at_def split: if_splits)
qed

lemma held_put:
  assumes "tm_ok out tm" and "bucket_at v = Some a"
    and "\<forall>k'. value_at s' k' = (if same k k' then v else value_at (tmap tm) k')"
  shows "held s' = insert a (held (tmap tm) - set_option (bucket_at (value_at (tmap tm) k)))"
proof (intro equalityI subsetI)
  fix x assume "x \<in> held s'"
  then obtain k' where k': "bucket_at (value_at s' k') = Some x" by (auto simp: held_def)
  show "x \<in> insert a (held (tmap tm) - set_option (bucket_at (value_at (tmap tm) k)))"
  proof (cases "same k k'")
    case True
    then show ?thesis using k' assms(2,3) by simp
  next
    case False
    then have x: "bucket_at (value_at (tmap tm) k') = Some x" using k' assms(3) by simp
    then have "bucket_at (value_at (tmap tm) k) \<noteq> Some x" using tm_okD(3)[OF assms(1)] False by blast
    then show ?thesis using x by (auto simp: held_def)
  qed
next
  fix x assume x: "x \<in> insert a (held (tmap tm) - set_option (bucket_at (value_at (tmap tm) k)))"
  show "x \<in> held s'"
  proof (cases "x = a")
    case True
    have "bucket_at (value_at s' k) = Some a" using assms(2,3) by (simp add: same_refl)
    then show ?thesis using True by (auto simp: held_def)
  next
    case False
    then obtain k' where k': "bucket_at (value_at (tmap tm) k') = Some x" using x by (auto simp: held_def)
    have "\<not> same k k'" using same_value[of k k' "tmap tm"] k' x False by auto
    then have "bucket_at (value_at s' k') = Some x" using k' assms(3) by simp
    then show ?thesis by (auto simp: held_def)
  qed
qed

lemma inj_after:
  assumes "tm_ok out tm" and "\<forall>k'. value_at s' k' = (if same k k' then v else value_at (tmap tm) k')"
    and "v = MapValEmpty \<or> (\<forall>k'. value_at (tmap tm) k' \<noteq> v)"
    and "value_at s' x \<noteq> MapValEmpty" and "value_at s' x = value_at s' y"
  shows "same x y"
proof -
  have old: "same x y" if "value_at (tmap tm) x \<noteq> MapValEmpty" "value_at (tmap tm) x = value_at (tmap tm) y"
    using assms(1) that by (auto simp: tm_ok_def)
  show ?thesis
    using assms(2-5) old same_sym same_trans by (metis (full_types))
qed

lemma tm_put_ok:
  assumes ok: "tm_ok out tm" and "admits (tmap tm) k" and "pointer a" and "buckets tm a = None"
  shows "\<exists>tm'. tm_put put_op replaced a k n i tm = Some (Inr tm') \<and> tm_ok out tm' \<and>
    bucket_at (value_at (tmap tm') k) = Some a \<and>
    (\<exists>b. buckets tm' a = Some b \<and> tid b = i \<and> name b = n \<and> refs b = 1) \<and>
    (\<forall>k'. \<not> same k k' \<longrightarrow> value_at (tmap tm') k' = value_at (tmap tm) k') \<and>
    (\<forall>x. x \<noteq> a \<longrightarrow> bucket_at (value_at (tmap tm) k) \<noteq> Some x \<longrightarrow> strip (buckets tm') x = strip (buckets tm) x) \<and>
    (\<forall>x. bucket_at (value_at (tmap tm) k) = Some x \<longrightarrow> (buckets tm' x = None \<longleftrightarrow> out x = 0))"
proof -
  let ?v = "word_of_nat a :: u64" and ?A = "held (tmap tm)"
  note P = pointer_value[OF assms(3)]
  obtain s' where s': "put_op k ?v (tmap tm) = Some (Inr (value_at (tmap tm) k, s'))" "wf s'"
    "\<forall>k'. value_at s' k' = (if same k k' then ?v else value_at (tmap tm) k')"
    using put_effect[OF tm_okD(1)[OF ok] assms(2) P(1)] by blast
  obtain b g1 where b: "new_bucket i n (collector tm) = (b, g1)" "tid b = i" "name b = n" "refs b = 1"
    by (auto simp: new_bucket_def attachThread_def)
  let ?h = "(buckets tm)(a \<mapsto> b)"
  note C = counted_new[OF tm_okD(2)[OF ok] assms(4) b(4)]
  have fresh: "\<forall>k'. value_at (tmap tm) k' \<noteq> ?v"
  proof (intro allI notI)
    fix k' assume "value_at (tmap tm) k' = ?v"
    then have "bucket_at (value_at (tmap tm) k') = Some a" using P(2) by simp
    then show False using C(2) by (auto simp: held_def)
  qed
  have held: "held s' = insert a (?A - set_option (bucket_at (value_at (tmap tm) k)))"
    by (rule held_put[OF ok P(2) s'(3)])
  have rel: "\<exists>h2. (case bucket_at (value_at (tmap tm) k) of None \<Rightarrow> Inr ?h | Some o1 \<Rightarrow> release o1 ?h) = Inr h2 \<and>
      counted (held s') out h2 \<and> h2 a = Some b \<and>
      (\<forall>x. bucket_at (value_at (tmap tm) k) \<noteq> Some x \<longrightarrow> h2 x = ?h x) \<and>
      (\<forall>x. bucket_at (value_at (tmap tm) k) = Some x \<longrightarrow> (h2 x = None \<longleftrightarrow> out x = 0))"
  proof (cases "bucket_at (value_at (tmap tm) k)")
    case None
    then show ?thesis using C(1) held by simp
  next
    case (Some x)
    then have x: "x \<in> ?A" "x \<noteq> a" using C(2) by (auto simp: held_def)
    obtain h2 where h2: "release x ?h = Inr h2" "counted (insert a ?A - {x}) out h2" "h2 x = None \<longleftrightarrow> out x = 0"
      "\<forall>y. y \<noteq> x \<longrightarrow> h2 y = ?h y"
      using counted_release_map[OF C(1), of x] x by auto
    have "insert a ?A - {x} = held s'" using held Some x by auto
    then show ?thesis using h2 Some x by auto
  qed
  then obtain h2 where h2: "(case bucket_at (value_at (tmap tm) k) of None \<Rightarrow> Inr ?h | Some o1 \<Rightarrow> release o1 ?h) = Inr h2"
    "counted (held s') out h2" "h2 a = Some b" "\<forall>x. bucket_at (value_at (tmap tm) k) \<noteq> Some x \<longrightarrow> h2 x = ?h x"
    "\<forall>x. bucket_at (value_at (tmap tm) k) = Some x \<longrightarrow> (h2 x = None \<longleftrightarrow> out x = 0)" by blast
  obtain e g3 where g3: "safepoint (localEpoch b) (fold scheduleDelete (drop (length (replaced (tmap tm))) (replaced s')) g1) = (e, g3)"
    by fastforce
  let ?tm = "\<lparr>tmap = s', buckets = set_epoch a e h2, collector = g3\<rparr>"
  have run: "tm_put put_op replaced a k n i tm = Some (Inr ?tm)"
    using s'(1) b(1) h2(1,3) g3 by (simp add: tm_put_def Let_def deref_def)
  have "tm_ok out ?tm"
    unfolding tm_ok_def using s'(2) h2(2) inj_after[OF ok s'(3) disjI2[OF fresh]] by simp
  moreover have "\<exists>b'. set_epoch a e h2 a = Some b' \<and> tid b' = i \<and> name b' = n \<and> refs b' = 1"
    using h2(3) b by (simp add: set_epoch_def)
  moreover have "strip (buckets ?tm) x = strip (buckets tm) x"
    if "x \<noteq> a" "bucket_at (value_at (tmap tm) k) \<noteq> Some x" for x
  proof -
    have "strip (set_epoch a e h2) x = strip h2 x" by simp
    then show ?thesis using that h2(4) by (simp add: strip_def)
  qed
  moreover have "buckets ?tm x = None \<longleftrightarrow> h2 x = None" for x
    by (simp add: set_epoch_def split: option.split)
  ultimately show ?thesis using run s'(3) P(2) h2(5) by (intro exI[of _ ?tm]) (simp add: same_refl)
qed

lemma tm_get_ok:
  assumes ok: "tm_ok out tm"
  shows "case bucket_at (value_at (tmap tm) k) of
      None \<Rightarrow> tm_get get_op k tm = Some (Inr (None, tm))
    | Some a \<Rightarrow> \<exists>tm' b b'. tm_get get_op k tm = Some (Inr (Some a, tm')) \<and> tmap tm' = tmap tm \<and>
        tm_ok (out(a := out a + 1)) tm' \<and> buckets tm a = Some b \<and> buckets tm' a = Some b' \<and>
        tid b' = tid b \<and> name b' = name b \<and> refs b' = refs b + 1"
proof (cases "bucket_at (value_at (tmap tm) k)")
  case None
  then show ?thesis using get_correct[OF tm_okD(1)[OF ok]] by (simp add: tm_get_def acq_bucket_def)
next
  case (Some a)
  then have "a \<in> held (tmap tm)" by (auto simp: held_def)
  then obtain b h' where h': "acq_bucket (Some a) (buckets tm) = Inr (Some a, h')" "buckets tm a = Some b"
    "h' = (buckets tm)(a \<mapsto> b\<lparr>refs := refs b + 1\<rparr>)" "counted (held (tmap tm)) (out(a := out a + 1)) h'"
    using counted_acquire[OF tm_okD(2)[OF ok]] by blast
  obtain e g where g: "ss_safepoint (localEpoch b) (collector tm) = (e, g)" by fastforce
  let ?tm = "tm\<lparr>buckets := set_epoch a e h', collector := g\<rparr>"
  have "tm_get get_op k tm = Some (Inr (Some a, ?tm))"
    using get_correct[OF tm_okD(1)[OF ok], of k] Some h' g by (simp add: tm_get_def deref_def)
  moreover have "tm_ok (out(a := out a + 1)) ?tm" using ok h'(4) by (simp add: tm_ok_def)
  ultimately show ?thesis using Some h'(2,3) by (simp add: set_epoch_def)
qed

lemma tm_remove_ok:
  assumes ok: "tm_ok out tm"
  shows "\<exists>tm'. tm_remove remove_op k tm = Some (Inr tm') \<and> tm_ok out tm' \<and>
    value_at (tmap tm') k = MapValEmpty \<and>
    (\<forall>k'. \<not> same k k' \<longrightarrow> value_at (tmap tm') k' = value_at (tmap tm) k') \<and>
    (\<forall>x. bucket_at (value_at (tmap tm) k) \<noteq> Some x \<longrightarrow> strip (buckets tm') x = strip (buckets tm) x) \<and>
    (\<forall>x. bucket_at (value_at (tmap tm) k) = Some x \<longrightarrow> (buckets tm' x = None \<longleftrightarrow> out x = 0))"
proof -
  obtain s' where s': "remove_op k (tmap tm) = Some (Inr (value_at (tmap tm) k, s'))" "wf s'"
    "\<forall>k'. value_at s' k' = (if same k k' then MapValEmpty else value_at (tmap tm) k')"
    using remove_correct[OF tm_okD(1)[OF ok]] by blast
  note inj = inj_after[OF ok s'(3) disjI1[OF refl]]
  have held: "held s' = held (tmap tm) - set_option (bucket_at (value_at (tmap tm) k))"
  proof (intro equalityI subsetI)
    fix x assume "x \<in> held s'"
    then obtain k' where k': "bucket_at (value_at s' k') = Some x" by (auto simp: held_def)
    then have ns: "\<not> same k k'" using s'(3) by auto
    then have x: "bucket_at (value_at (tmap tm) k') = Some x" using k' s'(3) by simp
    then have "bucket_at (value_at (tmap tm) k) \<noteq> Some x" using tm_okD(3)[OF ok] ns by blast
    then show "x \<in> held (tmap tm) - set_option (bucket_at (value_at (tmap tm) k))" using x by (auto simp: held_def)
  next
    fix x assume x: "x \<in> held (tmap tm) - set_option (bucket_at (value_at (tmap tm) k))"
    then obtain k' where k': "bucket_at (value_at (tmap tm) k') = Some x" by (auto simp: held_def)
    have "\<not> same k k'" using same_value[of k k' "tmap tm"] k' x by auto
    then have "bucket_at (value_at s' k') = Some x" using k' s'(3) by simp
    then show "x \<in> held s'" by (auto simp: held_def)
  qed
  show ?thesis
  proof (cases "bucket_at (value_at (tmap tm) k)")
    case None
    let ?tm = "tm\<lparr>tmap := s'\<rparr>"
    have "tm_remove remove_op k tm = Some (Inr ?tm)" using s'(1) None by (simp add: tm_remove_def)
    moreover have "tm_ok out ?tm" using s'(2) held None tm_okD(2)[OF ok] inj by (simp add: tm_ok_def)
    ultimately show ?thesis using s'(3) None by (intro exI[of _ ?tm]) (simp add: same_refl)
  next
    case (Some a)
    then have a: "a \<in> held (tmap tm)" by (auto simp: held_def)
    obtain b where b: "buckets tm a = Some b" using countedD[OF tm_okD(2)[OF ok], of a] a by blast
    obtain e g where g: "gc_detach (localEpoch b) (collector tm) = (e, g)" by fastforce
    have "counted (held (tmap tm)) out (set_epoch a e (buckets tm))" using tm_okD(2)[OF ok] by simp
    from counted_release_map[OF this a] obtain h' where h': "release a (set_epoch a e (buckets tm)) = Inr h'" "counted (held (tmap tm) - {a}) out h'"
      "h' a = None \<longleftrightarrow> out a = 0" "\<forall>x. x \<noteq> a \<longrightarrow> h' x = set_epoch a e (buckets tm) x"
      by auto
    let ?tm = "\<lparr>tmap = s', buckets = h', collector = g\<rparr>"
    have "tm_remove remove_op k tm = Some (Inr ?tm)" using s'(1) Some b g h'(1) by (simp add: tm_remove_def deref_def)
    moreover have "tm_ok out ?tm" using s'(2) held Some h'(2) inj by (simp add: tm_ok_def)
    moreover have "strip h' x = strip (buckets tm) x" if "x \<noteq> a" for x
    proof -
      have "strip (set_epoch a e (buckets tm)) x = strip (buckets tm) x" by simp
      then show ?thesis using that h'(4) by (simp add: strip_def)
    qed
    ultimately show ?thesis using s'(3) Some h'(3) by (intro exI[of _ ?tm]) (simp add: same_refl)
  qed
qed

end

subsection \<open>The recorder's thread map\<close>

text \<open>
  \<open>ThreadMap\<close>: the thread map over the concurrent hash map with the pointer hasher. Its keys are
  \<open>JNIEnv\<close> pointers; keys with the same hash are one entry. \<open>thread_map_ok out tm\<close> says that the
  reference counts are right when \<open>out a\<close> references to the bucket \<open>a\<close> are held outside of the map.
\<close>

definition kInitialMapSize :: "32 word" where "kInitialMapSize = 256"

definition new_thread_map :: "(map_state, hash_table) thread_map" where
  "new_thread_map = \<lparr>tmap = new_map kInitialMapSize, buckets = Map.empty, collector = new_gc\<rparr>"

definition thread_put :: "addr \<Rightarrow> u64 \<Rightarrow> byte list \<Rightarrow> jint \<Rightarrow> (map_state, hash_table) thread_map \<Rightarrow>
    (map_state, hash_table) thread_map result option" where
  "thread_put a = tm_put (put env_hash) scheduled a"

definition thread_get :: "u64 \<Rightarrow> (map_state, hash_table) thread_map \<Rightarrow>
    (addr option \<times> (map_state, hash_table) thread_map) result option" where
  "thread_get = tm_get (get env_hash)"

definition thread_remove :: "u64 \<Rightarrow> (map_state, hash_table) thread_map \<Rightarrow>
    (map_state, hash_table) thread_map result option" where
  "thread_remove = tm_remove (remove env_hash)"

definition bucket_of :: "(map_state, hash_table) thread_map \<Rightarrow> u64 \<Rightarrow> addr option" where
  "bucket_of tm k = bucket_at (value_of env_hash (tmap tm) k)"

definition thread_map_ok :: "(addr \<Rightarrow> nat) \<Rightarrow> (map_state, hash_table) thread_map \<Rightarrow> bool" where
  "thread_map_ok out tm \<longleftrightarrow> wf_map (tmap tm) \<and> counted {a. \<exists>k. bucket_of tm k = Some a} out (buckets tm) \<and>
     (\<forall>k k'. value_of env_hash (tmap tm) k \<noteq> MapValEmpty \<longrightarrow>
        value_of env_hash (tmap tm) k = value_of env_hash (tmap tm) k' \<longrightarrow> env_hash k = env_hash k')"

lemma thread_map_ok_iff: "thread_map_ok out tm = env_map.tm_ok out tm"
  by (simp add: thread_map_ok_def env_map.tm_ok_def env_map.held_def bucket_of_def)

lemma bucket_of_held: "thread_map_ok out tm \<Longrightarrow> bucket_of tm k = Some a \<Longrightarrow> \<exists>b. buckets tm a = Some b \<and> 0 < refs b"
proof -
  assume "thread_map_ok out tm" "bucket_of tm k = Some a"
  then have "counted {a. \<exists>k. bucket_of tm k = Some a} out (buckets tm)" "a \<in> {a. \<exists>k. bucket_of tm k = Some a} \<or> 0 < out a"
    by (auto simp: thread_map_ok_def)
  then show ?thesis by (rule countedD) blast
qed

lemma new_thread_map_ok: "thread_map_ok (\<lambda>_. 0) new_thread_map" and bucket_of_new: "bucket_of new_thread_map k = None"
proof -
  have w: "wf_map (new_map kInitialMapSize)" "contents_of (new_map kInitialMapSize) = (\<lambda>_. MapValEmpty)"
    using new_map_wf[of kInitialMapSize] by (simp_all add: kInitialMapSize_def)
  then show "thread_map_ok (\<lambda>_. 0) new_thread_map"
    by (simp add: thread_map_ok_def new_thread_map_def value_of_def bucket_of_def counted_def cell_ok_def)
  show "bucket_of new_thread_map k = None" using w by (simp add: new_thread_map_def bucket_of_def value_of_def)
qed

lemma new_thread_map_admits: "admits_key env_hash (tmap new_thread_map) k"
  using new_map_admits[of kInitialMapSize] by (simp add: new_thread_map_def kInitialMapSize_def)

text \<open>The registration used by the witnesses below: thread 5 with an empty name, its bucket at 64.\<close>

lemma registered_example:
  "\<exists>tm. thread_put 64 4096 [] 5 new_thread_map = Some (Inr tm) \<and> thread_map_ok (\<lambda>_. 0) tm \<and>
    bucket_of tm 4096 = Some 64 \<and> (\<exists>b. buckets tm 64 = Some b \<and> tid b = 5 \<and> refs b = 1)"
proof -
  have "pointer 64" by (simp add: pointer_def)
  moreover have "buckets new_thread_map 64 = None" by (simp add: new_thread_map_def)
  ultimately show ?thesis
    using env_map.tm_put_ok[OF new_thread_map_ok[unfolded thread_map_ok_iff] new_thread_map_admits,
        where k = 4096 and a = 64 and i = 5 and n = "[]" and replaced = scheduled]
    unfolding thread_put_def thread_map_ok_iff bucket_of_def by blast
qed

lemma thread_put_map:
  assumes "thread_put a k n i tm = Some (Inr tm')"
  shows "\<exists>old. put env_hash k (word_of_nat a) (tmap tm) = Some (Inr (old, tmap tm'))"
  using assms
  by (auto simp: thread_put_def tm_put_def deref_def Let_def case_prod_beta split: option.splits)

lemma thread_put_ok:
  assumes "thread_map_ok out tm" and "admits_key env_hash (tmap tm) k" and "pointer a" and "buckets tm a = None"
  shows "\<exists>tm'. thread_put a k n i tm = Some (Inr tm') \<and> thread_map_ok out tm' \<and> bucket_of tm' k = Some a \<and>
    (\<exists>b. buckets tm' a = Some b \<and> tid b = i \<and> name b = n \<and> refs b = 1) \<and>
    (\<forall>k'. env_hash k' \<noteq> env_hash k \<longrightarrow> bucket_of tm' k' = bucket_of tm k') \<and>
    (\<forall>x. x \<noteq> a \<longrightarrow> bucket_of tm k \<noteq> Some x \<longrightarrow> strip (buckets tm') x = strip (buckets tm) x) \<and>
    (\<forall>x. bucket_of tm k = Some x \<longrightarrow> (buckets tm' x = None \<longleftrightarrow> out x = 0))"
proof -
  obtain tm' where tm': "thread_put a k n i tm = Some (Inr tm')" "thread_map_ok out tm'" "bucket_of tm' k = Some a"
    "\<exists>b. buckets tm' a = Some b \<and> tid b = i \<and> name b = n \<and> refs b = 1"
    "\<forall>k'. env_hash k \<noteq> env_hash k' \<longrightarrow> value_of env_hash (tmap tm') k' = value_of env_hash (tmap tm) k'"
    "\<forall>x. x \<noteq> a \<longrightarrow> bucket_of tm k \<noteq> Some x \<longrightarrow> strip (buckets tm') x = strip (buckets tm) x"
    "\<forall>x. bucket_of tm k = Some x \<longrightarrow> (buckets tm' x = None \<longleftrightarrow> out x = 0)"
    using env_map.tm_put_ok[OF assms(1)[unfolded thread_map_ok_iff] assms(2-4), of scheduled n i]
    unfolding thread_put_def thread_map_ok_iff bucket_of_def by blast
  moreover have "bucket_of tm' k' = bucket_of tm k'" if "env_hash k' \<noteq> env_hash k" for k'
    using tm'(5) that by (metis bucket_of_def)
  ultimately show ?thesis by (intro exI[of _ tm']) blast
qed

lemma thread_remove_ok:
  assumes "thread_map_ok out tm"
  shows "\<exists>tm'. thread_remove k tm = Some (Inr tm') \<and> thread_map_ok out tm' \<and> bucket_of tm' k = None \<and>
    (\<forall>k'. env_hash k' \<noteq> env_hash k \<longrightarrow> bucket_of tm' k' = bucket_of tm k') \<and>
    (\<forall>x. bucket_of tm k \<noteq> Some x \<longrightarrow> strip (buckets tm') x = strip (buckets tm) x) \<and>
    (\<forall>x. bucket_of tm k = Some x \<longrightarrow> (buckets tm' x = None \<longleftrightarrow> out x = 0)) \<and>
    (\<forall>x. 0 < out x \<longrightarrow> (\<exists>h'. release x (buckets tm') = Inr h'))"
proof -
  obtain tm' where tm': "thread_remove k tm = Some (Inr tm')" "thread_map_ok out tm'"
    "value_of env_hash (tmap tm') k = MapValEmpty"
    "\<forall>k'. env_hash k \<noteq> env_hash k' \<longrightarrow> value_of env_hash (tmap tm') k' = value_of env_hash (tmap tm) k'"
    "\<forall>x. bucket_of tm k \<noteq> Some x \<longrightarrow> strip (buckets tm') x = strip (buckets tm) x"
    "\<forall>x. bucket_of tm k = Some x \<longrightarrow> (buckets tm' x = None \<longleftrightarrow> out x = 0)"
    using env_map.tm_remove_ok[OF assms[unfolded thread_map_ok_iff], of k]
    unfolding thread_remove_def thread_map_ok_iff bucket_of_def by blast
  moreover have "bucket_of tm' k' = bucket_of tm k'" if "env_hash k' \<noteq> env_hash k" for k'
    using tm'(4) that by (metis bucket_of_def)
  moreover have "\<exists>h'. release x (buckets tm') = Inr h'" if "0 < out x" for x
    using counted_release_out[where a = x and out = out, OF _ that] tm'(2) unfolding thread_map_ok_def by blast
  ultimately show ?thesis by (intro exI[of _ tm']) (simp add: bucket_of_def)
qed

lemma registered_admits:
  assumes "thread_put a k n i new_thread_map = Some (Inr tm)" and "pointer a"
  shows "admits_key env_hash (tmap tm) k"
proof -
  obtain old where p: "put_hash False (env_hash k) (word_of_nat a) (tmap new_thread_map) = Some (Inr (old, tmap tm))"
    using thread_put_map[OF assms(1)] by (auto simp: put_def)
  have w: "wf_map (tmap new_thread_map)" "contents_of (tmap new_thread_map) = (\<lambda>_. MapValEmpty)"
    using new_map_wf[of kInitialMapSize] by (simp_all add: new_thread_map_def kInitialMapSize_def)
  have "contents_of (tmap tm) = (\<lambda>_. MapValEmpty)(env_hash k := word_of_nat a)"
    using put_hash_correct[OF p w(1) env_hash_not_empty pointer_value(1)[OF assms(2)]] w(2) by auto
  then have e: "insert (env_hash k) {h. contents_of (tmap tm) h \<noteq> MapValEmpty} = {env_hash k}" by auto
  have "roomy 5 {env_hash k}" by (simp add: roomy_def)
  then show ?thesis unfolding admits_key_def e by (intro exI[of _ 5]) simp
qed

subsection \<open>Properties\<close>

text \<open>
  C21: \<open>put\<close> registers the thread: when the map admits the key and \<open>new\<close> returned a free address, it
  returns, the key now has the new bucket with the thread's id and name and one reference, no key of
  another hash and no other bucket has changed, the bucket the key had before lives on exactly when it is
  referenced elsewhere, and the reference counts are right.
\<close>

theorem put_registers_thread:
  assumes "thread_map_ok out tm" and "admits_key env_hash (tmap tm) k" and "pointer a" and "buckets tm a = None"
  shows "\<exists>tm'. thread_put a k n i tm = Some (Inr tm') \<and> thread_map_ok out tm' \<and> bucket_of tm' k = Some a \<and>
    (\<exists>b. buckets tm' a = Some b \<and> tid b = i \<and> name b = n \<and> refs b = 1) \<and>
    (\<forall>k'. env_hash k' \<noteq> env_hash k \<longrightarrow> bucket_of tm' k' = bucket_of tm k') \<and>
    (\<forall>x. x \<noteq> a \<longrightarrow> bucket_of tm k \<noteq> Some x \<longrightarrow> strip (buckets tm') x = strip (buckets tm) x) \<and>
    (\<forall>x. bucket_of tm k = Some x \<longrightarrow> (buckets tm' x = None \<longleftrightarrow> out x = 0))"
  by (rule thread_put_ok[OF assms])

theorem put_registers_thread_witness:
  "\<exists>tm' b. thread_put 64 4096 [] 5 new_thread_map = Some (Inr tm') \<and> bucket_of tm' 4096 = Some 64 \<and>
     buckets tm' 64 = Some b \<and> tid b = 5 \<and> refs b = 1"
proof -
  have "pointer 64" "buckets new_thread_map 64 = None" by (simp_all add: pointer_def new_thread_map_def)
  from put_registers_thread[OF new_thread_map_ok new_thread_map_admits this] show ?thesis by blast
qed

text \<open>
  \<open>get\<close>, called in the signal handler, takes a reference: for a registered key it returns its
  bucket with one more reference and id and name unchanged, and the counts stay right with one more
  reference held outside; for a key without an entry it returns null and changes nothing. Both without a use after free.
\<close>

theorem get_acquires_bucket:
  assumes "thread_map_ok out tm"
  shows "(bucket_of tm k = None \<longrightarrow> thread_get k tm = Some (Inr (None, tm))) \<and>
    (\<forall>a. bucket_of tm k = Some a \<longrightarrow> (\<exists>tm' b b'. thread_get k tm = Some (Inr (Some a, tm')) \<and> tmap tm' = tmap tm \<and>
        thread_map_ok (out(a := out a + 1)) tm' \<and> buckets tm a = Some b \<and> buckets tm' a = Some b' \<and>
        tid b' = tid b \<and> name b' = name b \<and> refs b' = refs b + 1))"
  using env_map.tm_get_ok[OF assms[unfolded thread_map_ok_iff], of k]
  unfolding thread_get_def thread_map_ok_iff bucket_of_def by (cases "bucket_at (value_of env_hash (tmap tm) k)") simp_all

theorem get_acquires_bucket_witness:
  "\<exists>tm tm' b. thread_put 64 4096 [] 5 new_thread_map = Some (Inr tm) \<and> thread_get 4096 tm = Some (Inr (Some 64, tm')) \<and>
     buckets tm' 64 = Some b \<and> refs b = 2"
proof -
  obtain tm where tm: "thread_put 64 4096 [] 5 new_thread_map = Some (Inr tm)" "thread_map_ok (\<lambda>_. 0) tm"
    "bucket_of tm 4096 = Some 64" "\<exists>b. buckets tm 64 = Some b \<and> tid b = 5 \<and> refs b = 1"
    using registered_example by blast
  show ?thesis using get_acquires_bucket[OF tm(2), of 4096] tm(1,3,4) by fastforce
qed

text \<open>
  C22: \<open>remove\<close> unregisters the thread: it returns, the key has no bucket any more, no key of another
  hash and no other bucket has changed, and the removed bucket is freed exactly when no sample holds a
  reference to it; the samples that do can still release theirs.
\<close>

theorem remove_unregisters_thread:
  assumes "thread_map_ok out tm"
  shows "\<exists>tm'. thread_remove k tm = Some (Inr tm') \<and> thread_map_ok out tm' \<and> bucket_of tm' k = None \<and>
    (\<forall>k'. env_hash k' \<noteq> env_hash k \<longrightarrow> bucket_of tm' k' = bucket_of tm k') \<and>
    (\<forall>x. bucket_of tm k \<noteq> Some x \<longrightarrow> strip (buckets tm') x = strip (buckets tm) x) \<and>
    (\<forall>x. bucket_of tm k = Some x \<longrightarrow> (buckets tm' x = None \<longleftrightarrow> out x = 0)) \<and>
    (\<forall>x. 0 < out x \<longrightarrow> (\<exists>h'. release x (buckets tm') = Inr h'))"
  by (rule thread_remove_ok[OF assms])

theorem remove_unregisters_thread_witness:
  "\<exists>tm tm'. thread_put 64 4096 [] 5 new_thread_map = Some (Inr tm) \<and> thread_remove 4096 tm = Some (Inr tm') \<and>
     bucket_of tm' 4096 = None \<and> buckets tm' 64 = None"
proof -
  obtain tm where tm: "thread_put 64 4096 [] 5 new_thread_map = Some (Inr tm)" "thread_map_ok (\<lambda>_. 0) tm"
    "bucket_of tm 4096 = Some 64" using registered_example by blast
  show ?thesis using remove_unregisters_thread[OF tm(2), of 4096] tm(1,3) by blast
qed

lemma totalThreads_simps [simp]:
  "totalThreads (snd (safepoint e g)) = totalThreads g"
  "totalThreads (fold scheduleDelete ts g) = totalThreads g"
  by (simp add: safepoint_def newEpoch_def Let_def)
    (induction ts arbitrary: g, simp_all add: scheduleDelete_def)

text \<open>
  C24: A registration that replaces another one is never taken back from the collector. When \<open>put\<close> finds
  the key, or a key with the same hash, already registered, it releases the old bucket without detaching its thread: the bucket
  is freed, its local epoch with it, and the collector still counts the thread, so it goes on waiting for it.
\<close>

theorem replaced_registration_stays_counted:
  assumes "thread_map_ok out tm" and "pointer a" and "buckets tm a = None"
    and "bucket_of tm k = Some x" and "out x = 0"
    and "thread_put a k n i tm = Some (Inr tm')"
  shows "buckets tm' x = None \<and> bucket_of tm' k = Some a \<and> (\<forall>k'. bucket_of tm' k' \<noteq> Some x) \<and>
    totalThreads (collector tm') = totalThreads (collector tm) + 1"
proof -
  note ok = assms(1)[unfolded thread_map_ok_iff]
  note P = pointer_value[OF assms(2)]
  obtain s' where s': "put env_hash k (word_of_nat a) (tmap tm) = Some (Inr (value_of env_hash (tmap tm) k, s'))"
    "\<forall>k'. value_of env_hash s' k' = (if env_hash k = env_hash k' then word_of_nat a else value_of env_hash (tmap tm) k')"
    using thread_put_map[OF assms(6)] env_map.put_correct[OF env_map.tm_okD(1)[OF ok] P(1)] by blast
  obtain b g1 where b: "new_bucket i n (collector tm) = (b, g1)" "refs b = 1"
    "totalThreads g1 = totalThreads (collector tm) + 1"
    by (auto simp: new_bucket_def attachThread_def)
  have x: "x \<noteq> a" "buckets tm x \<noteq> None" using bucket_of_held[OF assms(1,4)] assms(3) by auto
  have held: "x \<in> env_map.held (tmap tm)" using assms(4) by (auto simp: env_map.held_def bucket_of_def)
  note C = counted_new[OF env_map.tm_okD(2)[OF ok] assms(3) b(2)]
  obtain h' where h': "release x ((buckets tm)(a \<mapsto> b)) = Inr h'" "h' x = None" "h' a = Some b"
    using counted_release_map[OF C(1), of x] held x assms(5) by auto
  have tm': "tm' = \<lparr>tmap = s', buckets = set_epoch a (fst (safepoint (localEpoch b) (fold scheduleDelete
      (drop (length (scheduled (tmap tm))) (scheduled s')) g1))) h', collector = snd (safepoint (localEpoch b) (fold scheduleDelete
      (drop (length (scheduled (tmap tm))) (scheduled s')) g1))\<rparr>"
    using assms(4,6) s'(1) b(1) h'(1,3)
    by (simp add: thread_put_def tm_put_def bucket_of_def Let_def deref_def split: prod.splits)
  have new: "bucket_of tm' k' = (if env_hash k = env_hash k' then Some a else bucket_of tm k')" for k'
    using s'(2) P(2) by (simp add: tm' bucket_of_def)
  have "bucket_of tm' k' \<noteq> Some x" for k'
    using new[of k'] x(1) env_map.tm_okD(3)[OF ok, of k x k'] assms(4) by (auto simp: bucket_of_def split: if_splits)
  then show ?thesis using new[of k] h'(2,3) b(3) x(1) by (simp add: tm' set_epoch_def)
qed

theorem replaced_registration_stays_counted_witness:
  "\<exists>tm tm'. thread_put 64 4096 [] 5 new_thread_map = Some (Inr tm) \<and> thread_put 128 4096 [] 6 tm = Some (Inr tm') \<and>
     buckets tm' 64 = None \<and> totalThreads (collector tm') = totalThreads (collector tm) + 1"
proof -
  have p: "pointer 64" "pointer 128" by (simp_all add: pointer_def)
  have h: "buckets new_thread_map 64 = None" "buckets new_thread_map 128 = None" by (simp_all add: new_thread_map_def)
  note R = env_map.tm_put_ok[OF _ _ p(1) h(1), of "\<lambda>_. 0" 4096 scheduled "[]" 5]
  obtain tm where tm: "thread_put 64 4096 [] 5 new_thread_map = Some (Inr tm)" "thread_map_ok (\<lambda>_. 0) tm"
    "bucket_of tm 4096 = Some 64" "strip (buckets tm) 128 = strip (buckets new_thread_map) 128"
    using R new_thread_map_ok new_thread_map_admits bucket_of_new
    by (fastforce simp: thread_put_def thread_map_ok_iff bucket_of_def)
  have free: "buckets tm 128 = None" using tm(4) h(2) by (metis strip_eq_None)
  obtain tm' where tm': "thread_put 128 4096 [] 6 tm = Some (Inr tm')"
    using env_map.tm_put_ok[OF tm(2)[unfolded thread_map_ok_iff] registered_admits[OF tm(1) p(1)] p(2) free,
        of scheduled "[]" 6] unfolding thread_put_def by blast
  show ?thesis using replaced_registration_stays_counted[OF tm(2) p(2) free tm(3) _ tm'] tm(1) tm' by blast
qed

end
