(* ===== verification/Sampler.thy ===== *)
theory Sampler
  imports Profiler Thread_Map
begin

text \<open>
  \<open>Profiler::handle\<close> (\<^verbatim>\<open>profiler.cpp\<close>), the signal handler: it takes a stack trace, a reference to
  the thread's bucket, and pushes both into the trace queue. Here the profiler, the thread map and the queue meet.

  The JVM supplies the thread's \<open>JNIEnv\<close> (none for a thread it does not know), whether a garbage collection is
  active, and \<open>AsyncGetCallTrace\<close>, documented to fill in at most the number of frames asked for. The
  field \<open>env_id\<close> of a trace without \<open>JNIEnv\<close> is never assigned: it is whatever the stack holds, an argument.
\<close>

type_synonym agct = "u64 \<Rightarrow> jint \<Rightarrow> jint \<times> call_frame list"

definition agct_spec :: "agct \<Rightarrow> bool" where
  "agct_spec asgct \<longleftrightarrow> (\<forall>env n. 0 \<le> sint n \<longrightarrow> sint (fst (asgct env n)) \<le> sint n \<and>
     length (snd (asgct env n)) = nat (sint n))"

record signal_context =
  jniEnv :: "u64 option"
  gc_active :: bool
  stack_word :: u64
  asgct :: agct

definition trace_taken :: "signal_context \<Rightarrow> jint \<Rightarrow> call_frame list call_trace" where
  "trace_taken S maxFrameCount =
     (case jniEnv S of
        None \<Rightarrow> \<lparr>env_id = stack_word S, num_frames = (if gc_active S then -2 else -3),
                 frames = replicate (nat (sint maxFrameCount)) zero_frame\<rparr>
      | Some env \<Rightarrow> (case asgct S env maxFrameCount of (n, fs) \<Rightarrow> \<lparr>env_id = env, num_frames = n, frames = fs\<rparr>))"

definition thread_info :: "signal_context \<Rightarrow> (map_state, hash_table) thread_map \<Rightarrow>
    (addr option \<times> (map_state, hash_table) thread_map) result option" where
  "thread_info S tm = (case jniEnv S of None \<Rightarrow> Some (Inr (None, tm)) | Some env \<Rightarrow> thread_get env tm)"

text \<open>The result of \<open>push\<close> is ignored.\<close>

definition handle :: "signal_context \<Rightarrow> profiler \<times> (map_state, hash_table) thread_map \<Rightarrow>
    (profiler \<times> (map_state, hash_table) thread_map) result option" where
  "handle S = (\<lambda>(p, tm).
     map_option (\<lambda>r. and_then r (\<lambda>(info, tm1).
       case buffer_at p of
         None \<Rightarrow> Inl Null_Deref
       | Some b \<Rightarrow>
           and_then (push (trace_taken S (maxFramesToCapture (conf p))) info (b_queue b)) (\<lambda>(res, q).
             Inr (p\<lparr>buffer_at := Some (b\<lparr>b_queue := q\<rparr>)\<rparr>, tm1))))
       (thread_info S tm))"

subsection \<open>References held by the queue\<close>

definition queued :: "queue \<Rightarrow> addr \<Rightarrow> nat" where
  "queued q a = count_list (map snd (contents q)) (Some a)"

definition bucket_taken :: "signal_context \<Rightarrow> (map_state, hash_table) thread_map \<Rightarrow> addr option" where
  "bucket_taken S tm = (case jniEnv S of None \<Rightarrow> None | Some env \<Rightarrow> bucket_of tm env)"

definition one_more :: "addr option \<Rightarrow> (addr \<Rightarrow> nat) \<Rightarrow> addr \<Rightarrow> nat" where
  "one_more x f = (case x of None \<Rightarrow> f | Some a \<Rightarrow> f(a := f a + 1))"

lemma queued_snoc: "contents q' = contents q @ [sample_of t x] \<Longrightarrow> queued q' = one_more x (queued q)"
  by (auto simp: queued_def one_more_def sample_of_def fun_eq_iff split: option.split)

lemma trace_taken_fits:
  assumes "agct_spec (asgct S)" and "0 \<le> sint n" and "int (maxFrames q) = sint n"
  shows "fits q (trace_taken S n)"
proof (cases "jniEnv S")
  case None
  then show ?thesis by (simp add: trace_taken_def fits_def frame_count_def)
next
  case (Some env)
  obtain k fs where k: "asgct S env n = (k, fs)" by fastforce
  then have "sint k \<le> sint n" "length fs = nat (sint n)" using assms(1,2) unfolding agct_spec_def by (metis fst_conv snd_conv)+
  then show ?thesis using Some k assms(3) by (auto simp: trace_taken_def fits_def frame_count_def)
qed

lemma thread_info_ok:
  assumes "thread_map_ok held tm"
  shows "\<exists>tm'. thread_info S tm = Some (Inr (bucket_taken S tm, tm')) \<and> tmap tm' = tmap tm \<and>
    thread_map_ok (one_more (bucket_taken S tm) held) tm' \<and>
    (\<forall>a. bucket_taken S tm = Some a \<longrightarrow> (\<exists>b b'. buckets tm a = Some b \<and> buckets tm' a = Some b' \<and> refs b' = refs b + 1))"
proof (cases "jniEnv S")
  case None
  then show ?thesis using assms by (simp add: thread_info_def bucket_taken_def one_more_def)
next
  case (Some env)
  have "case bucket_of tm env of
      None \<Rightarrow> thread_get env tm = Some (Inr (None, tm))
    | Some a \<Rightarrow> \<exists>tm' b b'. thread_get env tm = Some (Inr (Some a, tm')) \<and> tmap tm' = tmap tm \<and>
        thread_map_ok (held(a := held a + 1)) tm' \<and> buckets tm a = Some b \<and> buckets tm' a = Some b' \<and>
        tid b' = tid b \<and> name b' = name b \<and> refs b' = refs b + 1"
    using env_map.tm_get_ok[OF assms[unfolded thread_map_ok_iff], of env]
    unfolding bucket_of_def thread_get_def thread_map_ok_iff .
  then show ?thesis
    using Some assms by (cases "bucket_of tm env") (auto simp: thread_info_def bucket_taken_def one_more_def)
qed

lemma handle_effect:
  assumes "wf_profiler p" and "buffer_at p = Some b" and "thread_map_ok (queued (b_queue b)) tm" and "agct_spec (asgct S)"
  shows "\<exists>q tm'. handle S (p, tm) = Some (Inr (p\<lparr>buffer_at := Some (b\<lparr>b_queue := q\<rparr>)\<rparr>, tm')) \<and> tmap tm' = tmap tm \<and>
    wf_profiler (p\<lparr>buffer_at := Some (b\<lparr>b_queue := q\<rparr>)\<rparr>) \<and>
    thread_map_ok (one_more (bucket_taken S tm) (queued (b_queue b))) tm' \<and>
    (\<forall>a. bucket_taken S tm = Some a \<longrightarrow> (\<exists>x x'. buckets tm a = Some x \<and> buckets tm' a = Some x' \<and> refs x' = refs x + 1)) \<and>
    (if used (b_queue b) < Size
     then contents q = contents (b_queue b) @ [sample_of (trace_taken S (maxFramesToCapture (conf p))) (bucket_taken S tm)]
     else q = b_queue b)"
proof -
  let ?q = "b_queue b" and ?t = "trace_taken S (maxFramesToCapture (conf p))" and ?x = "bucket_taken S tm"
  have wf: "wf_queue ?q" "int (maxFrames ?q) = sint (maxFramesToCapture (conf p))"
    using assms(1,2) by (auto simp: wf_profiler_def wf_objects_def)
  then have fit: "fits ?q ?t" using trace_taken_fits[OF assms(4)] by (metis of_nat_0_le_iff)
  obtain tm' where tm': "thread_info S tm = Some (Inr (?x, tm'))" "tmap tm' = tmap tm"
    "thread_map_ok (one_more ?x (queued ?q)) tm'"
    "\<forall>a. ?x = Some a \<longrightarrow> (\<exists>x x'. buckets tm a = Some x \<and> buckets tm' a = Some x' \<and> refs x' = refs x + 1)"
    using thread_info_ok[OF assms(3), of S] by blast
  define q where "q = (if used ?q < Size then stored ?t ?x ?q else ?q)"
  have "used ?q \<le> Size" using used_le_Size[OF wf_queueD(1)[OF wf(1)]] .
  then have push: "push ?t ?x ?q = Inr (used ?q < Size, q)"
    using push_room[OF wf_queueD(1)[OF wf(1)] _ fit] push_full[OF wf_queueD(1)[OF wf(1)]] by (auto simp: q_def)
  have "wf_queue q" "maxFrames q = maxFrames ?q" using wf_stored[OF wf(1) _ fit] wf(1) by (auto simp: q_def)
  then have "wf_profiler (p\<lparr>buffer_at := Some (b\<lparr>b_queue := q\<rparr>)\<rparr>)"
    using assms(1,2) by (auto simp: wf_profiler_def wf_texts_def wf_objects_def)
  moreover have "handle S (p, tm) = Some (Inr (p\<lparr>buffer_at := Some (b\<lparr>b_queue := q\<rparr>)\<rparr>, tm'))"
    using tm'(1) assms(2) push by (simp add: handle_def)
  moreover have "if used ?q < Size then contents q = contents ?q @ [sample_of ?t ?x] else q = ?q"
    using contents_stored[OF wf_queueD(1)[OF wf(1)] _ fit] by (simp add: q_def)
  ultimately show ?thesis using tm'(2-4) by blast
qed

subsection \<open>Properties\<close>

text \<open>
  C4: A signal is handled without a fault and no sample is lost while there is room: the queue then holds one sample more, the stack
  trace with the thread's bucket, and every reference count is right: one reference for the map
  and one for each queued sample. In particular no bucket a sample refers to can be freed.
\<close>

theorem handle_queues_sample:
  assumes "wf_profiler p" and "buffer_at p = Some b" and "used (b_queue b) < Size"
    and "thread_map_ok (queued (b_queue b)) tm" and "agct_spec (asgct S)"
  shows "\<exists>p' b' tm'. handle S (p, tm) = Some (Inr (p', tm')) \<and> wf_profiler p' \<and> buffer_at p' = Some b' \<and>
    contents (b_queue b') = contents (b_queue b) @
      [sample_of (trace_taken S (maxFramesToCapture (conf p))) (bucket_taken S tm)] \<and>
    thread_map_ok (queued (b_queue b')) tm'"
proof -
  obtain q tm' where q: "handle S (p, tm) = Some (Inr (p\<lparr>buffer_at := Some (b\<lparr>b_queue := q\<rparr>)\<rparr>, tm'))"
    "wf_profiler (p\<lparr>buffer_at := Some (b\<lparr>b_queue := q\<rparr>)\<rparr>)"
    "thread_map_ok (one_more (bucket_taken S tm) (queued (b_queue b))) tm'"
    "contents q = contents (b_queue b) @ [sample_of (trace_taken S (maxFramesToCapture (conf p))) (bucket_taken S tm)]"
    using handle_effect[OF assms(1,2,4,5)] assms(3) by auto
  then show ?thesis using queued_snoc[OF q(4)] by auto
qed

definition example_agct :: agct where
  "example_agct = (\<lambda>env n. (if sint n > 0 then 1 else 0, replicate (nat (sint n)) \<lparr>lineno = 7, method_id = 5\<rparr>))"

definition example_context :: signal_context where
  "example_context = \<lparr>jniEnv = Some 4096, gc_active = False, stack_word = 0, asgct = example_agct\<rparr>"

definition example_conf :: configuration where
  "example_conf = new_configuration\<lparr>logFilePath := Some 1\<rparr>"

definition example_profiler :: "queue \<Rightarrow> profiler" where
  "example_profiler q = \<lparr>liveConf = example_conf, conf = example_conf, reloadConfig = False, logFile = Some ''a.hpl'',
     writer_at = Some \<lparr>w_id = 0, w_file = ''a.hpl'', w_log = new_log_writer True\<rparr>,
     buffer_at = Some \<lparr>b_id = 1, b_listener = 0, b_queue = q\<rparr>,
     handler_at = Some \<lparr>h_id = 2, h_timer = \<lparr>intervalIndex = 0, timingIntervals = replicate NUMBER_OF_INTERVALS 1, currentInterval = -1\<rparr>\<rparr>,
     processor_at = Some \<lparr>p_writer = 0, p_buffer = 1, p_handler = 2, p_proc = new_processor 1\<rparr>, made = 3,
     texts = [(1, ''a.hpl'')], timer = \<lparr>itimer = (0, 0), calls = 0\<rparr>, sigprof = Sig_Default\<rparr>"

lemma example_agct_ok: "agct_spec (asgct example_context)"
  by (simp add: agct_spec_def example_context_def example_agct_def)

lemma example_profiler_wf: "wf_queue q \<Longrightarrow> maxFrames q = 128 \<Longrightarrow> wf_profiler (example_profiler q)"
  using processor_interval_value[of 1]
  by (simp add: wf_profiler_def valid_settings_def wf_texts_def wf_objects_def example_profiler_def example_conf_def
      new_configuration_def DEFAULT_SAMPLING_INTERVAL_def DEFAULT_MAX_FRAMES_TO_CAPTURE_def owned_def wf_handler_def
      NUMBER_OF_INTERVALS_def in_sync_def text_at_def new_processor_def Size_def)

theorem handle_queues_sample_witness:
  "\<exists>tm p' b' tm'. thread_put 64 4096 [] 5 new_thread_map = Some (Inr tm) \<and>
     handle example_context (example_profiler (new_queue 128), tm) = Some (Inr (p', tm')) \<and>
     buffer_at p' = Some b' \<and> queued (b_queue b') 64 = 1"
proof -
  let ?q = "new_queue 128"
  obtain tm where tm: "thread_put 64 4096 [] 5 new_thread_map = Some (Inr tm)" "thread_map_ok (\<lambda>_. 0) tm" "bucket_of tm 4096 = Some 64"
    using registered_example by blast
  have q0: "queued ?q = (\<lambda>_. 0)" by (simp add: queued_def contents_new_queue fun_eq_iff)
  have wf: "wf_profiler (example_profiler ?q)" using example_profiler_wf[OF wf_new_queue] by (simp add: new_queue_def)
  have room: "used ?q < Size" using length_contents[of ?q] by (simp add: contents_new_queue Size_def)
  have b: "buffer_at (example_profiler ?q) = Some \<lparr>b_id = 1, b_listener = 0, b_queue = ?q\<rparr>" by (simp add: example_profiler_def)
  have x: "bucket_taken example_context tm = Some 64" using tm(3) by (simp add: bucket_taken_def example_context_def)
  obtain p' b' tm' where h: "handle example_context (example_profiler ?q, tm) = Some (Inr (p', tm'))" "buffer_at p' = Some b'"
    "contents (b_queue b') = [sample_of (trace_taken example_context (maxFramesToCapture (conf (example_profiler ?q)))) (Some 64)]"
    using handle_queues_sample[OF wf b _ _ example_agct_ok, of tm] room tm(2) q0 x by (auto simp: contents_new_queue)
  then have "queued (b_queue b') 64 = 1" by (simp add: queued_def sample_of_def)
  then show ?thesis using tm(1) h(1,2) by blast
qed

text \<open>
  C36: When the queue is full the sample is dropped but not the reference taken for it. After a signal that finds the
  queue full, and even after its thread has ended and left the thread map, the thread's
  bucket has one reference more than the queue will ever give back: it is never freed.
\<close>

theorem full_queue_leaks_bucket:
  assumes "wf_profiler p" and "buffer_at p = Some b" and "used (b_queue b) = Size"
    and "thread_map_ok (queued (b_queue b)) tm" and "agct_spec (asgct S)"
    and "jniEnv S = Some env" and "bucket_of tm env = Some a"
  shows "\<exists>p' tm' tm'' x. handle S (p, tm) = Some (Inr (p', tm')) \<and> buffer_at p' = Some b \<and>
    thread_remove env tm' = Some (Inr tm'') \<and> bucket_of tm'' env = None \<and>
    buckets tm'' a = Some x \<and> refs x = int (queued (b_queue b) a) + 1"
proof -
  have x: "bucket_taken S tm = Some a" using assms(6,7) by (simp add: bucket_taken_def)
  let ?held = "(queued (b_queue b))(a := queued (b_queue b) a + 1)"
  obtain tm' where tm': "handle S (p, tm) = Some (Inr (p\<lparr>buffer_at := Some b\<rparr>, tm'))" "tmap tm' = tmap tm"
    "thread_map_ok ?held tm'"
    using handle_effect[OF assms(1,2,4,5)] assms(3) x by (auto simp: one_more_def)
  have same: "bucket_of tm' k = bucket_of tm k" for k by (simp add: bucket_of_def tm'(2))
  obtain tm'' where r: "thread_remove env tm' = Some (Inr tm'')" "env_map.tm_ok ?held tm''"
    "value_of env_hash (tmap tm'') env = MapValEmpty"
    "\<forall>k'. env_hash env \<noteq> env_hash k' \<longrightarrow> value_of env_hash (tmap tm'') k' = value_of env_hash (tmap tm') k'"
    using env_map.tm_remove_ok[OF tm'(3)[unfolded thread_map_ok_iff], of env] unfolding thread_remove_def by blast
  have gone: "bucket_of tm'' k \<noteq> Some a" for k
  proof (cases "env_hash env = env_hash k")
    case True
    then have "value_of env_hash (tmap tm'') k = MapValEmpty" using r(3) by (simp add: value_of_def)
    then show ?thesis by (simp add: bucket_of_def)
  next
    case False
    then have "bucket_of tm'' k = bucket_of tm k" using r(4) same[of k] by (simp add: bucket_of_def)
    moreover have "bucket_of tm k \<noteq> Some a"
      using False env_map.tm_okD(3)[OF assms(4)[unfolded thread_map_ok_iff], of env a k] assms(7) by (auto simp: bucket_of_def)
    ultimately show ?thesis by simp
  qed
  then have "a \<notin> env_map.held (tmap tm'')" by (auto simp: env_map.held_def bucket_of_def)
  moreover obtain y where "buckets tm'' a = Some y"
    "refs y = int (?held a) + (if a \<in> env_map.held (tmap tm'') then 1 else 0)"
    using countedD[OF env_map.tm_okD(2)[OF r(2)], of a] by auto
  ultimately show ?thesis
    using tm'(1) r(1,3) by (intro exI[of _ "p\<lparr>buffer_at := Some b\<rparr>"] exI[of _ tm'] exI[of _ tm''] exI[of _ y])
      (simp add: bucket_of_def)
qed

lemma full_queue: "\<exists>q. wf_queue q \<and> maxFrames q = 128 \<and> used q = Size \<and> queued q = (\<lambda>_. 0)"
proof -
  let ?t = "\<lparr>env_id = 0, num_frames = 0, frames = []\<rparr>" and ?q = "new_queue 128"
  have fit: "\<forall>x\<in>set (replicate Size (?t, None)). fits ?q (fst x)" by (simp add: fits_def frame_count_def)
  obtain q where q: "push_all push (replicate Size (?t, None)) ?q = Inr q" "wf_queue q" "fits q = fits ?q"
    "contents q = replicate Size (sample_of ?t None)"
    using push_all_admit[OF wf_new_queue fit] by (auto simp: admit_def samples_def contents_new_queue)
  have "maxFrames q = 128"
  proof -
    have "n \<le> maxFrames q \<longleftrightarrow> n \<le> maxFrames ?q" if "n < 2 ^ 31" for n
    proof -
      let ?u = "\<lparr>env_id = 0, num_frames = word_of_nat n, frames = replicate n zero_frame\<rparr>"
      have "frame_count ?u = n" using that by (simp add: frame_count_def signed_of_nat signed_take_bit_int_eq_self)
      then show ?thesis using fun_cong[OF q(3), of ?u] by (simp add: fits_def)
    qed
    from this[of 128] this[of 129] show ?thesis by (simp add: new_queue_def)
  qed
  moreover have "used q = Size" using length_contents[of q] by (simp add: q(4))
  moreover have "queued q = (\<lambda>_. 0)" by (simp add: queued_def q(4) sample_of_def fun_eq_iff)
  ultimately show ?thesis using q(2) by blast
qed

theorem full_queue_leaks_bucket_witness:
  "\<exists>q tm p' tm' tm'' x. thread_put 64 4096 [] 5 new_thread_map = Some (Inr tm) \<and>
     handle example_context (example_profiler q, tm) = Some (Inr (p', tm')) \<and>
     thread_remove 4096 tm' = Some (Inr tm'') \<and> buckets tm'' 64 = Some x \<and> refs x = 1"
proof -
  obtain tm where tm: "thread_put 64 4096 [] 5 new_thread_map = Some (Inr tm)" "thread_map_ok (\<lambda>_. 0) tm" "bucket_of tm 4096 = Some 64"
    using registered_example by blast
  obtain q where q: "wf_queue q" "maxFrames q = 128" "used q = Size" "queued q = (\<lambda>_. 0)" using full_queue by blast
  let ?b = "\<lparr>b_id = 1, b_listener = 0, b_queue = q\<rparr>"
  have "buffer_at (example_profiler q) = Some ?b" by (simp add: example_profiler_def)
  from full_queue_leaks_bucket[OF example_profiler_wf[OF q(1,2)] this _ _ example_agct_ok, of tm 4096 64]
  show ?thesis using q(3,4) tm by (auto simp: example_context_def) blast
qed

end
