(* ===== verification/Profiler_Concurrency.thy ===== *)
theory Profiler_Concurrency
  imports Sampler
begin

text \<open>
  The profiler used by many threads at once: callers of the API, which take the spin lock \<open>ongoingConf\<close> with
  \<open>SimpleSpinLockGuard<true>\<close> (\<^verbatim>\<open>profiler.h\<close>), and threads in which the signal handler runs, which only read
  the lock (\<open>SimpleSpinLockGuard<false>\<close>).

  A step of a caller is a compare-and-swap of the lock, the body of its call, or the release. A step of
  the handler is a read of shared data: the two reads of \<open>maxFramesToCapture\<close>, the read of \<open>buffer\<close>, and the push.
\<close>

datatype caller_pc = A_Idle | A_Spin call | A_Body call | A_Release

text \<open>
  The handler's local variables: the size of \<open>frames\<close>, an array on its stack; the trace; the buffer it has loaded.
\<close>

datatype handler_pc =
    H_Idle
  | H_Frames jint
  | H_Traced "call_frame list call_trace"
  | H_Push nat "call_frame list call_trace"

record shared =
  profiler_of :: profiler
  ongoingConf :: bool
  caller :: "nat \<Rightarrow> caller_pc"
  handler :: "nat \<Rightarrow> handler_pc"

text \<open>
  Caller \<open>t\<close>; \<open>x\<close> is the call it makes when it is idle. \<open>None\<close> is a \<open>stop\<close> that still waits, inside its critical section.
\<close>

definition caller_step :: "system \<Rightarrow> nat \<Rightarrow> call \<Rightarrow> shared \<Rightarrow> shared result option" where
  "caller_step E t x s = (case caller s t of
     A_Idle \<Rightarrow> Some (Inr (s\<lparr>caller := (caller s)(t := A_Spin x)\<rparr>))
   | A_Spin y \<Rightarrow> Some (Inr (if ongoingConf s then s else s\<lparr>ongoingConf := True, caller := (caller s)(t := A_Body y)\<rparr>))
   | A_Body y \<Rightarrow>
       map_option (\<lambda>r. and_then r (\<lambda>q. Inr (s\<lparr>profiler_of := q, caller := (caller s)(t := A_Release)\<rparr>)))
         (run_call E y (profiler_of s))
   | A_Release \<Rightarrow> Some (Inr (s\<lparr>ongoingConf := False, caller := (caller s)(t := A_Idle)\<rparr>)))"

text \<open>
  The signal handler in thread \<open>h\<close>. The array has as many frames as \<open>maxFramesToCapture\<close> was at first;
  \<open>AsyncGetCallTrace\<close> is asked for as many as it is then. A buffer that is no longer in place has been deleted.
\<close>

definition handler_step :: "signal_context \<Rightarrow> addr option \<Rightarrow> nat \<Rightarrow> shared \<Rightarrow> shared result" where
  "handler_step S tb h s = (case handler s h of
     H_Idle \<Rightarrow> Inr (s\<lparr>handler := (handler s)(h := H_Frames (maxFramesToCapture (conf (profiler_of s))))\<rparr>)
   | H_Frames n \<Rightarrow>
       let tr = trace_taken S (maxFramesToCapture (conf (profiler_of s))) in
       if jniEnv S \<noteq> None \<and> sint (num_frames tr) > sint n then Inl Out_Of_Bounds
       else Inr (s\<lparr>handler := (handler s)(h := H_Traced tr)\<rparr>)
   | H_Traced tr \<Rightarrow>
       (case buffer_at (profiler_of s) of
          None \<Rightarrow> Inl Null_Deref
        | Some b \<Rightarrow> Inr (s\<lparr>handler := (handler s)(h := H_Push (b_id b) tr)\<rparr>))
   | H_Push i tr \<Rightarrow>
       (case buffer_at (profiler_of s) of
          None \<Rightarrow> Inl Use_After_Free
        | Some b \<Rightarrow> if b_id b \<noteq> i then Inl Use_After_Free
            else and_then (push tr tb (b_queue b)) (\<lambda>(res, q).
              Inr (s\<lparr>profiler_of := (profiler_of s)\<lparr>buffer_at := Some (b\<lparr>b_queue := q\<rparr>)\<rparr>,
                handler := (handler s)(h := H_Idle)\<rparr>))))"

text \<open>Which calls callers make: all of the API.\<close>

fun api_call :: "call \<Rightarrow> bool" where
  "api_call (Sampled t tb) = False"
| "api_call (Set_Path s) = (\<forall>t. s = Some t \<longrightarrow> length t < 2 ^ 62)"
| "api_call _ = True"

inductive reaches :: "system \<Rightarrow> shared \<Rightarrow> shared \<Rightarrow> bool" for E s0 where
  start: "reaches E s0 s0"
| caller: "reaches E s0 s \<Longrightarrow> api_call x \<Longrightarrow> caller_step E t x s = Some (Inr s') \<Longrightarrow> reaches E s0 s'"
| handler: "reaches E s0 s \<Longrightarrow> agct_spec (asgct S) \<Longrightarrow> handler_step S tb h s = Inr s' \<Longrightarrow> reaches E s0 s'"

definition quiet_system :: "profiler \<Rightarrow> shared" where
  "quiet_system p = \<lparr>profiler_of = p, ongoingConf = False, caller = (\<lambda>t. A_Idle), handler = (\<lambda>h. H_Idle)\<rparr>"

subsection \<open>The lock\<close>

fun critical :: "caller_pc \<Rightarrow> bool" where
  "critical (A_Body x) = True"
| "critical A_Release = True"
| "critical _ = False"

fun pending_ok :: "caller_pc \<Rightarrow> bool" where
  "pending_ok (A_Spin x) = api_call x"
| "pending_ok (A_Body x) = api_call x"
| "pending_ok _ = True"

definition exclusive :: "shared \<Rightarrow> bool" where
  "exclusive s \<longleftrightarrow> (\<forall>t t'. critical (caller s t) \<longrightarrow> critical (caller s t') \<longrightarrow> t = t') \<and>
     (ongoingConf s \<longleftrightarrow> (\<exists>t. critical (caller s t)))"

definition shared_ok :: "shared \<Rightarrow> bool" where
  "shared_ok s \<longleftrightarrow> exclusive s \<and> wf_profiler (profiler_of s) \<and> (\<forall>t. pending_ok (caller s t)) \<and>
     (\<forall>h n. handler s h = H_Frames n \<longrightarrow> 0 \<le> sint n)"

lemma exclusive_step:
  assumes "exclusive s" and "caller_step E t x s = Some (Inr s')"
  shows "exclusive s'"
proof (cases "caller s t")
  case A_Idle
  then have s': "s' = s\<lparr>caller := (caller s)(t := A_Spin x)\<rparr>" using assms(2) by (simp add: caller_step_def)
  have "critical (caller s' u) = critical (caller s u)" for u using A_Idle by (simp add: s')
  then show ?thesis using assms(1) by (simp add: exclusive_def s')
next
  case (A_Spin y)
  show ?thesis
  proof (cases "ongoingConf s")
    case True
    then show ?thesis using A_Spin assms by (simp add: caller_step_def)
  next
    case False
    then have s': "s' = s\<lparr>ongoingConf := True, caller := (caller s)(t := A_Body y)\<rparr>"
      using A_Spin assms(2) by (simp add: caller_step_def)
    have "\<not> critical (caller s u)" for u using assms(1) False unfolding exclusive_def by blast
    then show ?thesis unfolding s' exclusive_def by auto
  qed
next
  case (A_Body y)
  then obtain q where "s' = s\<lparr>profiler_of := q, caller := (caller s)(t := A_Release)\<rparr>"
    using assms(2) by (auto simp: caller_step_def)
  moreover have "critical (caller s t)" using A_Body by simp
  ultimately show ?thesis using assms(1) by (auto simp: exclusive_def)
next
  case A_Release
  then have s': "s' = s\<lparr>ongoingConf := False, caller := (caller s)(t := A_Idle)\<rparr>" using assms(2) by (simp add: caller_step_def)
  have "critical (caller s t)" using A_Release by simp
  then have "\<not> critical (caller s u)" if "u \<noteq> t" for u using assms(1) that unfolding exclusive_def by blast
  then show ?thesis unfolding s' exclusive_def by auto
qed

lemma caller_step_ok:
  assumes "system_ok E" and "shared_ok s" and "api_call x" and "caller_step E t x s = Some (Inr s')"
  shows "shared_ok s'"
proof -
  note ok = assms(2)[unfolded shared_ok_def]
  have ex: "exclusive s'" by (rule exclusive_step[OF _ assms(4)]) (use ok in blast)
  have h: "handler s' = handler s"
    using assms(4) by (cases "caller s t") (auto simp: caller_step_def split: if_splits)
  have pend: "pending_ok (caller s' u)" for u
    using assms(3,4) ok by (cases "caller s t"; cases "u = t") (auto simp: caller_step_def split: if_splits dest: spec[of _ t])
  have "wf_profiler (profiler_of s')"
  proof (cases "caller s t")
    case (A_Body y)
    then obtain q where q: "run_call E y (profiler_of s) = Some (Inr q)" "profiler_of s' = q"
      using assms(4) by (auto simp: caller_step_def)
    have "api_call y" using ok A_Body by (metis pending_ok.simps(2))
    then have "call_ok (profiler_of s) y" by (cases y) auto
    then show ?thesis using run_call_wf[OF assms(1) _ _ q(1)] ok q(2) by auto
  qed (use assms(4) ok in \<open>auto simp: caller_step_def split: if_splits\<close>)
  then show ?thesis using ex pend h ok by (simp add: shared_ok_def)
qed

lemma copy_frames_bounds: "copy_frames fb src k n = Inr r \<Longrightarrow> k \<le> n \<Longrightarrow> n \<le> length fb \<and> n \<le> length src \<or> k = n"
proof (induction fb src k n rule: copy_frames.induct)
  case (1 fb src k n)
  show ?case
  proof (cases "k < n")
    case True
    then have "k < length fb \<and> k < length src"
      using "1.prems"(1) by (subst (asm) copy_frames.simps) (auto split: if_splits)
    moreover from this have "copy_frames (fb[k := \<lparr>lineno = lineno (src ! k), method_id = method_id (src ! k)\<rparr>]) src (k + 1) n = Inr r"
      using "1.prems"(1) True by (subst (asm) copy_frames.simps) simp
    ultimately show ?thesis using "1.IH"[OF True] True by fastforce
  qed (use "1.prems"(2) in simp)
qed

text \<open>A push that ends well has written within the bounds.\<close>

lemma push_keeps_wf:
  assumes "wf_queue q" and "push t tb q = Inr (res, q')"
  shows "wf_queue q' \<and> maxFrames q' = maxFrames q"
proof (cases "used q < Size")
  case True
  then have "output_idx q \<noteq> advance (input_idx q)" using full_iff[OF wf_queueD(1)[OF assms(1)]] by simp
  then obtain fb where fb: "copy_frames (frame_buffer q ! input_idx q) (frames t) 0 (frame_count t) = Inr fb"
    using assms(2) by (auto simp: push_def write_slot_def Let_def)
  moreover have "length (frame_buffer q ! input_idx q) = maxFrames q"
    using wf_queueD(1)[OF assms(1)] by (auto simp: wf_shape_def)
  ultimately have "fits q t" using copy_frames_bounds[OF fb] by (auto simp: fits_def)
  from push_wf[OF assms(1) this, of tb] show ?thesis using assms(2) by auto
next
  case False
  then have "used q = Size" using used_le_Size[OF wf_queueD(1)[OF assms(1)]] by simp
  then show ?thesis using push_full[OF wf_queueD(1)[OF assms(1)], of t tb] assms by simp
qed

lemma handler_step_ok:
  assumes "shared_ok s" and "agct_spec (asgct S)" and "handler_step S tb h s = Inr s'"
  shows "shared_ok s'"
proof -
  note ok = assms(1)[unfolded shared_ok_def]
  have c: "caller s' = caller s" "ongoingConf s' = ongoingConf s"
    using assms(3) by (cases "handler s h"; auto simp: handler_step_def Let_def split: if_splits option.splits)+
  have "wf_profiler (profiler_of s') \<and> (\<forall>k n. handler s' k = H_Frames n \<longrightarrow> 0 \<le> sint n)"
  proof (cases "handler s h")
    case H_Idle
    have "0 \<le> sint (maxFramesToCapture (conf (profiler_of s)))" using ok by (auto simp: wf_profiler_def valid_settings_def)
    then show ?thesis using assms(3) ok H_Idle by (auto simp: handler_step_def split: if_splits)
  next
    case (H_Push i tr)
    then obtain b res q where b: "buffer_at (profiler_of s) = Some b" "push tr tb (b_queue b) = Inr (res, q)"
      "profiler_of s' = (profiler_of s)\<lparr>buffer_at := Some (b\<lparr>b_queue := q\<rparr>)\<rparr>" "handler s' = (handler s)(h := H_Idle)"
      using assms(3) by (auto simp: handler_step_def split: option.splits if_splits)
    have wfq: "wf_queue (b_queue b)" using ok b(1) by (auto simp: wf_profiler_def wf_objects_def)
    have "wf_queue q \<and> maxFrames q = maxFrames (b_queue b)" using push_keeps_wf[OF wfq b(2)] .
    then have "wf_profiler (profiler_of s')"
      using ok b(1,3) by (auto simp: wf_profiler_def wf_texts_def wf_objects_def)
    then show ?thesis using ok b(4) by simp
  qed (use assms(3) ok in \<open>auto simp: handler_step_def Let_def split: if_splits option.splits\<close>)
  then show ?thesis using ok c by (simp add: shared_ok_def exclusive_def)
qed

lemma reaches_ok: "reaches E s0 s \<Longrightarrow> system_ok E \<Longrightarrow> shared_ok s0 \<Longrightarrow> shared_ok s"
  by (induction rule: reaches.induct) (auto intro: caller_step_ok handler_step_ok)

lemma quiet_ok: "wf_profiler p \<Longrightarrow> shared_ok (quiet_system p)"
  by (simp add: shared_ok_def quiet_system_def exclusive_def)

subsection \<open>A call from beginning to end\<close>

lemma call_reaches:
  assumes "reaches E s0 s" and "caller s t = A_Idle" and "\<not> ongoingConf s" and "api_call x"
    and "run_call E x (profiler_of s) = Some (Inr q)"
  shows "reaches E s0 (s\<lparr>profiler_of := q\<rparr>)"
proof -
  let ?at = "\<lambda>l. (caller s)(t := l)"
  have idle: "?at A_Idle = caller s" using assms(2) by auto
  have 1: "reaches E s0 (s\<lparr>caller := ?at (A_Spin x)\<rparr>)"
    by (rule reaches.caller[OF assms(1,4), of t]) (simp add: caller_step_def assms(2))
  have 2: "reaches E s0 (s\<lparr>ongoingConf := True, caller := ?at (A_Body x)\<rparr>)"
    by (rule reaches.caller[OF 1 assms(4), of t]) (simp add: caller_step_def assms(3))
  have 3: "reaches E s0 (s\<lparr>profiler_of := q, ongoingConf := True, caller := ?at A_Release\<rparr>)"
    by (rule reaches.caller[OF 2 assms(4), of t]) (simp add: caller_step_def assms(5))
  have "s\<lparr>profiler_of := q, ongoingConf := False, caller := ?at A_Idle\<rparr> = s\<lparr>profiler_of := q\<rparr>"
    using assms(3) by (simp add: idle)
  moreover have "reaches E s0 (s\<lparr>profiler_of := q, ongoingConf := False, caller := ?at A_Idle\<rparr>)"
    by (rule reaches.caller[OF 3 assms(4), of t]) (simp add: caller_step_def)
  ultimately show ?thesis by simp
qed

lemma stop_keeps_buffer:
  assumes "stop_profiler E sch p = Some (Inr q)" and "wf_profiler p"
  shows "buffer_at q = buffer_at p \<and> conf q = conf p \<and> made q = made p \<and> (is_running p \<longrightarrow> \<not> is_running q)"
proof -
  have nr: "\<not> isRunning r'" if "await_worker sch r = Some r'" "\<not> isRunning r" for r r'
    using that by (induction sch arbitrary: r) (auto simp: Let_def worker_exit_def split: if_splits)
  show ?thesis
    using assms nr by (auto simp: stop_profiler_def stop_processor_def is_running_def split: if_splits option.splits prod.splits)
qed

lemma configure_new_buffer:
  assumes "configure E p = Inr q" and "maxFramesToCapture (conf p) \<noteq> maxFramesToCapture (liveConf p)"
  shows "\<exists>b. buffer_at q = Some b \<and> made p \<le> b_id b \<and> maxFramesToCapture (conf q) = maxFramesToCapture (liveConf p)"
proof -
  define n1 where "n1 \<longleftrightarrow> processor_at p = None \<or> logFilePath (conf p) \<noteq> logFilePath (liveConf p)"
  obtain p1 where c1: "(if n1 then configure_log E p else Inr p) = Inr p1"
    and r1: "and_then (if n1 \<or> maxFramesToCapture (conf p1) \<noteq> maxFramesToCapture (liveConf p1) then configure_buffer p1 else Inr p1)
      (\<lambda>p2. and_then (if n1 \<or> maxFramesToCapture (conf p1) \<noteq> maxFramesToCapture (liveConf p1) \<or>
          samplingIntervalMin (conf p2) \<noteq> samplingIntervalMin (liveConf p2) \<or>
          samplingIntervalMax (conf p2) \<noteq> samplingIntervalMax (liveConf p2) then configure_sampling E p2 else Inr p2)
        (\<lambda>p3. Inr (p3\<lparr>reloadConfig := False\<rparr>))) = Inr q"
    using assms(1) unfolding configure_def Let_def n1_def[symmetric] by (auto simp: disj_assoc)
  have p1: "made p \<le> made p1" "maxFramesToCapture (conf p1) \<noteq> maxFramesToCapture (liveConf p1)"
    "maxFramesToCapture (liveConf p1) = maxFramesToCapture (liveConf p)"
    using c1 assms(2) by (cases n1; auto simp: configure_log_def)+
  obtain p2 p3 where c: "configure_buffer p1 = Inr p2" "configure_sampling E p2 = Inr p3" "q = p3\<lparr>reloadConfig := False\<rparr>"
    using r1 p1(2) by auto
  have "buffer_at p3 = buffer_at p2 \<and> maxFramesToCapture (conf p3) = maxFramesToCapture (conf p2)"
    using c(2) by (cases "writer_at p2"; cases "buffer_at p2") (auto simp: configure_sampling_def Let_def)
  moreover have "\<exists>b. buffer_at p2 = Some b \<and> b_id b = made p1 \<and> maxFramesToCapture (conf p2) = maxFramesToCapture (liveConf p1)"
    using c(1) by (auto simp: configure_buffer_def Let_def split: if_splits option.splits)
  ultimately show ?thesis using c(3) p1 by auto
qed

lemma start_new_buffer:
  assumes "start_profiler E ok p = Inr (res, q)" and "\<not> is_running p" and "reloadConfig p"
    and "maxFramesToCapture (conf p) \<noteq> maxFramesToCapture (liveConf p)"
  shows "\<exists>b. buffer_at q = Some b \<and> made p \<le> b_id b \<and> maxFramesToCapture (conf q) = maxFramesToCapture (liveConf p)"
proof -
  obtain p1 where p1: "configure E p = Inr p1" "buffer_at q = buffer_at p1" "conf q = conf p1"
    using assms(1-3) by (cases "configure E p") (auto simp: start_profiler_def split: option.splits)
  show ?thesis using configure_new_buffer[OF p1(1) assms(4)] p1(2,3) by simp
qed

text \<open>A caller stops the profiler, sets another number of frames and starts it again.\<close>

lemma reconfigure_reaches:
  assumes "reaches E s0 s" and "caller s 0 = A_Idle" and "\<not> ongoingConf s" and "system_ok E"
    and "wf_profiler (profiler_of s)" and "is_running (profiler_of s)" and "stop_profiler E sch (profiler_of s) = Some (Inr p1)"
    and "0 < sint n" and "sint n < sint MAX_FRAMES_TO_CAPTURE" and "n \<noteq> maxFramesToCapture (conf (profiler_of s))"
  shows "\<exists>q b. reaches E s0 (s\<lparr>profiler_of := q\<rparr>) \<and> buffer_at q = Some b \<and> made (profiler_of s) \<le> b_id b \<and>
    maxFramesToCapture (conf q) = n"
proof -
  note p1 = stop_keeps_buffer[OF assms(7,5)]
  define p2 where "p2 = setMaxFramesToCapture n p1"
  have p2: "\<not> is_running p2" "reloadConfig p2" "conf p2 = conf p1" "made p2 = made p1" "maxFramesToCapture (liveConf p2) = n"
    using p1 assms(6,8,9) by (simp_all add: p2_def setMaxFramesToCapture_def is_running_def)
  have "wf_profiler p1" using run_call_wf[OF assms(4,5), of "Stop sch"] assms(7) by auto
  then have wf2: "wf_profiler p2" using run_call_wf[OF assms(4), of p1 "Set_Frames n"] by (auto simp: p2_def)
  obtain res q where q: "start_profiler E True p2 = Inr (res, q)" using start_wf[OF assms(4) wf2 p2(1)] by blast
  have s1: "reaches E s0 (s\<lparr>profiler_of := p1\<rparr>)"
    by (rule call_reaches[OF assms(1-3), of "Stop sch"]) (use assms(7) in simp_all)
  have s2: "reaches E s0 (s\<lparr>profiler_of := p2\<rparr>)"
    using call_reaches[OF s1, of 0 "Set_Frames n"] assms(2,3) by (simp add: p2_def)
  have s3: "reaches E s0 (s\<lparr>profiler_of := q\<rparr>)"
    using call_reaches[OF s2, of 0 "Start True"] assms(2,3) q by simp
  have "maxFramesToCapture (conf p2) \<noteq> maxFramesToCapture (liveConf p2)" using assms(10) p1 p2 by simp
  from start_new_buffer[OF q p2(1,2) this] s3 p1 p2 show ?thesis by auto
qed

text \<open>The handler in thread 0, up to its first read and up to its push.\<close>

lemma handler_prefix:
  assumes "buffer_at p = Some b"
  shows "reaches E (quiet_system p) ((quiet_system p)\<lparr>handler := (\<lambda>h. H_Idle)(0 := H_Frames (maxFramesToCapture (conf p)))\<rparr>)"
    and "\<exists>tr. reaches E (quiet_system p) ((quiet_system p)\<lparr>handler := (\<lambda>h. H_Idle)(0 := H_Push (b_id b) tr)\<rparr>)"
proof -
  define S where "S = example_context\<lparr>jniEnv := None\<rparr>"
  have S: "agct_spec (asgct S)" "jniEnv S = None" using example_agct_ok by (simp_all add: S_def)
  define tr where "tr = trace_taken S (maxFramesToCapture (conf p))"
  have 1: "reaches E (quiet_system p) ((quiet_system p)\<lparr>handler := (\<lambda>h. H_Idle)(0 := H_Frames (maxFramesToCapture (conf p)))\<rparr>)"
    by (rule reaches.handler[OF reaches.start S(1), where tb = None and h = 0]) (simp add: handler_step_def quiet_system_def)
  show "reaches E (quiet_system p) ((quiet_system p)\<lparr>handler := (\<lambda>h. H_Idle)(0 := H_Frames (maxFramesToCapture (conf p)))\<rparr>)"
    by (rule 1)
  have 2: "reaches E (quiet_system p) ((quiet_system p)\<lparr>handler := (\<lambda>h. H_Idle)(0 := H_Traced tr)\<rparr>)"
    by (rule reaches.handler[OF 1 S(1), where tb = None and h = 0]) (simp add: handler_step_def quiet_system_def S(2) tr_def)
  have "reaches E (quiet_system p) ((quiet_system p)\<lparr>handler := (\<lambda>h. H_Idle)(0 := H_Push (b_id b) tr)\<rparr>)"
    by (rule reaches.handler[OF 2 S(1), where tb = None and h = 0]) (simp add: handler_step_def quiet_system_def assms)
  then show "\<exists>tr. reaches E (quiet_system p) ((quiet_system p)\<lparr>handler := (\<lambda>h. H_Idle)(0 := H_Push (b_id b) tr)\<rparr>)" by blast
qed

subsection \<open>Properties\<close>

text \<open>
  C7: the spin lock of the profiler works and protects its state: whatever calls of the API any number of threads
  make and wherever signal handlers run in between, at most one caller is inside its call, the lock is set exactly
  then, and the profiler is well-formed: its settings are valid, it owns its strings, and its writer, queue, timer and
  processor belong together.
\<close>

theorem callers_exclude_each_other:
  assumes "system_ok E" and "wf_profiler p" and "reaches E (quiet_system p) s"
  shows "(\<forall>t t'. critical (caller s t) \<and> critical (caller s t') \<longrightarrow> t = t') \<and>
    (ongoingConf s \<longleftrightarrow> (\<exists>t. critical (caller s t))) \<and> wf_profiler (profiler_of s)"
  using reaches_ok[OF assms(3,1) quiet_ok[OF assms(2)]] by (auto simp: shared_ok_def exclusive_def)

theorem callers_exclude_each_other_witness:
  "\<exists>s. reaches example_system (quiet_system (example_profiler (new_queue 128))) s \<and> handler s 0 = H_Frames 128 \<and>
     wf_profiler (profiler_of s)"
proof -
  let ?p = "example_profiler (new_queue 128)"
  have wf: "wf_profiler ?p" using example_profiler_wf[OF wf_new_queue] by (simp add: new_queue_def)
  have m: "maxFramesToCapture (conf ?p) = 128"
    by (simp add: example_profiler_def example_conf_def new_configuration_def DEFAULT_MAX_FRAMES_TO_CAPTURE_def)
  obtain b where b: "buffer_at ?p = Some b" by (simp add: example_profiler_def)
  note r = handler_prefix(1)[OF b, of example_system, unfolded m]
  show ?thesis using callers_exclude_each_other[OF example_system_ok wf r] r
    by (intro exI conjI) (assumption, auto)
qed

text \<open>
  C8: the same lock does not protect the signal handler, which only reads it. When a running profiler is stopped and
  started with another number of frames, a handler that had already loaded the queue pushes into the queue that has been
  deleted; and one that had only made its array of frames has \<open>AsyncGetCallTrace\<close> write more frames than the array
  has, whenever the stack is deeper.
\<close>

theorem handler_is_not_excluded:
  assumes "system_ok E" and "wf_profiler p" and "is_running p" and "stop_profiler E sch p = Some (Inr p1)"
    and "0 < sint n" and "sint n < sint MAX_FRAMES_TO_CAPTURE" and "n \<noteq> maxFramesToCapture (conf p)"
  shows "(\<exists>s. reaches E (quiet_system p) s \<and> (\<forall>S tb. handler_step S tb 0 s = Inl Use_After_Free)) \<and>
    (\<exists>s. reaches E (quiet_system p) s \<and>
      (\<forall>S tb env. jniEnv S = Some env \<and> sint (fst (asgct S env n)) > sint (maxFramesToCapture (conf p)) \<longrightarrow>
        handler_step S tb 0 s = Inl Out_Of_Bounds))"
proof -
  obtain b where b: "buffer_at p = Some b" "b_id b < made p"
    using assms(2,3) by (auto simp: wf_profiler_def wf_objects_def is_running_def split: option.splits)
  have quiet: "caller (quiet_system p\<lparr>handler := f\<rparr>) 0 = A_Idle" "\<not> ongoingConf (quiet_system p\<lparr>handler := f\<rparr>)"
    "profiler_of (quiet_system p\<lparr>handler := f\<rparr>) = p" for f by (simp_all add: quiet_system_def)
  note again = reconfigure_reaches[OF _ quiet(1,2) assms(1), unfolded quiet(3), OF _ assms(2-7)]
  obtain tr where "reaches E (quiet_system p) ((quiet_system p)\<lparr>handler := (\<lambda>h. H_Idle)(0 := H_Push (b_id b) tr)\<rparr>)"
    using handler_prefix(2)[OF b(1)] by blast
  from again[OF this] b(2)
  have freed: "\<exists>s. reaches E (quiet_system p) s \<and> (\<forall>S tb. handler_step S tb 0 s = Inl Use_After_Free)"
    by (fastforce simp: handler_step_def)
  obtain q where "reaches E (quiet_system p)
      ((quiet_system p)\<lparr>handler := (\<lambda>h. H_Idle)(0 := H_Frames (maxFramesToCapture (conf p))), profiler_of := q\<rparr>)"
    "maxFramesToCapture (conf q) = n"
    using again[OF handler_prefix(1)[OF b(1)]] by auto
  then have "\<exists>s. reaches E (quiet_system p) s \<and>
      (\<forall>S tb env. jniEnv S = Some env \<and> sint (fst (asgct S env n)) > sint (maxFramesToCapture (conf p)) \<longrightarrow>
        handler_step S tb 0 s = Inl Out_Of_Bounds)"
    by (intro exI conjI) (assumption, auto simp: handler_step_def trace_taken_def split: prod.split)
  with freed show ?thesis by (rule conjI)
qed

text \<open>A fresh profiler that has been started, with a worker that ends at once when it is told to.\<close>

lemma started_example:
  "\<exists>p p1. wf_profiler p \<and> is_running p \<and> maxFramesToCapture (conf p) = 128 \<and>
     stop_profiler example_system [True] p = Some (Inr p1)"
proof -
  let ?p = "example_profiler (new_queue 128)"
  have p: "wf_profiler ?p" "\<not> is_running ?p" "\<not> reloadConfig ?p" "maxFramesToCapture (conf ?p) = 128"
    using example_profiler_wf[OF wf_new_queue]
    by (simp_all add: new_queue_def is_running_def example_profiler_def new_processor_def example_conf_def
        new_configuration_def DEFAULT_MAX_FRAMES_TO_CAPTURE_def)
  from start_wf[OF example_system_ok p(1,2), of True] obtain res q o1 where
    q: "start_profiler example_system True ?p = Inr (res, q)" "wf_profiler q" "is_running q"
      "processor_at q = Some o1" "worker (p_proc o1)" by blast
  have m: "maxFramesToCapture (conf q) = 128"
    using q(1) p(2-4) by (auto simp: start_profiler_def split: option.splits)
  obtain h where h: "handler_at q = Some h" "workerDone (p_proc o1)"
    using q(2,4,5) by (auto simp: wf_profiler_def wf_objects_def)
  obtain o2 where "stop_processor [True] (p_proc o1) = Some o2"
    using await_running_worker[of "p_proc o1\<lparr>isRunning := False\<rparr>" "[True]"] q(5) h(2) by (auto simp: stop_processor_def)
  then have "\<exists>p1. stop_profiler example_system [True] q = Some (Inr p1)"
    using q(3,4) h(1) by (simp add: stop_profiler_def split: prod.split)
  then show ?thesis using q(2,3) m by blast
qed

theorem handler_is_not_excluded_witness:
  "\<exists>p. wf_profiler p \<and> maxFramesToCapture (conf p) = 128 \<and>
     (\<exists>s. reaches example_system (quiet_system p) s \<and> (\<forall>S tb. handler_step S tb 0 s = Inl Use_After_Free)) \<and>
     (\<exists>s. reaches example_system (quiet_system p) s \<and>
       handler_step (example_context\<lparr>asgct := (\<lambda>env n. (n, replicate (nat (sint n)) zero_frame))\<rparr>) None 0 s = Inl Out_Of_Bounds)"
proof -
  obtain p p1 where p: "wf_profiler p" "is_running p" "maxFramesToCapture (conf p) = 128"
    "stop_profiler example_system [True] p = Some (Inr p1)" using started_example by blast
  have n: "0 < sint (200 :: jint)" "sint (200 :: jint) < sint MAX_FRAMES_TO_CAPTURE" "(200 :: jint) \<noteq> maxFramesToCapture (conf p)"
    by (simp_all add: p(3) MAX_FRAMES_TO_CAPTURE_def)
  note r = handler_is_not_excluded[OF example_system_ok p(1,2,4) n]
  obtain s where "reaches example_system (quiet_system p) s"
    "\<And>S tb env. jniEnv S = Some env \<Longrightarrow> sint (fst (asgct S env 200)) > sint (maxFramesToCapture (conf p)) \<Longrightarrow>
        handler_step S tb 0 s = Inl Out_Of_Bounds" using r by blast
  then have "handler_step (example_context\<lparr>asgct := (\<lambda>env n. (n, replicate (nat (sint n)) zero_frame))\<rparr>) None 0 s = Inl Out_Of_Bounds"
    by (simp add: example_context_def p(3))
  then show ?thesis using r p(1,3) \<open>reaches example_system (quiet_system p) s\<close> by blast
qed

end
