(* ===== verification/Controller.thy ===== *)
theory Controller
  imports Profiler
begin

text \<open>
  \<open>Controller\<close> (\<^verbatim>\<open>controller.h\<close>, \<^verbatim>\<open>controller.cpp\<close>): the thread that takes commands from
  a socket, one per connection, and runs them on the profiler. Commands are told apart by how the text begins;
  \<open>set\<close> reads its arguments with an input stream.

  Sockets belong to the system: a connection is what \<open>recv\<close> yields and what the JVM answers while the
  command runs. Replies are the bytes given to \<open>send\<close>.
\<close>

subsection \<open>Input streams\<close>

record istream =
  rest :: string
  eofbit :: bool
  failbit :: bool

definition istream_of :: "string \<Rightarrow> istream" where
  "istream_of s = \<lparr>rest = s, eofbit = False, failbit = False\<rparr>"

text \<open>\<open>input >> std::ws\<close> skips blanks; at the end of the text it sets \<open>eofbit\<close> only.\<close>

definition skip_blanks :: "istream \<Rightarrow> istream" where
  "skip_blanks i = (let r = dropWhile is_space (rest i) in i\<lparr>rest := r, eofbit := (r = [])\<rparr>)"

text \<open>
  What every formatted extraction does first: it fails on a stream that is not good, skips blanks, and
  fails at the end of the text.
\<close>

definition sentry :: "istream \<Rightarrow> bool \<times> istream" where
  "sentry i =
     (if eofbit i \<or> failbit i then (False, i\<lparr>failbit := True\<rparr>)
      else let r = dropWhile is_space (rest i) in
        if r = [] then (False, i\<lparr>rest := r, eofbit := True, failbit := True\<rparr>) else (True, i\<lparr>rest := r\<rparr>))"

text \<open>A word; a string variable stays as it was, here empty, when the extraction fails.\<close>

definition read_word :: "istream \<Rightarrow> string \<times> istream" where
  "read_word i = (case sentry i of (ok, i1) \<Rightarrow>
     if ok then let w = takeWhile (\<lambda>c. \<not> is_space c) (rest i1); r = dropWhile (\<lambda>c. \<not> is_space c) (rest i1) in
       (w, i1\<lparr>rest := r, eofbit := (r = [])\<rparr>)
     else ('''', i1))"

text \<open>
  An \<open>int\<close>: \<open>None\<close> when the variable is not assigned. Without digits it is assigned zero, out of range
  the nearest value, and both set \<open>failbit\<close>.
\<close>

definition read_int :: "istream \<Rightarrow> jint option \<times> istream" where
  "read_int i = (case sentry i of (ok, i1) \<Rightarrow>
     if \<not> ok then (None, i1)
     else case split_sign (rest i1) of (neg, t) \<Rightarrow>
       let ds = takeWhile is_digit t; r = dropWhile is_digit t; v = signed_value neg ds in
       if ds = [] then (Some 0, i1\<lparr>rest := r, eofbit := (r = []), failbit := True\<rparr>)
       else (Some (word_of_int (clamp 32 v)), i1\<lparr>rest := r, eofbit := (r = []), failbit := (clamp 32 v \<noteq> v)\<rparr>))"

subsection \<open>Commands\<close>

text \<open>Reading a variable that has no value is a fault.\<close>

definition use :: "'a option \<Rightarrow> 'a result" where
  "use x = (case x of None \<Rightarrow> Inl Uninitialised_Read | Some v \<Rightarrow> Inr v)"

definition setProfilerParam :: "system \<Rightarrow> string \<Rightarrow> profiler \<Rightarrow> profiler result" where
  "setProfilerParam E paramDesc p =
     (case read_word (skip_blanks (istream_of paramDesc)) of (command, i1) \<Rightarrow>
      if command = ''logPath'' then setFilePath E (Some (fst (read_word i1))) p
      else case read_int i1 of (numericArg1, i2) \<Rightarrow>
        if command = ''intervalMin'' then
          and_then (use numericArg1) (\<lambda>n. Inr (setSamplingInterval n (getSamplingIntervalMax p) p))
        else if command = ''intervalMax'' then
          and_then (use numericArg1) (\<lambda>n. Inr (setSamplingInterval (getSamplingIntervalMin p) n p))
        else if command = ''maxFrames'' then
          and_then (use numericArg1) (\<lambda>n. Inr (setMaxFramesToCapture n p))
        else if command = ''interval'' then
          (case read_int i2 of (numericArg2, i3) \<Rightarrow>
             and_then (use numericArg1) (\<lambda>m. and_then (use numericArg2) (\<lambda>n. Inr (setSamplingInterval m n p))))
        else Inr p)"

definition newline :: string where "newline = [CHR 0x0A]"

text \<open>\<open>None\<close> is an unknown parameter, which gets no reply.\<close>

definition getProfilerParam :: "string \<Rightarrow> profiler \<Rightarrow> string option result" where
  "getProfilerParam param p =
     (if at_start ''intervalMin'' param then Inr (Some (show_int (sint (getSamplingIntervalMin p)) @ newline))
      else if at_start ''intervalMax'' param then Inr (Some (show_int (sint (getSamplingIntervalMax p)) @ newline))
      else if at_start ''interval'' param then
        Inr (Some (show_int (sint (getSamplingIntervalMin p)) @ '' '' @ show_int (sint (getSamplingIntervalMax p)) @ newline))
      else if at_start ''maxFrames'' param then Inr (Some (show_int (sint (getMaxFramesToCapture p)) @ newline))
      else if at_start ''logPath'' param then and_then (getFilePath p) (\<lambda>s. Inr (Some (s @ newline)))
      else Inr None)"

text \<open>\<open>snprintf(buf, bufSize, ...)\<close> writes at most \<open>bufSize - 1\<close> characters.\<close>

definition reportStatus :: "profiler \<Rightarrow> string result" where
  "reportStatus p =
     and_then (getFilePath p) (\<lambda>logFilePath.
       let bufSize = length logFilePath + 10;
           text = (if is_running p then ''started'' else ''stopped'') @ '','' @ logFilePath @ newline
       in Inr (take (bufSize - 1) text))"

record connection =
  received :: "string option"
  jvm_env :: bool
  thread_ok :: bool
  worker_schedule :: "bool list"

text \<open>One connection: the reply, if any, and the profiler. \<open>None\<close> is a stop that still waits.\<close>

definition serve :: "system \<Rightarrow> connection \<Rightarrow> profiler \<Rightarrow> (string option \<times> profiler) result option" where
  "serve E k p =
     (case received k of
        None \<Rightarrow> Some (Inr (None, p))
      | Some bytes \<Rightarrow>
          let buf = takeWhile (\<lambda>c. c \<noteq> CHR 0x00) bytes in
          if at_start ''start'' buf then
            (if jvm_env k then Some (and_then (start_profiler E (thread_ok k) p) (\<lambda>(res, q). Inr (None, q)))
             else Some (Inr (None, p)))
          else if at_start ''stop'' buf then
            map_option (\<lambda>r. and_then r (\<lambda>q. Inr (None, q))) (stop_profiler E (worker_schedule k) p)
          else if at_start ''status'' buf then Some (and_then (reportStatus p) (\<lambda>s. Inr (Some s, p)))
          else if at_start ''get '' buf then Some (and_then (getProfilerParam (drop 4 buf) p) (\<lambda>s. Inr (s, p)))
          else if at_start ''set '' buf then Some (and_then (setProfilerParam E (drop 4 buf) p) (\<lambda>q. Inr (None, q)))
          else Some (Inr (None, p)))"

text \<open>
  \<open>run\<close>: what \<open>getaddrinfo\<close>, \<open>socket\<close>, \<open>bind\<close> and \<open>listen\<close> answer decides whether it serves. Its loop
  reads \<open>isRunning_\<close>, then waits for a connection; a turn is what it reads and, if it goes on, what it
  accepts (\<open>None\<close> when \<open>accept\<close> fails).
\<close>

record network =
  resolved :: bool
  opened :: bool
  bound :: bool
  listening :: bool

definition serves :: "network \<Rightarrow> bool" where
  "serves n \<longleftrightarrow> resolved n \<and> opened n \<and> bound n \<and> listening n"

fun serve_all :: "system \<Rightarrow> (bool \<times> connection option) list \<Rightarrow> profiler \<Rightarrow> (string option list \<times> profiler) result option" where
  "serve_all E [] p = Some (Inr ([], p))"
| "serve_all E ((go_on, k) # ks) p =
     (if \<not> go_on then Some (Inr ([], p))
      else case k of
        None \<Rightarrow> serve_all E ks p
      | Some c \<Rightarrow>
         (case serve E c p of
            None \<Rightarrow> None
          | Some (Inl e) \<Rightarrow> Some (Inl e)
          | Some (Inr (reply, q)) \<Rightarrow>
              map_option (\<lambda>r. and_then r (\<lambda>(replies, q1). Inr (reply # replies, q1))) (serve_all E ks q)))"

definition run_controller :: "system \<Rightarrow> network \<Rightarrow> (bool \<times> connection option) list \<Rightarrow> profiler \<Rightarrow>
    (string option list \<times> profiler) result option" where
  "run_controller E n ks p = (if serves n then serve_all E ks p else Some (Inr ([], p)))"

text \<open>
  \<open>start\<close> and \<open>stop\<close>, by the agent's threads. \<open>attached\<close> says whether the calling thread has a \<open>JNIEnv\<close>, \<open>agent_ok\<close>
  whether \<open>RunAgentThread\<close> succeeds; its failure is only logged.
\<close>

record controller =
  isRunning :: bool
  controllerRunnable :: bool

definition new_controller :: controller where
  "new_controller = \<lparr>isRunning = False, controllerRunnable = False\<rparr>"

definition start_controller :: "bool \<Rightarrow> bool \<Rightarrow> controller \<Rightarrow> controller" where
  "start_controller attached agent_ok c =
     (if attached then c\<lparr>isRunning := True, controllerRunnable := controllerRunnable c \<or> agent_ok\<rparr> else c)"

definition stop_controller :: "controller \<Rightarrow> controller" where
  "stop_controller c = c\<lparr>isRunning := False\<rparr>"

subsection \<open>Reading what was written\<close>

definition blank_end :: "string \<Rightarrow> bool" where
  "blank_end r \<longleftrightarrow> r = [] \<or> is_space (hd r)"

lemma blank_end_cases: "blank_end r \<Longrightarrow> r = [] \<or> (\<exists>c cs. r = c # cs \<and> is_space c)"
  by (cases r) (simp_all add: blank_end_def)

lemma dropWhile_blanks: "\<forall>c\<in>set b. is_space c \<Longrightarrow> dropWhile is_space (b @ r) = dropWhile is_space r"
  by (induction b) simp_all

lemma takeWhile_word:
  "\<forall>c\<in>set w. \<not> is_space c \<Longrightarrow> blank_end r \<Longrightarrow>
    takeWhile (\<lambda>c. \<not> is_space c) (w @ r) = w \<and> dropWhile (\<lambda>c. \<not> is_space c) (w @ r) = r"
  by (induction w) (auto dest: blank_end_cases)

definition good :: "string \<Rightarrow> istream" where
  "good r = \<lparr>rest = r, eofbit = (r = []), failbit = False\<rparr>"

lemma read_word_good:
  assumes "\<forall>c\<in>set b. is_space c" and "w \<noteq> []" and "\<forall>c\<in>set w. \<not> is_space c" and "blank_end r"
  shows "read_word (good (b @ w @ r)) = (w, good r)"
proof -
  have d: "dropWhile is_space (w @ r) = w @ r" using assms(2,3) by (cases w) simp_all
  show ?thesis
    using assms(2) takeWhile_word[OF assms(3,4)] by (simp add: read_word_def sentry_def good_def dropWhile_blanks[OF assms(1)] d Let_def
      del: dropWhile_eq_Nil_conv)
qed

lemma skip_blanks_word:
  assumes "w \<noteq> []" and "\<forall>c\<in>set w. \<not> is_space c"
  shows "skip_blanks (istream_of (w @ r)) = good (w @ r)"
  using assms by (cases w) (simp_all add: skip_blanks_def istream_of_def good_def Let_def)

lemma show_int_parts:
  "\<exists>neg ds. (\<forall>w. split_sign (show_int x @ w) = (neg, ds @ w)) \<and> (\<forall>c\<in>set ds. is_digit c) \<and> ds \<noteq> [] \<and> signed_value neg ds = x \<and>
    show_int x \<noteq> [] \<and> \<not> is_space (hd (show_int x))"
proof (cases "x < 0")
  case True
  have "\<not> is_space CHR ''-''" by (simp add: is_space_def)
  then show ?thesis using True show_nat_digits[of "nat (- x)"]
    by (intro exI[of _ True] exI[of _ "show_nat (nat (- x))"]) (simp add: show_int_def split_sign_def signed_value_def)
next
  case False
  obtain c cs where c: "show_nat (nat x) = c # cs" using show_nat_digits[of "nat x"] by (cases "show_nat (nat x)") auto
  then have "is_digit c" using show_nat_digits[of "nat x"] by auto
  then have "\<not> is_space c" "c \<noteq> CHR ''-''" "c \<noteq> CHR ''+''" using digit_not_sign by blast+
  then show ?thesis using False c show_nat_digits[of "nat x"]
    by (intro exI[of _ False] exI[of _ "show_nat (nat x)"]) (auto simp: show_int_def split_sign_def signed_value_def)
qed

lemma space_not_digit: "is_space c \<Longrightarrow> \<not> is_digit c"
  by (auto simp: is_space_def is_digit_def Let_def)

lemma read_int_good:
  assumes "\<forall>c\<in>set b. is_space c" and "blank_end r" and "- (2 ^ 31) \<le> x" and "x < 2 ^ 31"
  shows "read_int (good (b @ show_int x @ r)) = (Some (word_of_int x), good r)"
proof -
  obtain neg ds where p: "\<And>w. split_sign (show_int x @ w) = (neg, ds @ w)" "\<forall>c\<in>set ds. is_digit c" "ds \<noteq> []" "signed_value neg ds = x"
    "show_int x \<noteq> []" "\<not> is_space (hd (show_int x))"
    using show_int_parts[of x] by blast
  have d: "dropWhile is_space (show_int x @ r) = show_int x @ r" using p(5,6) by (cases "show_int x") simp_all
  have t: "takeWhile is_digit (ds @ r) = ds" "dropWhile is_digit (ds @ r) = r"
    using takeWhile_digits[OF p(2), of r] blank_end_cases[OF assms(2)] by (auto simp: space_not_digit)
  have "clamp 32 x = x" using assms(3,4) by (simp add: clamp_def)
  then show ?thesis
    using p(3-5) by (simp add: read_int_def sentry_def good_def dropWhile_blanks[OF assms(1)] d p(1) t Let_def)
qed

lemma read_int_end: "\<forall>c\<in>set b. is_space c \<Longrightarrow> fst (read_int (good b)) = None"
  using dropWhile_blanks[of b "[]"] by (auto simp: read_int_def sentry_def good_def Let_def)

lemma read_int_failed: "failbit i \<Longrightarrow> fst (read_int i) = None \<and> failbit (snd (read_int i))"
  by (simp add: read_int_def sentry_def)

text \<open>The words of the protocol.\<close>

definition word_like :: "string \<Rightarrow> bool" where
  "word_like w \<longleftrightarrow> w \<noteq> [] \<and> (\<forall>c\<in>set w. \<not> is_space c)"

lemma command_read:
  assumes "word_like w" and "blank_end r"
  shows "read_word (skip_blanks (istream_of (w @ r))) = (w, good r)"
  using read_word_good[of "[]" w r] skip_blanks_word[of w r] assms by (simp add: word_like_def)

lemma word_like_commands [simp]:
  "word_like ''logPath''" "word_like ''intervalMin''" "word_like ''intervalMax''" "word_like ''maxFrames''" "word_like ''interval''"
  by (simp_all add: word_like_def is_space_def)

subsection \<open>Every command is safe\<close>

lemma read_word_length: "length (fst (read_word i)) \<le> length (rest i)"
proof -
  have "length (takeWhile P (dropWhile Q xs)) \<le> length xs" for P Q and xs :: string
    by (metis length_dropWhile_le length_takeWhile_le order_trans)
  then show ?thesis by (auto simp: read_word_def sentry_def Let_def split: if_splits)
qed

lemma rest_length: "length (rest (snd (read_word i))) \<le> length (rest i)"
  "length (rest (skip_blanks i)) \<le> length (rest i)"
proof -
  have "length (dropWhile P (dropWhile Q xs)) \<le> length xs" for P Q and xs :: string
    by (metis length_dropWhile_le order_trans)
  then show "length (rest (snd (read_word i))) \<le> length (rest i)"
    by (auto simp: read_word_def sentry_def Let_def length_dropWhile_le split: if_splits)
  show "length (rest (skip_blanks i)) \<le> length (rest i)" by (simp add: skip_blanks_def Let_def length_dropWhile_le)
qed

lemma use_cases: "use x = Inl Uninitialised_Read \<and> x = None \<or> (\<exists>n. x = Some n \<and> use x = Inr n)"
  by (cases x) (simp_all add: use_def)

lemma setProfilerParam_safe:
  assumes "wf_profiler p" and "system_ok E" and "length s < 2 ^ 62"
  shows "setProfilerParam E s p = Inl Uninitialised_Read \<or> (\<exists>q. setProfilerParam E s p = Inr q \<and> wf_profiler q)"
proof -
  obtain w i1 where w: "read_word (skip_blanks (istream_of s)) = (w, i1)" by fastforce
  obtain n1 i2 where n1: "read_int i1 = (n1, i2)" by fastforce
  obtain n2 i3 where n2: "read_int i2 = (n2, i3)" by fastforce
  have "length (fst (read_word i1)) \<le> length s"
    using read_word_length[of i1] rest_length(1)[of "skip_blanks (istream_of s)"] rest_length(2)[of "istream_of s"] w
    by (simp add: istream_of_def)
  then have "length (fst (read_word i1)) < 2 ^ 62" using assms(3) by simp
  then obtain q where "setFilePath E (Some (fst (read_word i1))) p = Inr q" "wf_profiler q"
    using setFilePath_wf[OF assms(1) system_okD(1)[OF assms(2)], of "Some (fst (read_word i1))"] by auto
  then show ?thesis
    using setSamplingInterval_wf[OF assms(1)] setMaxFrames_wf[OF assms(1)] assms(1) use_cases[of n1] use_cases[of n2]
    by (auto simp: setProfilerParam_def w n1 n2)
qed

lemma getFilePath_ok:
  assumes "wf_profiler p"
  shows "\<exists>s. getFilePath p = Inr s \<and> (\<forall>a. logFilePath (liveConf p) = Some a \<longrightarrow> map_of (texts p) a = Some s)"
proof (cases "logFilePath (liveConf p)")
  case (Some a)
  then have "a \<in> dom (map_of (texts p))" using assms by (auto simp: wf_profiler_def wf_texts_def owned_def)
  then show ?thesis using Some by (auto simp: getFilePath_def)
qed (simp add: getFilePath_def)

lemma reportStatus_text:
  "getFilePath p = Inr s \<Longrightarrow>
    reportStatus p = Inr ((if is_running p then ''started'' else ''stopped'') @ '','' @ s @ newline)"
  by (simp add: reportStatus_def Let_def newline_def)

lemma getProfilerParam_ok:
  assumes "getFilePath p = Inr s"
  shows "\<exists>rep. getProfilerParam x p = Inr rep"
  using assms by (cases "getProfilerParam x p") (auto simp: getProfilerParam_def split: if_splits)

lemma serve_safe:
  assumes "wf_profiler p" and "system_ok E" and "\<forall>s. received k = Some s \<longrightarrow> length s < 2 ^ 62" and "serve E k p = Some r"
  shows "r = Inl Uninitialised_Read \<or> (\<exists>reply q. r = Inr (reply, q) \<and> wf_profiler q)"
proof (cases "received k")
  case None
  then show ?thesis using assms(1,4) by (auto simp: serve_def)
next
  case (Some bytes)
  let ?b = "takeWhile (\<lambda>c. c \<noteq> CHR 0x00) bytes"
  have len: "length (drop 4 ?b) < 2 ^ 62" using assms(3) Some length_takeWhile_le[of "\<lambda>c. c \<noteq> CHR 0x00" bytes] by simp
  obtain s where s: "getFilePath p = Inr s" using getFilePath_ok[OF assms(1)] by blast
  obtain rep where rep: "getProfilerParam (drop 4 ?b) p = Inr rep" using getProfilerParam_ok[OF s] by blast
  have st: "\<exists>res q. start_profiler E ok p = Inr (res, q) \<and> wf_profiler q" for ok
  proof (cases "is_running p")
    case True
    then show ?thesis using assms(1) by (auto simp: start_profiler_def)
  next
    case False
    then show ?thesis using start_wf[OF assms(2,1) False] by blast
  qed
  consider (start) "at_start ''start'' ?b" | (stop) "\<not> at_start ''start'' ?b" "at_start ''stop'' ?b"
    | (other) "\<not> at_start ''start'' ?b" "\<not> at_start ''stop'' ?b" by blast
  then show ?thesis
  proof cases
    case start
    then show ?thesis using st[of "thread_ok k"] assms(1,4) Some by (auto simp: serve_def Let_def split: if_splits)
  next
    case stop
    then obtain r1 where "stop_profiler E (worker_schedule k) p = Some r1" "r = and_then r1 (\<lambda>q. Inr (None, q))"
      using assms(4) Some by (auto simp: serve_def Let_def)
    then show ?thesis using stop_wf[OF assms(1), of E "worker_schedule k" r1] by auto
  next
    case other
    then show ?thesis
      using assms(1,4) Some rep reportStatus_text[OF s] setProfilerParam_safe[OF assms(1,2) len]
      by (auto simp: serve_def Let_def split: if_splits)
  qed
qed

lemma serve_all_safe:
  assumes "system_ok E" and "wf_profiler p" and "\<forall>x\<in>set ks. \<forall>k s. snd x = Some k \<longrightarrow> received k = Some s \<longrightarrow> length s < 100"
    and "serve_all E ks p = Some r"
  shows "r = Inl Uninitialised_Read \<or> (\<exists>replies q. r = Inr (replies, q) \<and> wf_profiler q)"
  using assms(2-4)
proof (induction ks arbitrary: p r)
  case (Cons x ks)
  obtain go_on k where x: "x = (go_on, k)" by fastforce
  show ?case
  proof (cases "go_on \<and> k \<noteq> None")
    case False
    then show ?thesis using Cons.IH[of p r] Cons.prems x by (cases go_on) auto
  next
    case True
    then obtain c where c: "k = Some c" by auto
    obtain r1 where r1: "serve E c p = Some r1" using Cons.prems(3) x c True by (cases "serve E c p") auto
    have "\<forall>s. received c = Some s \<longrightarrow> length s < 2 ^ 62"
    proof (intro allI impI)
      fix s assume "received c = Some s"
      then have "length s < 100" using Cons.prems(2) x c by simp
      then show "length s < 2 ^ 62" by (rule order.strict_trans) simp
    qed
    from serve_safe[OF Cons.prems(1) assms(1) this r1] show ?thesis
    proof (elim disjE exE conjE)
      fix reply q assume q: "r1 = Inr (reply, q)" "wf_profiler q"
      then obtain r2 where r2: "serve_all E ks q = Some r2" "r = and_then r2 (\<lambda>(replies, q1). Inr (reply # replies, q1))"
        using Cons.prems(3) x c r1 True by auto
      then show ?thesis using Cons.IH[OF q(2) _ r2(1)] Cons.prems(2) by auto
    qed (use Cons.prems(3) x c r1 True in auto)
  qed
qed auto

lemma CHR_not_nul: "is_digit c \<Longrightarrow> c \<noteq> CHR 0x00"
  by (auto simp: is_digit_def)

lemma no_nul_show_int: "CHR 0x00 \<notin> set (show_int x)"
  using show_nat_digits[of "nat x"] show_nat_digits[of "nat (- x)"] CHR_not_nul by (auto simp: show_int_def)

lemma takeWhile_no_nul: "CHR 0x00 \<notin> set s \<Longrightarrow> takeWhile (\<lambda>c. c \<noteq> CHR 0x00) s = s"
  by (induction s) auto

definition client :: "string \<Rightarrow> connection" where
  "client s = \<lparr>received = Some s, jvm_env = True, thread_ok = True, worker_schedule = []\<rparr>"

lemma serve_set: "CHR 0x00 \<notin> set s \<Longrightarrow> serve E (client (''set '' @ s)) p =
    Some (and_then (setProfilerParam E s p) (\<lambda>q. Inr (None, q)))"
  by (simp add: serve_def client_def at_start_def takeWhile_no_nul)

lemma serve_get: "CHR 0x00 \<notin> set s \<Longrightarrow> serve E (client (''get '' @ s)) p =
    Some (and_then (getProfilerParam s p) (\<lambda>x. Inr (x, p)))"
  by (simp add: serve_def client_def at_start_def takeWhile_no_nul)

lemma set_interval_effect:
  assumes "- (2 ^ 31) \<le> a" and "a < 2 ^ 31" and "- (2 ^ 31) \<le> b" and "b < 2 ^ 31" and "blank_end r"
  shows "setProfilerParam E (''interval '' @ show_int a @ '' '' @ show_int b @ r) p =
    Inr (setSamplingInterval (word_of_int a) (word_of_int b) p)"
proof -
  have sp: "\<forall>c\<in>set '' ''. is_space c" "blank_end ('' '' @ x)" for x by (simp_all add: is_space_def blank_end_def)
  have w: "read_word (skip_blanks (istream_of (''interval'' @ '' '' @ show_int a @ '' '' @ show_int b @ r))) =
      (''interval'', good ('' '' @ show_int a @ '' '' @ show_int b @ r))" by (rule command_read[OF word_like_commands(5) sp(2)])
  have "read_int (good ('' '' @ show_int a @ '' '' @ show_int b @ r)) = (Some (word_of_int a), good ('' '' @ show_int b @ r))"
    by (rule read_int_good[OF sp(1,2) assms(1,2)])
  moreover have "read_int (good ('' '' @ show_int b @ r)) = (Some (word_of_int b), good r)"
    by (rule read_int_good[OF sp(1) assms(5,3,4)])
  ultimately show ?thesis using w by (simp add: setProfilerParam_def use_def)
qed

lemma set_frames_effect:
  assumes "- (2 ^ 31) \<le> n" and "n < 2 ^ 31" and "blank_end r"
  shows "setProfilerParam E (''maxFrames '' @ show_int n @ r) p = Inr (setMaxFramesToCapture (word_of_int n) p)"
proof -
  have sp: "\<forall>c\<in>set '' ''. is_space c" "blank_end ('' '' @ x)" for x by (simp_all add: is_space_def blank_end_def)
  have w: "read_word (skip_blanks (istream_of (''maxFrames'' @ '' '' @ show_int n @ r))) =
      (''maxFrames'', good ('' '' @ show_int n @ r))" by (rule command_read[OF word_like_commands(4) sp(2)])
  have "read_int (good ('' '' @ show_int n @ r)) = (Some (word_of_int n), good r)"
    by (rule read_int_good[OF sp(1) assms(3,1,2)])
  then show ?thesis using w by (simp add: setProfilerParam_def use_def)
qed

lemma set_path_effect:
  assumes "word_like w" and "blank_end r"
  shows "setProfilerParam E (''logPath '' @ w @ r) p = setFilePath E (Some w) p"
proof -
  have sp: "\<forall>c\<in>set '' ''. is_space c" "blank_end ('' '' @ x)" for x by (simp_all add: is_space_def blank_end_def)
  have "read_word (skip_blanks (istream_of (''logPath'' @ '' '' @ w @ r))) = (''logPath'', good ('' '' @ w @ r))"
    by (rule command_read[OF word_like_commands(1) sp(2)])
  moreover have "read_word (good ('' '' @ w @ r)) = (w, good r)"
    using assms by (intro read_word_good[OF sp(1)]) (simp_all add: word_like_def)
  ultimately show ?thesis by (simp add: setProfilerParam_def)
qed

subsection \<open>Properties\<close>

text \<open>
  No text a client sends can break the profiler. Whatever the connections carry, a controller that gets through them leaves a
  well-formed profiler, unless a \<open>set\<close> command lacks a number it needs (then a variable without a value is read).
\<close>

theorem controller_keeps_profiler:
  assumes "wf_profiler p" and "system_ok E" and "\<forall>x\<in>set ks. \<forall>k s. snd x = Some k \<longrightarrow> received k = Some s \<longrightarrow> length s < 100"
    and "run_controller E n ks p = Some r"
  shows "r = Inl Uninitialised_Read \<or> (\<exists>replies q. r = Inr (replies, q) \<and> wf_profiler q)"
  using serve_all_safe[OF assms(2,1,3), of r] assms(1,4) by (auto simp: run_controller_def split: if_splits)

theorem controller_keeps_profiler_witness:
  "\<exists>p replies q. new_profiler example_system (new_configuration, []) = Inr p \<and>
     run_controller example_system \<lparr>resolved = True, opened = True, bound = True, listening = True\<rparr>
       [(True, Some (client ''status'')), (True, Some (client ''frobnicate'')), (False, None)] p = Some (Inr (replies, q)) \<and> wf_profiler q"
proof -
  obtain p where p: "new_profiler example_system (new_configuration, []) = Inr p" "wf_profiler p"
    using new_profiler_wf[OF example_system_ok wf_new_options] by blast
  obtain s where s: "getFilePath p = Inr s" using getFilePath_ok[OF p(2)] by blast
  let ?n = "\<lparr>resolved = True, opened = True, bound = True, listening = True\<rparr>"
    and ?ks = "[(True, Some (client ''status'')), (True, Some (client ''frobnicate'')), (False, None)]"
  have run: "\<exists>x. run_controller example_system ?n ?ks p = Some (Inr x)"
    using reportStatus_text[OF s] by (simp add: run_controller_def serves_def serve_def client_def at_start_def)
  then obtain r where r: "run_controller example_system ?n ?ks p = Some r" "r \<noteq> Inl Uninitialised_Read" by auto
  have "r = Inl Uninitialised_Read \<or> (\<exists>replies q. r = Inr (replies, q) \<and> wf_profiler q)"
    by (rule controller_keeps_profiler[OF p(2) example_system_ok _ r(1)]) (auto simp: client_def)
  then show ?thesis using p(1) r by blast
qed



text \<open>
  The status report always fits its buffer: the client gets the state, a comma, the whole path of the log and the line end,
  whatever the length of the path and the state.
\<close>

theorem status_is_complete:
  assumes "wf_profiler p"
  shows "\<exists>s. getFilePath p = Inr s \<and>
    reportStatus p = Inr ((if is_running p then ''started'' else ''stopped'') @ '','' @ s @ newline)"
  using getFilePath_ok[OF assms] reportStatus_text by blast

theorem status_is_complete_witness:
  "\<exists>p s. new_profiler example_system (new_configuration, []) = Inr p \<and> getFilePath p = Inr s \<and>
     reportStatus p = Inr (''stopped,'' @ s @ newline)"
proof -
  obtain p where p: "new_profiler example_system (new_configuration, []) = Inr p" "wf_profiler p" "\<not> is_running p"
    using new_profiler_wf[OF example_system_ok wf_new_options] by blast
  show ?thesis using status_is_complete[OF p(2)] p(1,3) by auto
qed

text \<open>
  A number that is missing is not noticed: \<open>set intervalMin\<close>, \<open>intervalMax\<close>, \<open>maxFrames\<close> and \<open>interval\<close> without a number, and
  \<open>interval\<close> with a first argument that is no number, use a variable that was never
  assigned, in every state of the profiler.
\<close>

theorem missing_number_is_uninitialised:
  assumes "\<forall>c\<in>set b. is_space c" and "w \<noteq> []" and "\<not> is_space (hd w)" and "\<not> is_digit (hd w)" and "hd w \<notin> {CHR ''-'', CHR ''+''}"
  shows "(\<forall>cmd\<in>{''intervalMin'', ''intervalMax'', ''maxFrames'', ''interval''}.
      setProfilerParam E (cmd @ b) p = Inl Uninitialised_Read) \<and>
    setProfilerParam E (''interval '' @ w) p = Inl Uninitialised_Read"
proof (intro conjI ballI)
  have be: "blank_end b" using assms(1) by (cases b) (simp_all add: blank_end_def)
  have none: "fst (read_int (good b)) = None" by (rule read_int_end[OF assms(1)])
  fix cmd assume c: "cmd \<in> {''intervalMin'', ''intervalMax'', ''maxFrames'', ''interval''}"
  then have "word_like cmd" by auto
  from command_read[OF this be] show "setProfilerParam E (cmd @ b) p = Inl Uninitialised_Read"
    using c none by (auto simp: setProfilerParam_def use_def split: prod.splits)
next
  obtain d ds where w: "w = d # ds" "\<not> is_space d" "\<not> is_digit d" "d \<noteq> CHR ''-''" "d \<noteq> CHR ''+''"
    using assms(2-5) by (cases w) auto
  have "blank_end ('' '' @ w)" by (simp add: blank_end_def is_space_def)
  from command_read[OF word_like_commands(5) this]
  have "read_word (skip_blanks (istream_of (''interval '' @ w))) = (''interval'', good ('' '' @ w))" by simp
  moreover obtain i where i: "read_int (good ('' '' @ w)) = (Some 0, i)" "failbit i"
    using w by (auto simp: read_int_def sentry_def good_def is_space_def split_sign_def Let_def)
  ultimately show "setProfilerParam E (''interval '' @ w) p = Inl Uninitialised_Read"
    using read_int_failed[OF i(2)] by (auto simp: setProfilerParam_def use_def split: prod.splits)
qed

theorem missing_number_is_uninitialised_witness:
  "\<forall>p. setProfilerParam example_system ''maxFrames '' p = Inl Uninitialised_Read \<and>
     setProfilerParam example_system ''interval max'' p = Inl Uninitialised_Read"
  using missing_number_is_uninitialised[of "'' ''" "''max''"] by (simp add: is_space_def is_digit_def)

end
