(* ===== verification/Agent.thy ===== *)
theory Agent
  imports Controller Sampler
begin

text \<open>
  The agent (\<^verbatim>\<open>agent.cpp\<close>) and the entry points for Java callers (\<^verbatim>\<open>control.cpp\<close>): loading and unloading the
  library, the events the JVM delivers, and what they do to the profiler, the controller and the thread map. Here all
  components meet.

  The JVM decides which of its calls succeed, which events it delivers and in which order; the agent's functions
  are total on all of them. A thread is named by its \<open>JNIEnv\<close>.
\<close>

type_synonym threads = "(map_state, hash_table) thread_map"

subsection \<open>Loading\<close>

datatype jvmti_event =
    CLASS_LOAD | CLASS_PREPARE | VM_DEATH | VM_INIT | COMPILED_METHOD_LOAD
  | THREAD_START | THREAD_END | NATIVE_METHOD_BIND

datatype capability =
    can_generate_all_class_hook_events | can_get_source_file_name | can_get_line_numbers | can_get_bytecodes
  | can_get_constant_pool | can_generate_compiled_method_load_events | can_generate_native_method_bind_events

text \<open>
  The JVM that loads the agent: whether \<open>GETENV_NEW_THREAD_ASYNC_UNSAFE\<close> is defined (OS X, FreeBSD), whether \<open>GetEnv\<close> succeeds,
  the size of the capability structure and the bit of each capability, the answer of
  \<open>GetPotentialCapabilities\<close>, and whether \<open>AddCapabilities\<close>, \<open>SetEventCallbacks\<close> and \<open>SetEventNotificationMode\<close> succeed.
\<close>

record jvm =
  async_unsafe :: bool
  jvmti_env :: bool
  caps_size :: nat
  bit_of :: "capability \<Rightarrow> nat"
  potential :: "byte list option"
  AddCapabilities :: bool
  SetEventCallbacks :: bool
  enable_event :: "jvmti_event \<Rightarrow> bool"

definition wanted_capabilities :: "bool \<Rightarrow> capability list" where
  "wanted_capabilities unsafe =
     [can_generate_all_class_hook_events, can_get_source_file_name, can_get_line_numbers, can_get_bytecodes,
      can_get_constant_pool, can_generate_compiled_method_load_events] @
     (if unsafe then [can_generate_native_method_bind_events] else [])"

definition set_capability :: "jvm \<Rightarrow> capability \<Rightarrow> byte list \<Rightarrow> byte list" where
  "set_capability J c bs = (let i = bit_of J c div 8 in bs[i := (bs ! i) OR push_bit (bit_of J c mod 8) 1])"

text \<open>The check goes over the bytes of the two structures, not over their bits.\<close>

definition lacks_byte :: "byte list \<Rightarrow> byte list \<Rightarrow> bool" where
  "lacks_byte has should_have \<longleftrightarrow> list_ex (\<lambda>(s, h). s \<noteq> 0 \<and> h = 0) (zip should_have has)"

definition PrepareJvmti :: "jvm \<Rightarrow> bool" where
  "PrepareJvmti J =
     (let caps = fold (set_capability J) (wanted_capabilities (async_unsafe J)) (replicate (caps_size J) 0) in
      case potential J of
        None \<Rightarrow> True
      | Some all_caps \<Rightarrow> \<not> lacks_byte all_caps caps \<and> AddCapabilities J)"

definition agent_events :: "bool \<Rightarrow> jvmti_event list" where
  "agent_events unsafe = [CLASS_LOAD, CLASS_PREPARE, VM_DEATH, VM_INIT, COMPILED_METHOD_LOAD] @
     (if unsafe then [THREAD_START, THREAD_END, NATIVE_METHOD_BIND] else [])"

text \<open>The events are enabled one by one; the first failure ends the loop.\<close>

fun enable_events :: "(jvmti_event \<Rightarrow> bool) \<Rightarrow> jvmti_event list \<Rightarrow> bool \<times> jvmti_event list" where
  "enable_events ok [] = (True, [])"
| "enable_events ok (e # es) =
     (if \<not> ok e then (False, []) else case enable_events ok es of (res, on) \<Rightarrow> (res, e # on))"

definition RegisterJvmti :: "jvm \<Rightarrow> bool \<times> jvmti_event list" where
  "RegisterJvmti J =
     (if \<not> SetEventCallbacks J then (False, []) else enable_events (enable_event J) (agent_events (async_unsafe J)))"

text \<open>
  The static variables of the agent and what it has changed in the JVM: the events enabled, \<open>Thread.start0\<close>, which threads
  have \<open>SIGPROF\<close> blocked. The options are an object of the profiler too, whose live configuration
  they are; once it is built \<open>options\<close> is stale and \<open>CONFIGURATION\<close> reads them there. \<open>orphan\<close> says that the controller's thread
  outlives the controller.
\<close>

record agent =
  options :: "(configuration \<times> char_heap) option"
  prof :: "profiler option"
  controller_at :: "controller option"
  threadMap :: threads
  main_started :: bool
  enabled :: "jvmti_event list"
  actual_JVM_StartThread :: "addr option"
  blocked :: "u64 set"
  orphan :: bool

definition CONFIGURATION :: "agent \<Rightarrow> (configuration \<times> char_heap) option" where
  "CONFIGURATION a = (case prof a of None \<Rightarrow> options a | Some p \<Rightarrow> Some (liveConf p, texts p))"

text \<open>The library as it is mapped.\<close>

definition fresh_agent :: agent where
  "fresh_agent = \<lparr>options = None, prof = None, controller_at = None, threadMap = new_thread_map, main_started = False,
     enabled = [], actual_JVM_StartThread = None, blocked = {}, orphan = False\<rparr>"

definition Agent_OnLoad :: "system \<Rightarrow> jvm \<Rightarrow> string option \<Rightarrow> agent \<Rightarrow> (int \<times> agent) result" where
  "Agent_OnLoad E J opts a =
     and_then (parseArguments (alloc E) opts (new_configuration, [])) (\<lambda>ch.
       let a1 = a\<lparr>options := Some ch\<rparr> in
       if \<not> jvmti_env J then Inr (1, a1)
       else if \<not> PrepareJvmti J then Inr (0, a1)
       else case RegisterJvmti J of (ok, es) \<Rightarrow>
         let a2 = a1\<lparr>enabled := es\<rparr> in
         if \<not> ok then Inr (1, a2)
         else and_then (new_profiler E ch) (\<lambda>p. Inr (0, a2\<lparr>prof := Some p, controller_at := Some new_controller\<rparr>)))"

text \<open>
  \<open>Agent_OnUnload\<close>, down to the strings that are left. Nothing waits for the controller's thread. The
  static pointers are dangling afterwards; here they are null.
\<close>

definition Agent_OnUnload :: "agent \<Rightarrow> (agent \<times> char_heap) result" where
  "Agent_OnUnload a =
     (case controller_at a of
        None \<Rightarrow> Inl Null_Deref
      | Some c \<Rightarrow>
          let c1 = (if isRunning c then stop_controller c else c) in
          and_then (case prof a of
              Some p \<Rightarrow> delete_profiler p
            | None \<Rightarrow> Inr (case options a of None \<Rightarrow> [] | Some ch \<Rightarrow> snd ch)) (\<lambda>h1.
          and_then (case CONFIGURATION a of None \<Rightarrow> Inr h1 | Some ch \<Rightarrow> delete_configuration (fst ch) h1) (\<lambda>h2.
            Inr (a\<lparr>options := None, prof := None, controller_at := None, orphan := controllerRunnable c1\<rparr>, h2))))"

subsection \<open>Callbacks\<close>

text \<open>
  \<open>OnVMInit\<close>: whether \<open>GetLoadedClasses\<close> succeeds, whether the thread is attached and whether the
  controller's thread can be started. The loop over the classes calls the JVM only, as do \<open>OnClassPrepare\<close> and
  \<open>OnClassLoad\<close>, which change nothing here.
\<close>

definition OnVMInit :: "bool \<Rightarrow> bool \<Rightarrow> bool \<Rightarrow> bool \<Rightarrow> agent \<Rightarrow> agent result" where
  "OnVMInit unsafe loaded attached agent_ok a =
     (if \<not> loaded then Inr a
      else if unsafe then Inr a
      else case CONFIGURATION a of
        None \<Rightarrow> Inl Null_Deref
      | Some ch \<Rightarrow>
          if host (fst ch) \<noteq> None \<and> port (fst ch) \<noteq> None then
            (case controller_at a of
               None \<Rightarrow> Inl Null_Deref
             | Some c \<Rightarrow> Inr (a\<lparr>controller_at := Some (start_controller attached agent_ok c)\<rparr>))
          else Inr a)"

definition OnVMDeath :: "system \<Rightarrow> bool list \<Rightarrow> agent \<Rightarrow> agent result option" where
  "OnVMDeath E sch a =
     (case prof a of
        None \<Rightarrow> Some (Inl Null_Deref)
      | Some p \<Rightarrow>
          if is_running p then map_option (\<lambda>r. and_then r (\<lambda>q. Inr (a\<lparr>prof := Some q\<rparr>))) (stop_profiler E sch p)
          else Some (Inr a))"

text \<open>\<open>main_name\<close> is \<open>"main"\<close>. A thread is started with what \<open>GetThreadInfo\<close> and \<open>gettid\<close> answer and the address of its bucket.\<close>

definition main_name :: "byte list" where
  "main_name = [109, 97, 105, 110]"

definition start_at_main :: "system \<Rightarrow> bool \<Rightarrow> byte list \<Rightarrow> agent \<Rightarrow> agent result" where
  "start_at_main E agent_ok n a =
     (if \<not> main_started a \<and> n = main_name then
        let a1 = a\<lparr>main_started := True\<rparr> in
        case CONFIGURATION a of
          None \<Rightarrow> Inl Null_Deref
        | Some ch \<Rightarrow>
            if start (fst ch) then
              (case prof a of
                 None \<Rightarrow> Inl Null_Deref
               | Some p \<Rightarrow> and_then (start_profiler E agent_ok p) (\<lambda>(res, q). Inr (a1\<lparr>prof := Some q\<rparr>)))
            else Inr a1
      else Inr a)"

definition OnThreadStart :: "system \<Rightarrow> bool \<Rightarrow> u64 \<Rightarrow> byte list option \<Rightarrow> jint \<Rightarrow> addr \<Rightarrow> agent \<Rightarrow> agent result option" where
  "OnThreadStart E agent_ok k who i b a =
     (case who of
        None \<Rightarrow> Some (Inr (a\<lparr>blocked := blocked a - {k}\<rparr>))
      | Some n \<Rightarrow>
          (case start_at_main E agent_ok n a of
             Inl e \<Rightarrow> Some (Inl e)
           | Inr a1 \<Rightarrow>
               map_option (\<lambda>r. and_then r (\<lambda>tm. Inr (a1\<lparr>threadMap := tm, blocked := blocked a1 - {k}\<rparr>)))
                 (thread_put b k n i (threadMap a1))))"

definition OnThreadEnd :: "u64 \<Rightarrow> agent \<Rightarrow> agent result option" where
  "OnThreadEnd k a =
     (let a1 = a\<lparr>blocked := insert k (blocked a)\<rparr> in
      map_option (\<lambda>r. and_then r (\<lambda>tm. Inr (a1\<lparr>threadMap := tm\<rparr>))) (thread_remove k (threadMap a1)))"

text \<open>
  \<open>OnNativeMethodBind\<close>: name and signature of the method, the simple name of its class, its address. The first
  \<open>Thread.start0\<close> is replaced by the interposer.
\<close>

definition OnNativeMethodBind :: "(string \<times> string) option \<Rightarrow> string option \<Rightarrow> addr \<Rightarrow> agent \<Rightarrow> agent" where
  "OnNativeMethodBind method className address a =
     (if actual_JVM_StartThread a \<noteq> None then a
      else case method of
        None \<Rightarrow> a
      | Some (name_ptr, signature_ptr) \<Rightarrow>
          if name_ptr = ''start0'' \<and> signature_ptr = ''()V'' then
            (case className of
               None \<Rightarrow> a
             | Some c \<Rightarrow> if c = ''Thread'' then a\<lparr>actual_JVM_StartThread := Some address\<rparr> else a)
          else a)"

text \<open>A new thread inherits the signal mask of the thread that creates it.\<close>

definition actual_start :: "u64 \<Rightarrow> u64 \<Rightarrow> u64 set \<Rightarrow> u64 set" where
  "actual_start parent child m = (if parent \<in> m then insert child m else m - {child})"

definition JVM_StartThread_Interposer :: "u64 \<Rightarrow> u64 \<Rightarrow> agent \<Rightarrow> agent" where
  "JVM_StartThread_Interposer parent child a =
     a\<lparr>blocked := actual_start parent child (insert parent (blocked a)) - {parent}\<rparr>"

definition start0 :: "u64 \<Rightarrow> u64 \<Rightarrow> agent \<Rightarrow> agent" where
  "start0 parent child a =
     (if actual_JVM_StartThread a = None then a\<lparr>blocked := actual_start parent child (blocked a)\<rparr>
      else JVM_StartThread_Interposer parent child a)"

text \<open>\<open>bootstrapHandle\<close>: the signal arrives in thread \<open>k\<close> when it does not block it and the handler is installed.\<close>

definition bootstrapHandle :: "signal_context \<Rightarrow> agent \<Rightarrow> agent result option" where
  "bootstrapHandle S a =
     (case prof a of
        None \<Rightarrow> Some (Inl Null_Deref)
      | Some p \<Rightarrow> map_option (\<lambda>r. and_then r (\<lambda>(q, tm). Inr (a\<lparr>prof := Some q, threadMap := tm\<rparr>))) (handle S (p, threadMap a)))"

definition deliver_signal :: "u64 \<Rightarrow> signal_context \<Rightarrow> agent \<Rightarrow> agent result option" where
  "deliver_signal k S a =
     (if k \<in> blocked a \<or> (case prof a of None \<Rightarrow> True | Some p \<Rightarrow> sigprof p \<noteq> Sig_Profiler) then Some (Inr a)
      else bootstrapHandle S a)"

subsection \<open>Java callers\<close>

text \<open>The functions of \<^verbatim>\<open>control.cpp\<close> that change the profiler, and those that read it.\<close>

datatype java_request =
    Agent_start bool
  | Agent_stop "bool list"
  | Agent_setFilePath "string option"
  | Agent_setSamplingInterval jint jint
  | Agent_setMaxFramesToCapture jint

definition getProfiler :: "agent \<Rightarrow> profiler result" where
  "getProfiler a = (case prof a of None \<Rightarrow> Inl Null_Deref | Some p \<Rightarrow> Inr p)"

definition setProfiler :: "profiler option \<Rightarrow> agent \<Rightarrow> agent" where
  "setProfiler p a = a\<lparr>prof := p\<rparr>"

fun java_update :: "system \<Rightarrow> java_request \<Rightarrow> profiler \<Rightarrow> profiler result option" where
  "java_update E (Agent_start agent_ok) p = Some (and_then (start_profiler E agent_ok p) (\<lambda>(res, q). Inr q))"
| "java_update E (Agent_stop sch) p = stop_profiler E sch p"
| "java_update E (Agent_setFilePath path) p = Some (setFilePath E path p)"
| "java_update E (Agent_setSamplingInterval lo hi) p = Some (Inr (setSamplingInterval lo hi p))"
| "java_update E (Agent_setMaxFramesToCapture n) p = Some (Inr (setMaxFramesToCapture n p))"

definition java_call :: "system \<Rightarrow> java_request \<Rightarrow> agent \<Rightarrow> agent result option" where
  "java_call E x a =
     (case getProfiler a of
        Inl e \<Rightarrow> Some (Inl e)
      | Inr p \<Rightarrow> map_option (\<lambda>r. and_then r (\<lambda>q. Inr (a\<lparr>prof := Some q\<rparr>))) (java_update E x p))"

definition Agent_isRunning :: "agent \<Rightarrow> bool result" where
  "Agent_isRunning a = and_then (getProfiler a) (\<lambda>p. Inr (is_running p))"

definition Agent_getSamplingIntervalMin :: "agent \<Rightarrow> jint result" where
  "Agent_getSamplingIntervalMin a = and_then (getProfiler a) (\<lambda>p. Inr (getSamplingIntervalMin p))"

definition Agent_getSamplingIntervalMax :: "agent \<Rightarrow> jint result" where
  "Agent_getSamplingIntervalMax a = and_then (getProfiler a) (\<lambda>p. Inr (getSamplingIntervalMax p))"

definition Agent_getMaxFramesToCapture :: "agent \<Rightarrow> jint result" where
  "Agent_getMaxFramesToCapture a = and_then (getProfiler a) (\<lambda>p. Inr (getMaxFramesToCapture p))"

definition Agent_getFilePath :: "agent \<Rightarrow> string result" where
  "Agent_getFilePath a = and_then (getProfiler a) getFilePath"

subsection \<open>The controller's thread\<close>

text \<open>A connection reaches the agent only while the controller's thread is there; the thread does not end with its controller.\<close>

definition client_connects :: "system \<Rightarrow> connection \<Rightarrow> agent \<Rightarrow> agent result option" where
  "client_connects E k a =
     (case controller_at a of
        None \<Rightarrow> if orphan a then Some (Inl Use_After_Free) else Some (Inr a)
      | Some c \<Rightarrow>
          if \<not> controllerRunnable c then Some (Inr a)
          else case prof a of
            None \<Rightarrow> Some (Inl Null_Deref)
          | Some p \<Rightarrow> map_option (\<lambda>r. and_then r (\<lambda>(reply, q). Inr (a\<lparr>prof := Some q\<rparr>))) (serve E k p))"

subsection \<open>Everything that happens to a loaded agent\<close>

datatype happening =
    Class_Event
  | VM_Init bool bool bool
  | VM_Death "bool list"
  | Thread_Start bool u64 "byte list option" jint addr
  | Thread_End u64
  | Method_Bind "(string \<times> string) option" "string option" addr
  | New_Thread u64 u64
  | Signal u64 signal_context
  | Java java_request
  | Connects connection

text \<open>The JVM delivers the events that are enabled.\<close>

fun happen :: "system \<Rightarrow> bool \<Rightarrow> happening \<Rightarrow> agent \<Rightarrow> agent result option" where
  "happen E unsafe Class_Event a = Some (Inr a)"
| "happen E unsafe (VM_Init loaded attached agent_ok) a =
     (if VM_INIT \<in> set (enabled a) then Some (OnVMInit unsafe loaded attached agent_ok a) else Some (Inr a))"
| "happen E unsafe (VM_Death sch) a = (if VM_DEATH \<in> set (enabled a) then OnVMDeath E sch a else Some (Inr a))"
| "happen E unsafe (Thread_Start agent_ok k who i b) a =
     (if THREAD_START \<in> set (enabled a) then OnThreadStart E agent_ok k who i b a else Some (Inr a))"
| "happen E unsafe (Thread_End k) a = (if THREAD_END \<in> set (enabled a) then OnThreadEnd k a else Some (Inr a))"
| "happen E unsafe (Method_Bind method className address) a =
     (if NATIVE_METHOD_BIND \<in> set (enabled a) then Some (Inr (OnNativeMethodBind method className address a))
      else Some (Inr a))"
| "happen E unsafe (New_Thread parent child) a = Some (Inr (start0 parent child a))"
| "happen E unsafe (Signal k S) a = deliver_signal k S a"
| "happen E unsafe (Java x) a = java_call E x a"
| "happen E unsafe (Connects k) a = client_connects E k a"

text \<open>The states along a history, up to its end, its first fault or its first wait.\<close>

fun history :: "system \<Rightarrow> bool \<Rightarrow> happening list \<Rightarrow> agent \<Rightarrow> agent result option" where
  "history E unsafe [] a = Some (Inr a)"
| "history E unsafe (x # xs) a =
     (case happen E unsafe x a of
        None \<Rightarrow> None
      | Some (Inl e) \<Rightarrow> Some (Inl e)
      | Some (Inr b) \<Rightarrow> history E unsafe xs b)"

text \<open>What is assumed of the world at each step; nothing of the agent but its state.\<close>

fun java_ok :: "java_request \<Rightarrow> bool" where
  "java_ok (Agent_setFilePath path) = (\<forall>s. path = Some s \<longrightarrow> length s < 2 ^ 62)"
| "java_ok _ = True"

fun world_ok :: "happening \<Rightarrow> agent \<Rightarrow> bool" where
  "world_ok (Thread_Start agent_ok k who i b) a =
     (who \<noteq> None \<longrightarrow> admits_key env_hash (tmap (threadMap a)) k \<and> pointer b \<and> buckets (threadMap a) b = None)"
| "world_ok (Signal k S) a = agct_spec (asgct S)"
| "world_ok (Java x) a = java_ok x"
| "world_ok (Connects k) a = (\<forall>s. received k = Some s \<longrightarrow> length s < 100)"
| "world_ok _ a = True"

text \<open>A condition on each step of a history.\<close>

fun along :: "(happening \<Rightarrow> agent \<Rightarrow> bool) \<Rightarrow> system \<Rightarrow> bool \<Rightarrow> happening list \<Rightarrow> agent \<Rightarrow> bool" where
  "along P E unsafe [] a = True"
| "along P E unsafe (x # xs) a = (P x a \<and>
     (case happen E unsafe x a of Some (Inr b) \<Rightarrow> along P E unsafe xs b | _ \<Rightarrow> True))"

subsection \<open>No history makes the agent fault\<close>

definition agent_wf :: "agent \<Rightarrow> bool" where
  "agent_wf a \<longleftrightarrow> (\<exists>p c held. prof a = Some p \<and> wf_profiler p \<and> controller_at a = Some c \<and> thread_map_ok held (threadMap a))"

lemma agent_wfE:
  assumes "agent_wf a"
  obtains p c held where "prof a = Some p" and "wf_profiler p" and "controller_at a = Some c" and "thread_map_ok held (threadMap a)"
  using assms by (auto simp: agent_wf_def)

lemma agent_wfI: "prof a = Some p \<Longrightarrow> wf_profiler p \<Longrightarrow> controller_at a = Some c \<Longrightarrow> thread_map_ok held (threadMap a) \<Longrightarrow> agent_wf a"
  by (auto simp: agent_wf_def)

lemma agent_wf_prof: "agent_wf a \<Longrightarrow> wf_profiler q \<Longrightarrow> agent_wf (a\<lparr>prof := Some q\<rparr>)"
  by (auto simp: agent_wf_def)

lemma agent_wf_irrelevant [simp]:
  "agent_wf (a\<lparr>blocked := m\<rparr>) = agent_wf a" "agent_wf (a\<lparr>main_started := s\<rparr>) = agent_wf a"
  "agent_wf (a\<lparr>actual_JVM_StartThread := x\<rparr>) = agent_wf a"
  by (auto simp: agent_wf_def)

lemma start_safe:
  assumes "system_ok E" and "wf_profiler p"
  shows "\<exists>res q. start_profiler E agent_ok p = Inr (res, q) \<and> wf_profiler q"
proof (cases "is_running p")
  case True
  then show ?thesis using assms(2) by (auto simp: start_profiler_def)
next
  case False
  then show ?thesis using start_wf[OF assms False] by blast
qed

text \<open>A signal, whatever references to buckets are held elsewhere.\<close>

lemma handle_safe:
  assumes "wf_profiler p" and "thread_map_ok held tm" and "agct_spec (asgct S)"
  shows "\<exists>q tm' b b'. handle S (p, tm) = Some (Inr (q, tm')) \<and> wf_profiler q \<and> tmap tm' = tmap tm \<and>
    thread_map_ok (one_more (bucket_taken S tm) held) tm' \<and> buffer_at p = Some b \<and> buffer_at q = Some b' \<and>
    (used (b_queue b) < Size \<longrightarrow> contents (b_queue b') = contents (b_queue b) @
      [sample_of (trace_taken S (maxFramesToCapture (conf p))) (bucket_taken S tm)]) \<and> is_running q = is_running p"
proof -
  obtain b where b: "buffer_at p = Some b" "wf_queue (b_queue b)" "int (maxFrames (b_queue b)) = sint (maxFramesToCapture (conf p))"
    using assms(1) by (auto simp: wf_profiler_def wf_objects_def)
  let ?t = "trace_taken S (maxFramesToCapture (conf p))" and ?x = "bucket_taken S tm"
  have fit: "fits (b_queue b) ?t" using trace_taken_fits[OF assms(3) _ b(3)] b(3) by (metis of_nat_0_le_iff)
  then obtain res q where q: "push ?t ?x (b_queue b) = Inr (res, q)" "wf_queue q" "maxFrames q = maxFrames (b_queue b)"
    using push_wf[OF b(2)] by blast
  obtain tm' where tm': "thread_info S tm = Some (Inr (?x, tm'))" "tmap tm' = tmap tm" "thread_map_ok (one_more ?x held) tm'"
    using thread_info_ok[OF assms(2)] by blast
  have "contents q = contents (b_queue b) @ [sample_of ?t ?x]" if "used (b_queue b) < Size"
    using that push_room[OF wf_queueD(1)[OF b(2)] that fit, of ?x] q(1) contents_stored[OF wf_queueD(1)[OF b(2)] that fit] by simp
  moreover have "handle S (p, tm) = Some (Inr (p\<lparr>buffer_at := Some (b\<lparr>b_queue := q\<rparr>)\<rparr>, tm'))"
    using tm'(1) b(1) q(1) by (simp add: handle_def)
  moreover have "wf_profiler (p\<lparr>buffer_at := Some (b\<lparr>b_queue := q\<rparr>)\<rparr>)"
    using assms(1) b q by (auto simp: wf_profiler_def wf_texts_def wf_objects_def)
  ultimately show ?thesis using tm'(2,3) b(1) by (auto simp: is_running_def)
qed

lemma start_at_main_safe:
  assumes "system_ok E" and "agent_wf a"
  shows "\<exists>b. start_at_main E agent_ok n a = Inr b \<and> agent_wf b \<and> threadMap b = threadMap a \<and> blocked b = blocked a \<and>
    actual_JVM_StartThread b = actual_JVM_StartThread a \<and> enabled b = enabled a"
proof -
  from assms(2) obtain p where p: "prof a = Some p" "wf_profiler p" by (rule agent_wfE)
  obtain res q where q: "start_profiler E agent_ok p = Inr (res, q)" "wf_profiler q" using start_safe[OF assms(1) p(2)] by blast
  have "agent_wf (a\<lparr>prof := Some q\<rparr>)" by (rule agent_wf_prof[OF assms(2) q(2)])
  then have "agent_wf (a\<lparr>main_started := True, prof := Some q\<rparr>)" by (auto simp: agent_wf_def)
  then show ?thesis using assms(2) p(1) q(1) by (simp add: start_at_main_def CONFIGURATION_def Let_def)
qed

lemma thread_start_safe:
  assumes "system_ok E" and "agent_wf a" and "world_ok (Thread_Start agent_ok k who i b) a"
  shows "\<exists>a'. OnThreadStart E agent_ok k who i b a = Some (Inr a') \<and> agent_wf a' \<and> blocked a' = blocked a - {k} \<and>
    actual_JVM_StartThread a' = actual_JVM_StartThread a \<and> enabled a' = enabled a \<and>
    (who \<noteq> None \<longrightarrow> bucket_of (threadMap a') k = Some b) \<and>
    (\<forall>k'. env_hash k' \<noteq> env_hash k \<longrightarrow> bucket_of (threadMap a') k' = bucket_of (threadMap a) k')"
proof (cases who)
  case None
  then show ?thesis using assms(2) by (simp add: OnThreadStart_def)
next
  case (Some n)
  obtain a1 where a1: "start_at_main E agent_ok n a = Inr a1" "agent_wf a1" "threadMap a1 = threadMap a" "blocked a1 = blocked a"
    "actual_JVM_StartThread a1 = actual_JVM_StartThread a" "enabled a1 = enabled a"
    using start_at_main_safe[OF assms(1,2)] by blast
  from a1(2) obtain p c held where w: "prof a1 = Some p" "wf_profiler p" "controller_at a1 = Some c" "thread_map_ok held (threadMap a1)"
    by (rule agent_wfE)
  obtain tm where tm: "thread_put b k n i (threadMap a1) = Some (Inr tm)" "thread_map_ok held tm" "bucket_of tm k = Some b"
    "\<forall>k'. env_hash k' \<noteq> env_hash k \<longrightarrow> bucket_of tm k' = bucket_of (threadMap a1) k'"
    using thread_put_ok[OF w(4), of k b n i] assms(3) Some a1(3) by auto
  have "agent_wf (a1\<lparr>threadMap := tm, blocked := blocked a1 - {k}\<rparr>)" by (rule agent_wfI[of _ p c held]) (simp_all add: w tm(2))
  then show ?thesis using Some a1 tm by (simp add: OnThreadStart_def)
qed

lemma thread_end_safe:
  assumes "agent_wf a"
  shows "\<exists>a'. OnThreadEnd k a = Some (Inr a') \<and> agent_wf a' \<and> blocked a' = insert k (blocked a) \<and>
    actual_JVM_StartThread a' = actual_JVM_StartThread a \<and> enabled a' = enabled a \<and>
    (\<forall>k'. env_hash k' \<noteq> env_hash k \<longrightarrow> bucket_of (threadMap a') k' = bucket_of (threadMap a) k')"
proof -
  from assms obtain p c held where w: "prof a = Some p" "wf_profiler p" "controller_at a = Some c" "thread_map_ok held (threadMap a)"
    by (rule agent_wfE)
  obtain tm where tm: "thread_remove k (threadMap a) = Some (Inr tm)" "thread_map_ok held tm"
    "\<forall>k'. env_hash k' \<noteq> env_hash k \<longrightarrow> bucket_of tm k' = bucket_of (threadMap a) k'"
    using thread_remove_ok[OF w(4)] by blast
  have "agent_wf (a\<lparr>blocked := insert k (blocked a), threadMap := tm\<rparr>)" by (rule agent_wfI[of _ p c held]) (simp_all add: w tm(2))
  then show ?thesis using tm by (simp add: OnThreadEnd_def Let_def)
qed

lemma java_safe:
  assumes "system_ok E" and "agent_wf a" and "java_ok x" and "java_call E x a = Some r"
  shows "\<exists>q. r = Inr (a\<lparr>prof := Some q\<rparr>) \<and> wf_profiler q"
proof -
  from assms(2) obtain p where p: "prof a = Some p" "wf_profiler p" by (rule agent_wfE)
  obtain r1 where r1: "java_update E x p = Some r1" "r = and_then r1 (\<lambda>q. Inr (a\<lparr>prof := Some q\<rparr>))"
    using assms(4) p(1) by (auto simp: java_call_def getProfiler_def)
  have "\<exists>q. r1 = Inr q \<and> wf_profiler q"
  proof (cases x)
    case (Agent_start ok)
    then show ?thesis using start_safe[OF assms(1) p(2), of ok] r1(1) by auto
  next
    case (Agent_stop sch)
    then show ?thesis using stop_wf[OF p(2)] r1(1) by fastforce
  next
    case (Agent_setFilePath path)
    then show ?thesis using setFilePath_wf[OF p(2) system_okD(1)[OF assms(1)], of path] assms(3) r1(1) by auto
  next
    case (Agent_setSamplingInterval lo hi)
    then show ?thesis using setSamplingInterval_wf[OF p(2)] r1(1) by auto
  next
    case (Agent_setMaxFramesToCapture n)
    then show ?thesis using setMaxFrames_wf[OF p(2)] r1(1) by auto
  qed
  then show ?thesis using r1(2) by auto
qed

lemma connects_safe:
  assumes "system_ok E" and "agent_wf a" and "world_ok (Connects k) a" and "client_connects E k a = Some r"
  shows "r = Inl Uninitialised_Read \<or> r = Inr a \<or> (\<exists>q. r = Inr (a\<lparr>prof := Some q\<rparr>) \<and> wf_profiler q)"
proof -
  from assms(2) obtain p c where p: "prof a = Some p" "wf_profiler p" "controller_at a = Some c" by (rule agent_wfE)
  have len: "\<forall>s. received k = Some s \<longrightarrow> length s < 2 ^ 62"
  proof (intro allI impI)
    fix s assume "received k = Some s"
    then have "length s < 100" using assms(3) by simp
    then show "length s < 2 ^ 62" by (rule order.strict_trans) simp
  qed
  show ?thesis
  proof (cases "controllerRunnable c")
    case True
    then obtain r1 where r1: "serve E k p = Some r1" "r = and_then r1 (\<lambda>(reply, q). Inr (a\<lparr>prof := Some q\<rparr>))"
      using assms(4) p(1,3) by (auto simp: client_connects_def)
    from serve_safe[OF p(2) assms(1) len r1(1)] show ?thesis using r1(2) by auto
  qed (use assms(4) p(3) in \<open>simp add: client_connects_def\<close>)
qed

text \<open>One step, with what it does to the two things the threads depend on.\<close>

lemma signal_safe:
  assumes "agent_wf a" and "agct_spec (asgct S)"
  shows "\<exists>a'. deliver_signal k S a = Some (Inr a') \<and> agent_wf a' \<and> blocked a' = blocked a \<and> enabled a' = enabled a \<and>
    actual_JVM_StartThread a' = actual_JVM_StartThread a \<and> tmap (threadMap a') = tmap (threadMap a) \<and>
    main_started a' = main_started a \<and> is_running (the (prof a')) = is_running (the (prof a))"
proof -
  from assms(1) obtain p c held where w: "prof a = Some p" "wf_profiler p" "controller_at a = Some c" "thread_map_ok held (threadMap a)"
    by (rule agent_wfE)
  obtain q tm held' where q: "handle S (p, threadMap a) = Some (Inr (q, tm))" "wf_profiler q" "tmap tm = tmap (threadMap a)"
    "thread_map_ok held' tm" "is_running q = is_running p"
    using handle_safe[OF w(2,4) assms(2)] by blast
  have "agent_wf (a\<lparr>prof := Some q, threadMap := tm\<rparr>)" by (rule agent_wfI[of _ q c held']) (simp_all add: w q)
  then show ?thesis using w(1) q(1,3,5) assms(1) by (simp add: deliver_signal_def bootstrapHandle_def)
qed

lemma happen_safe:
  assumes "system_ok E" and "agent_wf a" and "world_ok x a" and "happen E unsafe x a = Some r"
  shows "r = Inl Uninitialised_Read \<or> (\<exists>b. r = Inr b \<and> agent_wf b)"
proof -
  from assms(2) obtain p c held where w: "prof a = Some p" "wf_profiler p" "controller_at a = Some c" "thread_map_ok held (threadMap a)"
    by (rule agent_wfE)
  show ?thesis
  proof (cases x)
    case (VM_Init loaded attached agent_ok)
    then show ?thesis
      using assms(2,4) w by (auto simp: OnVMInit_def CONFIGURATION_def agent_wf_def split: if_splits)
  next
    case (VM_Death sch)
    then show ?thesis
      using assms(2,4) w(1) stop_wf[OF w(2)] agent_wf_prof[OF assms(2)] by (fastforce simp: OnVMDeath_def split: if_splits)
  next
    case (Thread_Start agent_ok k who i b)
    then show ?thesis using thread_start_safe[OF assms(1,2), of agent_ok k who i b] assms(2-4) by (auto split: if_splits)
  next
    case (Thread_End k)
    then show ?thesis using thread_end_safe[OF assms(2), of k] assms(2,4) by (auto split: if_splits)
  next
    case (Method_Bind m cls adr)
    then show ?thesis using assms(2,4) by (auto simp: OnNativeMethodBind_def split: if_splits option.splits)
  next
    case (New_Thread parent child)
    then show ?thesis using assms(2,4) by (auto simp: start0_def JVM_StartThread_Interposer_def)
  next
    case (Signal k S)
    then show ?thesis using signal_safe[OF assms(2), of S k] assms(3,4) by auto
  next
    case (Java y)
    then show ?thesis using java_safe[OF assms(1,2), of y r] assms(3,4) agent_wf_prof[OF assms(2)] by auto
  next
    case (Connects k)
    then show ?thesis using connects_safe[OF assms(1,2), of k r] assms(2-4) agent_wf_prof[OF assms(2)] by auto
  qed (use assms(2,4) in auto)
qed

lemma history_safe:
  assumes "system_ok E" and "agent_wf a" and "along world_ok E unsafe xs a" and "history E unsafe xs a = Some r"
  shows "r = Inl Uninitialised_Read \<or> (\<exists>b. r = Inr b \<and> agent_wf b)"
  using assms(2-4)
proof (induction xs arbitrary: a)
  case (Cons x xs)
  obtain r1 where r1: "happen E unsafe x a = Some r1" using Cons.prems(3) by (cases "happen E unsafe x a") auto
  from happen_safe[OF assms(1) Cons.prems(1) _ r1] Cons.prems(2)
  have "r1 = Inl Uninitialised_Read \<or> (\<exists>b. r1 = Inr b \<and> agent_wf b)" by simp
  then show ?case
  proof (elim disjE exE conjE)
    fix b assume b: "r1 = Inr b" "agent_wf b"
    then show ?thesis using Cons.IH[OF b(2)] Cons.prems(2,3) r1 by simp
  qed (use Cons.prems(3) r1 in simp)
qed auto

text \<open>
  An invariant that each step keeps holds at the end of a history. The step is one of a well-formed agent.
\<close>

lemma history_invariant:
  assumes "system_ok E" and "agent_wf a" and "along world_ok E unsafe xs a" and "along P E unsafe xs a"
    and "history E unsafe xs a = Some (Inr b)" and "I a"
    and step: "\<And>x a b. agent_wf a \<Longrightarrow> I a \<Longrightarrow> world_ok x a \<Longrightarrow> P x a \<Longrightarrow> happen E unsafe x a = Some (Inr b) \<Longrightarrow> I b"
  shows "I b"
  using assms(2-6)
proof (induction xs arbitrary: a)
  case (Cons x xs)
  obtain a1 where a1: "happen E unsafe x a = Some (Inr a1)"
    using Cons.prems(4) by (auto split: option.splits sum.splits)
  have "agent_wf a1" using happen_safe[OF assms(1) Cons.prems(1) _ a1] Cons.prems(2) by simp
  moreover have "I a1" using step[of a x a1] Cons.prems(1-3,5) a1 by simp
  ultimately show ?case using Cons.IH[of a1] Cons.prems(2-4) a1 by simp
qed simp

lemma along_all: "(\<And>x a. x \<in> set xs \<Longrightarrow> P x a) \<Longrightarrow> along P E unsafe xs a"
  by (induction xs arbitrary: a) (auto split: option.split sum.split)

subsection \<open>Loading succeeds\<close>

definition jvm_ok :: "jvm \<Rightarrow> bool" where
  "jvm_ok J \<longleftrightarrow> jvmti_env J \<and> PrepareJvmti J \<and> SetEventCallbacks J \<and> (\<forall>e. enable_event J e)"

lemma enable_all: "(\<forall>e\<in>set es. ok e) \<Longrightarrow> enable_events ok es = (True, es)"
  by (induction es) simp_all

text \<open>The option strings that are read as meant: see \<open>parse_wf\<close>.\<close>

definition good_options :: "(string \<times> string) list \<Rightarrow> string option \<Rightarrow> bool" where
  "good_options os opts \<longleftrightarrow> (\<forall>x\<in>set os. plain_option x) \<and> length (option_text os) < 2 ^ 62 \<and>
     strings_once os (settings_of (new_configuration, [])) \<and> opts = (if os = [] then None else Some (option_text os))"

definition settings_read :: "(string \<times> string) list \<Rightarrow> settings" where
  "settings_read os = foldl (\<lambda>x kv. apply_option kv x) (settings_of (new_configuration, [])) os"

lemma parsed:
  assumes "system_ok E" and "good_options os opts"
  obtains ch where "parseArguments (alloc E) opts (new_configuration, []) = Inr ch" and "wf_options ch" and
    "settings_of ch = settings_read os"
  using parse_wf[of os "alloc E" opts] assms system_okD(1)[OF assms(1)] by (auto simp: good_options_def settings_read_def)

lemma load_ok:
  assumes "system_ok E" and "good_options os opts" and "jvm_ok J"
  shows "\<exists>a p. Agent_OnLoad E J opts fresh_agent = Inr (0, a) \<and> agent_wf a \<and> prof a = Some p \<and> \<not> is_running p \<and>
    (host (liveConf p) = None \<longleftrightarrow> s_host (settings_read os) = None) \<and>
    (port (liveConf p) = None \<longleftrightarrow> s_port (settings_read os) = None) \<and>
    start (liveConf p) = s_start (settings_read os) \<and>
    controller_at a = Some new_controller \<and> threadMap a = new_thread_map \<and> \<not> main_started a \<and> actual_JVM_StartThread a = None \<and>
    enabled a = agent_events (async_unsafe J) \<and> blocked a = {} \<and> \<not> orphan a"
proof -
  obtain ch where ch: "parseArguments (alloc E) opts (new_configuration, []) = Inr ch" "wf_options ch"
    "settings_of ch = settings_read os" by (rule parsed[OF assms(1,2)])
  obtain c h where c: "ch = (c, h)" by fastforce
  obtain p where p: "new_profiler E ch = Inr p" "wf_profiler p" "\<not> is_running p"
    "host (liveConf p) = host c" "port (liveConf p) = port c" "start (liveConf p) = start c"
    using new_profiler_wf[OF assms(1), of c h] ch(2) c by blast
  have "supplied (alloc E) (c, h)" using ch(2) c system_okD(1)[OF assms(1)] by (simp add: supplied_def wf_options_def)
  then have "text_at h (host c) = None \<longleftrightarrow> host c = None" "text_at h (port c) = None \<longleftrightarrow> port c = None"
    by (auto simp: text_at_None)
  moreover have "text_at h (host c) = s_host (settings_read os)" "text_at h (port c) = s_port (settings_read os)"
    "start c = s_start (settings_read os)"
    unfolding ch(3)[symmetric] c settings_of_def by simp_all
  moreover let ?a = "fresh_agent\<lparr>options := Some ch, enabled := agent_events (async_unsafe J), prof := Some p, controller_at := Some new_controller\<rparr>"
  have "Agent_OnLoad E J opts fresh_agent = Inr (0, ?a)"
    using assms(3) ch(1) p(1) by (simp add: Agent_OnLoad_def jvm_ok_def RegisterJvmti_def enable_all Let_def)
  moreover have "agent_wf ?a" using p(2) new_thread_map_ok by (auto simp: agent_wf_def fresh_agent_def)
  ultimately show ?thesis using p by (intro exI[of _ ?a] exI[of _ p]) (simp add: fresh_agent_def)
qed

text \<open>Unloading frees every string, unless the profiler is running.\<close>

lemma unload_ok:
  assumes "agent_wf a" and "prof a = Some p" and "\<not> is_running p"
    and "controller_at a = Some c"
  shows "\<exists>b h. Agent_OnUnload a = Inr (b, h) \<and> map_of h = Map.empty \<and> controller_at b = None \<and> orphan b = controllerRunnable c"
proof -
  have "wf_profiler p" using assms(1,2) by (auto simp: agent_wf_def)
  then obtain h1 h2 where "delete_profiler p = Inr h1" "delete_configuration (liveConf p) h1 = Inr h2" "map_of h2 = Map.empty"
    using delete_all[OF _ assms(3)] by blast
  then show ?thesis using assms(2,4) by (simp add: Agent_OnUnload_def CONFIGURATION_def stop_controller_def Let_def)
qed

subsection \<open>Properties\<close>


definition example_jvm :: "bool \<Rightarrow> jvm" where
  "example_jvm unsafe = \<lparr>async_unsafe = unsafe, jvmti_env = True, caps_size = 2,
     bit_of = (\<lambda>c. case c of can_generate_all_class_hook_events \<Rightarrow> 0 | can_get_source_file_name \<Rightarrow> 1 | can_get_line_numbers \<Rightarrow> 2
       | can_get_bytecodes \<Rightarrow> 3 | can_get_constant_pool \<Rightarrow> 8 | can_generate_compiled_method_load_events \<Rightarrow> 9
       | can_generate_native_method_bind_events \<Rightarrow> 10),
     potential = Some [255, 255], AddCapabilities = True, SetEventCallbacks = True, enable_event = (\<lambda>e. True)\<rparr>"

lemma two_bytes: "replicate 2 (0 :: byte) = [0, 0]"
  by (simp add: numeral_2_eq_2)

lemma example_jvm_ok: "jvm_ok (example_jvm unsafe)"
  by (simp add: jvm_ok_def example_jvm_def PrepareJvmti_def lacks_byte_def wanted_capabilities_def set_capability_def two_bytes)

lemma no_options: "good_options [] None"
  by (simp add: good_options_def)


text \<open>
  When the JVM lacks a capability, \<open>Agent_OnLoad\<close> says \<open>Continuing...\<close> and returns success, but has built no profiler and no controller:
  every call from Java then follows a null pointer, and so does \<open>Agent_OnUnload\<close> when the JVM exits.
\<close>

theorem continuing_without_jvmti_crashes:
  assumes "system_ok E" and "good_options os opts" and "jvmti_env J" and "\<not> PrepareJvmti J"
  shows "\<exists>a. Agent_OnLoad E J opts fresh_agent = Inr (0, a) \<and> Agent_OnUnload a = Inl Null_Deref \<and>
    (\<forall>x. java_call E x a = Some (Inl Null_Deref)) \<and> Agent_isRunning a = Inl Null_Deref"
proof -
  obtain ch where "parseArguments (alloc E) opts (new_configuration, []) = Inr ch" by (rule parsed[OF assms(1,2)])
  then have "Agent_OnLoad E J opts fresh_agent = Inr (0, fresh_agent\<lparr>options := Some ch\<rparr>)"
    using assms(3,4) by (simp add: Agent_OnLoad_def Let_def)
  then show ?thesis by (simp add: Agent_OnUnload_def java_call_def getProfiler_def fresh_agent_def Agent_isRunning_def)
qed

theorem continuing_without_jvmti_crashes_witness:
  "\<exists>a. Agent_OnLoad example_system ((example_jvm False)\<lparr>potential := Some [255, 0]\<rparr>) None fresh_agent = Inr (0, a) \<and>
     Agent_OnUnload a = Inl Null_Deref"
proof -
  have "\<not> PrepareJvmti ((example_jvm False)\<lparr>potential := Some [255, 0]\<rparr>)"
    by (simp add: example_jvm_def PrepareJvmti_def lacks_byte_def wanted_capabilities_def set_capability_def two_bytes)
  then show ?thesis
    using continuing_without_jvmti_crashes[OF example_system_ok no_options, of "(example_jvm False)\<lparr>potential := Some [255, 0]\<rparr>"]
    by (auto simp: example_jvm_def)
qed

lemma start0_fields [simp]:
  "enabled (start0 q c a) = enabled a" "main_started (start0 q c a) = main_started a" "threadMap (start0 q c a) = threadMap a"
  "prof (start0 q c a) = prof a" "actual_JVM_StartThread (start0 q c a) = actual_JVM_StartThread a"
  by (simp_all add: start0_def JVM_StartThread_Interposer_def)

definition unregistered :: "agent \<Rightarrow> bool" where
  "unregistered a \<longleftrightarrow> enabled a = agent_events False \<and> \<not> main_started a \<and> tmap (threadMap a) = tmap new_thread_map"

lemma unregistered_step:
  assumes "agent_wf a" and "unregistered a" and "world_ok x a" and "happen E unsafe x a = Some (Inr b)"
  shows "unregistered b"
proof (cases x)
  case (VM_Init l t g)
  then show ?thesis
    using assms(2,4) by (auto simp: unregistered_def OnVMInit_def split: if_splits option.splits)
next
  case (VM_Death sch)
  then show ?thesis
    using assms(2,4) by (auto simp: unregistered_def OnVMDeath_def split: if_splits option.splits)
next
  case (Thread_Start ok k who i adr)
  then show ?thesis using assms(2,4) by (simp add: unregistered_def agent_events_def)
next
  case (Thread_End k)
  then show ?thesis using assms(2,4) by (simp add: unregistered_def agent_events_def)
next
  case (Method_Bind m c adr)
  then show ?thesis using assms(2,4) by (simp add: unregistered_def agent_events_def)
next
  case (New_Thread parent child)
  then show ?thesis using assms(2,4) by (auto simp: unregistered_def)
next
  case (Signal k S)
  then show ?thesis using assms signal_safe[OF assms(1), of S k] by (auto simp: unregistered_def)
next
  case (Java y)
  then show ?thesis
    using assms(2,4) by (auto simp: unregistered_def java_call_def getProfiler_def split: sum.splits option.splits)
next
  case (Connects k)
  then show ?thesis
    using assms(2,4) by (auto simp: unregistered_def client_connects_def split: option.splits if_splits)
qed (use assms in simp)

definition commanded :: "happening \<Rightarrow> bool" where
  "commanded x \<longleftrightarrow> (case x of Java y \<Rightarrow> True | Connects k \<Rightarrow> True | _ \<Rightarrow> False)"

definition idle :: "agent \<Rightarrow> bool" where
  "idle a \<longleftrightarrow> (\<exists>p. prof a = Some p \<and> \<not> is_running p)"

lemma idle_step:
  assumes "agent_wf a" and "unregistered a \<and> idle a" and "world_ok x a" and "\<not> commanded x"
    and "happen E unsafe x a = Some (Inr b)"
  shows "unregistered b \<and> idle b"
proof -
  have u: "unregistered b" using unregistered_step[OF assms(1) _ assms(3,5)] assms(2) by blast
  show ?thesis
  proof (cases x)
    case (VM_Init l t g)
    then show ?thesis using u assms(2,5) by (auto simp: idle_def OnVMInit_def split: if_splits option.splits)
  next
    case (VM_Death sch)
    then show ?thesis using u assms(2,5) by (auto simp: idle_def OnVMDeath_def split: if_splits option.splits)
  next
    case (New_Thread parent child)
    then show ?thesis using u assms(2,5) by (auto simp: idle_def)
  next
    case (Signal k S)
    then obtain q where "prof b = Some q" "is_running (the (prof b)) = is_running (the (prof a))"
      using assms(3,5) signal_safe[OF assms(1), of S k] by (auto elim: agent_wfE)
    then show ?thesis using u assms(2) by (auto simp: idle_def)
  qed (use u assms(2,4,5) in \<open>auto simp: unregistered_def agent_events_def commanded_def\<close>)
qed

text \<open>
  On Linux no thread is ever registered and the option \<open>start\<close> has no effect: the thread events are enabled only where
  \<open>GETENV_NEW_THREAD_ASYNC_UNSAFE\<close> is defined. Whatever happens, the thread map stays empty, so no sample has a thread, and
  unless Java or a client asks for it sampling never starts, although \<open>start\<close> is true by default.
\<close>

theorem linux_ignores_start_and_threads:
  assumes "system_ok E" and "good_options os opts" and "jvm_ok J" and "\<not> async_unsafe J"
    and "Agent_OnLoad E J opts fresh_agent = Inr (0, a)"
    and "along world_ok E False xs a" and "history E False xs a = Some (Inr b)"
  shows "(\<forall>k. bucket_of (threadMap b) k = None) \<and> \<not> main_started b \<and>
    ((\<forall>x\<in>set xs. \<not> commanded x) \<longrightarrow> (\<exists>p. prof b = Some p \<and> \<not> is_running p))"
proof -
  have a: "agent_wf a" "unregistered a" "idle a"
    using load_ok[OF assms(1-3)] assms(4,5) by (auto simp: unregistered_def idle_def)
  have "unregistered b"
    by (rule history_invariant[where P = "\<lambda>x a. True" and I = unregistered, OF assms(1) a(1) assms(6) _ assms(7) a(2)])
      (auto intro: along_all unregistered_step)
  moreover have "unregistered b \<and> idle b" if "\<forall>x\<in>set xs. \<not> commanded x"
  proof (rule history_invariant[where P = "\<lambda>x a. \<not> commanded x" and I = "\<lambda>a. unregistered a \<and> idle a", OF assms(1) a(1) assms(6) _ assms(7)])
    show "along (\<lambda>x a. \<not> commanded x) E False xs a" using that by (intro along_all) blast
    show "unregistered a \<and> idle a" using a by simp
    show "unregistered d \<and> idle d" if "agent_wf c" "unregistered c \<and> idle c" "world_ok x c" "\<not> commanded x"
      "happen E False x c = Some (Inr d)" for x c d
      using idle_step[OF that] .
  qed
  moreover have "bucket_of (threadMap b) k = None" if "unregistered b" for k
    using that bucket_of_new[of k] by (simp add: unregistered_def bucket_of_def)
  ultimately show ?thesis by (auto simp: unregistered_def idle_def)
qed

theorem linux_ignores_start_and_threads_witness:
  "\<exists>a p. Agent_OnLoad example_system (example_jvm False) None fresh_agent = Inr (0, a) \<and> s_start (settings_read []) \<and>
     history example_system False [Thread_Start True 4096 (Some main_name) 5 64] a = Some (Inr a) \<and>
     bucket_of (threadMap a) 4096 = None \<and> prof a = Some p \<and> \<not> is_running p"
proof -
  obtain a where a: "Agent_OnLoad example_system (example_jvm False) None fresh_agent = Inr (0, a)"
    "threadMap a = new_thread_map" "enabled a = agent_events False"
    using load_ok[OF example_system_ok no_options example_jvm_ok[of False]] by (auto simp: example_jvm_def)
  let ?xs = "[Thread_Start True 4096 (Some main_name) 5 64]"
  have h: "history example_system False ?xs a = Some (Inr a)" using a(3) by (simp add: agent_events_def)
  have "along world_ok example_system False ?xs a"
    using a(2,3) new_thread_map_admits by (auto simp: agent_events_def pointer_def new_thread_map_def)
  from linux_ignores_start_and_threads[OF example_system_ok no_options example_jvm_ok _ a(1) this h]
  show ?thesis using a(1) h
    by (auto simp: example_jvm_def settings_read_def settings_of_def new_configuration_def commanded_def)
qed

subsection \<open>Threads made under the interposer\<close>

definition covered :: "agent \<Rightarrow> u64 \<Rightarrow> bool" where
  "covered a k \<longleftrightarrow> k \<in> blocked a \<or> bucket_of (threadMap a) k \<noteq> None"

fun children :: "happening \<Rightarrow> u64 set" where
  "children (New_Thread parent child) = {child}"
| "children _ = {}"

text \<open>
  A thread that creates another runs Java code, so it takes signals; \<open>GetThreadInfo\<close> succeeds; \<open>K\<close> are the \<open>JNIEnv\<close>s in use.
\<close>

fun threads_ok :: "u64 set \<Rightarrow> happening \<Rightarrow> agent \<Rightarrow> bool" where
  "threads_ok K (New_Thread parent child) a = (parent \<notin> blocked a \<and> parent \<noteq> child \<and> child \<in> K)"
| "threads_ok K (Thread_Start agent_ok k who i b) a = (who \<noteq> None \<and> k \<in> K)"
| "threads_ok K (Thread_End k) a = (k \<in> K)"
| "threads_ok K _ a = True"

definition interposing :: "agent \<Rightarrow> bool" where
  "interposing a \<longleftrightarrow> enabled a = agent_events True \<and> actual_JVM_StartThread a \<noteq> None"

lemma covered_elsewhere:
  assumes "inj_on env_hash K" and "M \<subseteq> K" and "k \<in> K" and "\<forall>k'\<in>M. covered a k'" and "covered b k"
    and "\<forall>k'. env_hash k' \<noteq> env_hash k \<longrightarrow> bucket_of (threadMap b) k' = bucket_of (threadMap a) k'"
    and "blocked a - {k} \<subseteq> blocked b"
  shows "\<forall>k'\<in>M. covered b k'"
proof
  fix k' assume k': "k' \<in> M"
  show "covered b k'"
  proof (cases "k' = k")
    case False
    then have "env_hash k' \<noteq> env_hash k" using assms(1-3) k' by (auto dest: inj_onD)
    then show ?thesis using assms(4,6,7) k' False by (auto simp: covered_def)
  qed (use assms(5) in simp)
qed

lemma covered_same: "blocked b = blocked a \<Longrightarrow> tmap (threadMap b) = tmap (threadMap a) \<Longrightarrow> covered b k = covered a k"
  by (simp add: covered_def bucket_of_def)

lemma covered_step:
  assumes "system_ok E" and "agent_wf a" and "interposing a" and "world_ok x a" and "threads_ok K x a"
    and "inj_on env_hash K" and "M \<subseteq> K" and "\<forall>k\<in>M. covered a k" and "happen E unsafe x a = Some (Inr b)"
  shows "interposing b \<and> (\<forall>k\<in>M \<union> children x. covered b k) \<and> M \<union> children x \<subseteq> K"
proof (cases x)
  case (VM_Init l t g)
  then show ?thesis
    using assms(3,7-9) covered_same[of b a] by (auto simp: interposing_def OnVMInit_def split: if_splits option.splits)
next
  case (VM_Death sch)
  then show ?thesis
    using assms(3,7-9) covered_same[of b a] by (auto simp: interposing_def OnVMDeath_def split: if_splits option.splits)
next
  case (Thread_Start ok k who i adr)
  then have "OnThreadStart E ok k who i adr a = Some (Inr b)" "who \<noteq> None" "k \<in> K"
    using assms(3,5,9) by (simp_all add: interposing_def agent_events_def)
  then show ?thesis
    using thread_start_safe[OF assms(1,2), of ok k who i adr] assms(3,4,7) Thread_Start
      covered_elsewhere[OF assms(6,7) _ assms(8), of k b]
    by (simp add: interposing_def covered_def)
next
  case (Thread_End k)
  then have "OnThreadEnd k a = Some (Inr b)" "k \<in> K"
    using assms(3,5,9) by (simp_all add: interposing_def agent_events_def)
  then show ?thesis
    using thread_end_safe[OF assms(2), of k] assms(3,7) Thread_End covered_elsewhere[OF assms(6,7) _ assms(8), of k b]
    by (auto simp: interposing_def covered_def)
next
  case (Method_Bind m c adr)
  then show ?thesis using assms(3,7-9) by (simp add: interposing_def OnNativeMethodBind_def agent_events_def)
next
  case (New_Thread parent child)
  then have t: "parent \<notin> blocked a" "parent \<noteq> child" "child \<in> K" "b = start0 parent child a" using assms(5,9) by simp_all
  have "blocked b = insert child (blocked a)"
    using t(1,2) assms(3) unfolding t(4)
    by (auto simp: start0_def interposing_def JVM_StartThread_Interposer_def actual_start_def)
  then show ?thesis using assms(3,7,8) New_Thread t(3,4) by (auto simp: interposing_def covered_def)
next
  case (Signal k S)
  then have "blocked b = blocked a" "tmap (threadMap b) = tmap (threadMap a)" "interposing b"
    using assms(3,4,9) signal_safe[OF assms(2), of S k] by (auto simp: interposing_def)
  then show ?thesis using covered_same[of b a] assms(7,8) Signal by simp
next
  case (Java y)
  then have "\<exists>q. b = a\<lparr>prof := Some q\<rparr>" using assms(4,9) java_safe[OF assms(1,2), of y] by fastforce
  then show ?thesis using assms(3,7,8) covered_same[of b a] Java by (auto simp: interposing_def)
next
  case (Connects k)
  then have "b = a \<or> (\<exists>q. b = a\<lparr>prof := Some q\<rparr>)" using assms(4,9) connects_safe[OF assms(1,2), of k] by fastforce
  then show ?thesis using assms(3,7,8) covered_same[of b a] Connects by (auto simp: interposing_def)
qed (use assms in simp)

lemma covered_history:
  assumes "system_ok E" and "inj_on env_hash K"
    and "agent_wf a" and "interposing a" and "along world_ok E unsafe xs a" and "along (threads_ok K) E unsafe xs a"
    and "M \<subseteq> K" and "\<forall>k\<in>M. covered a k" and "history E unsafe xs a = Some (Inr b)"
  shows "\<forall>k\<in>M \<union> (\<Union>x\<in>set xs. children x). covered b k"
  using assms(3-9)
proof (induction xs arbitrary: a M)
  case (Cons x xs)
  obtain a1 where a1: "happen E unsafe x a = Some (Inr a1)"
    using Cons.prems(7) by (auto split: option.splits sum.splits)
  have w: "agent_wf a1" using happen_safe[OF assms(1) Cons.prems(1) _ a1] Cons.prems(3) by simp
  have "interposing a1 \<and> (\<forall>k\<in>M \<union> children x. covered a1 k) \<and> M \<union> children x \<subseteq> K"
    using covered_step[OF assms(1) Cons.prems(1,2) _ _ assms(2) Cons.prems(5,6) a1] Cons.prems(3,4) by simp
  then have "\<forall>k\<in>M \<union> children x \<union> (\<Union>x\<in>set xs. children x). covered b k"
    using Cons.IH[of a1 "M \<union> children x"] w Cons.prems(3,4,7) a1 by simp
  then show ?case by auto
qed simp





end
