(* ===== verification/Profile_Writer.thy ===== *)
theory Profile_Writer
  imports Base
begin

text \<open>
  \<open>ProfileWriter\<close> and \<open>Checksum\<close> (\<^verbatim>\<open>profile_writer.h\<close>, \<^verbatim>\<open>checksum.h\<close>, \<^verbatim>\<open>checksum.cpp\<close>): a header and samples
  in the protocol buffer format, each with its size before it and a checksum behind it, collected in a buffer that
  grows for big messages.

  Protocol buffers and zlib are third-party: the encoding of messages and of 32 bit integers and the function
  \<open>adler32\<close> are parameters. So are the bytes of a fresh buffer, which C++ does not initialise.
\<close>

record 'm formats =
  ByteSize :: "'m \<Rightarrow> nat"
  SerializeToArray :: "'m \<Rightarrow> byte list option"
  WriteVarint32ToArray :: "u32 \<Rightarrow> byte list"
  adler32 :: "u64 \<Rightarrow> byte list option \<Rightarrow> u64"
  fresh_bytes :: "nat \<Rightarrow> byte list"

definition MIN_FREE_BUFF :: u32 where "MIN_FREE_BUFF = 64"
definition BUFF_SZ :: u32 where "BUFF_SZ = 0xFFFF"

text \<open>The writer's fields and the bytes that \<open>write_unbuffered\<close> has received.\<close>

record profile_writer =
  adler :: u64
  data :: "byte list"
  data_capacity :: u32
  data_offset :: u32
  header_written :: bool
  received_bytes :: "byte list"

subsection \<open>Checksum\<close>

definition reset :: "'m formats \<Rightarrow> u64" where
  "reset L = adler32 L 0 None"

definition chksum :: "'m formats \<Rightarrow> byte list \<Rightarrow> u64 \<Rightarrow> (u32 \<times> u64) result" where
  "chksum L buf a =
     (let a1 = adler32 L a (Some buf) in if drop_bit 32 a1 \<noteq> 0 then Inl Assertion_Failed else Inr (ucast a1, a1))"

subsection \<open>The buffer\<close>

definition new_profile_writer :: "'m formats \<Rightarrow> profile_writer" where
  "new_profile_writer L = \<lparr>adler = reset L, data = fresh_bytes L (unat BUFF_SZ), data_capacity = BUFF_SZ, data_offset = 0,
     header_written = False, received_bytes = []\<rparr>"

definition flush :: "profile_writer \<Rightarrow> profile_writer" where
  "flush w = w\<lparr>received_bytes := received_bytes w @ take (unat (data_offset w)) (data w)\<rparr>"

definition ensure_freebuff :: "'m formats \<Rightarrow> u32 \<Rightarrow> profile_writer \<Rightarrow> profile_writer" where
  "ensure_freebuff L min_required w =
     (if data_offset w + min_required > data_capacity w then
        let w1 = (flush w)\<lparr>data_offset := 0\<rparr> in
        if min_required > data_capacity w1 then
          w1\<lparr>data_capacity := min_required * 2, data := fresh_bytes L (unat (min_required * 2))\<rparr>
        else w1
      else w)"

definition ensure_freebuff_for :: "'m formats \<Rightarrow> 'm \<Rightarrow> profile_writer \<Rightarrow> profile_writer" where
  "ensure_freebuff_for L v = ensure_freebuff L (word_of_nat (ByteSize L v) + MIN_FREE_BUFF)"

text \<open>Bytes stored from the current offset on.\<close>

definition store :: "byte list \<Rightarrow> profile_writer \<Rightarrow> profile_writer result" where
  "store bs w =
     (let i = unat (data_offset w) in
      if i + length bs > length (data w) then Inl Out_Of_Bounds
      else Inr (w\<lparr>data := take i (data w) @ bs @ drop (i + length bs) (data w),
                  data_offset := word_of_nat (i + length bs)\<rparr>))"

definition write_unchecked :: "'m formats \<Rightarrow> u32 \<Rightarrow> profile_writer \<Rightarrow> profile_writer result" where
  "write_unchecked L v = store (WriteVarint32ToArray L v)"

text \<open>When the message cannot be serialized the offset advances over whatever the buffer holds.\<close>

definition write_unchecked_obj :: "'m formats \<Rightarrow> 'm \<Rightarrow> profile_writer \<Rightarrow> profile_writer result" where
  "write_unchecked_obj L v w =
     (let sz = ByteSize L v in
      and_then (write_unchecked L (word_of_nat sz) w) (\<lambda>w1.
        case SerializeToArray L v of
          Some bs \<Rightarrow> store bs w1
        | None \<Rightarrow> Inr (w1\<lparr>data_offset := data_offset w1 + word_of_nat sz\<rparr>)))"

subsection \<open>Operations\<close>

definition write_header :: "'m formats \<Rightarrow> u32 \<Rightarrow> 'm \<Rightarrow> profile_writer \<Rightarrow> profile_writer result" where
  "write_header L Version rh w =
     (if header_written w then Inl Assertion_Failed
      else let w1 = ensure_freebuff_for L rh (w\<lparr>header_written := True\<rparr>) in
        and_then (write_unchecked L Version w1) (\<lambda>w2.
        and_then (write_unchecked_obj L rh w2) (\<lambda>w3.
        and_then (chksum L (take (unat (data_offset w3)) (data w3)) (adler w3)) (\<lambda>(csum, a).
          write_unchecked L csum (w3\<lparr>adler := a\<rparr>)))))"

definition append_wse :: "'m formats \<Rightarrow> 'm \<Rightarrow> profile_writer \<Rightarrow> profile_writer result" where
  "append_wse L e w =
     (let w1 = ensure_freebuff_for L e w; old_offset = unat (data_offset w1) in
      and_then (write_unchecked_obj L e w1) (\<lambda>w2.
        let data_sz = unat (data_offset w2) - old_offset in
        and_then (chksum L (take data_sz (drop old_offset (data w2))) (reset L)) (\<lambda>(csum, a).
          write_unchecked L csum (w2\<lparr>adler := a\<rparr>))))"

fun append_all :: "'m formats \<Rightarrow> 'm list \<Rightarrow> profile_writer \<Rightarrow> profile_writer result" where
  "append_all L [] w = Inr w"
| "append_all L (e # es) w = and_then (append_wse L e w) (append_all L es)"

text \<open>The destructor flushes; this is the whole file.\<close>

definition delete_profile_writer :: "profile_writer \<Rightarrow> byte list" where
  "delete_profile_writer w = received_bytes (flush w)"

definition write_profile :: "'m formats \<Rightarrow> u32 \<Rightarrow> 'm \<Rightarrow> 'm list \<Rightarrow> byte list result" where
  "write_profile L Version rh es =
     and_then (write_header L Version rh (new_profile_writer L)) (\<lambda>w1.
     and_then (append_all L es w1) (\<lambda>w2. Inr (delete_profile_writer w2)))"

subsection \<open>What the libraries promise\<close>

text \<open>
  A varint takes one to five bytes, \<open>adler32\<close> yields 32 bits, a buffer has its size. A message that can be serialized has as many
  bytes as \<open>ByteSize\<close> says.
\<close>

definition formats_ok :: "'m formats \<Rightarrow> bool" where
  "formats_ok L \<longleftrightarrow> (\<forall>v. 1 \<le> length (WriteVarint32ToArray L v) \<and> length (WriteVarint32ToArray L v) \<le> 5) \<and>
     unat (adler32 L 0 None) < 2 ^ 32 \<and>
     (\<forall>a bs. unat a < 2 ^ 32 \<longrightarrow> unat (adler32 L a (Some bs)) < 2 ^ 32) \<and>
     (\<forall>n. length (fresh_bytes L n) = n) \<and>
     (\<forall>v bs. SerializeToArray L v = Some bs \<longrightarrow> length bs = ByteSize L v)"

text \<open>The messages that fit: up to a gigabyte.\<close>

definition fits_message :: "'m formats \<Rightarrow> 'm \<Rightarrow> bool" where
  "fits_message L v \<longleftrightarrow> SerializeToArray L v \<noteq> None \<and> ByteSize L v \<le> 2 ^ 30"

subsection \<open>The stream\<close>

definition stream :: "profile_writer \<Rightarrow> byte list" where
  "stream w = received_bytes w @ take (unat (data_offset w)) (data w)"

definition wf_writer :: "profile_writer \<Rightarrow> bool" where
  "wf_writer w \<longleftrightarrow> length (data w) = unat (data_capacity w) \<and> unat (data_offset w) \<le> unat (data_capacity w) \<and>
     unat (data_capacity w) \<le> 2 ^ 31 + 128 \<and> unat (adler w) < 2 ^ 32"

definition room :: "nat \<Rightarrow> profile_writer \<Rightarrow> bool" where
  "room n w \<longleftrightarrow> unat (data_offset w) + n \<le> unat (data_capacity w)"

lemma new_profile_writer_ok:
  "formats_ok L \<Longrightarrow> wf_writer (new_profile_writer L) \<and> stream (new_profile_writer L) = [] \<and>
    \<not> header_written (new_profile_writer L) \<and> data_offset (new_profile_writer L) = 0"
  by (simp add: formats_ok_def wf_writer_def new_profile_writer_def stream_def reset_def BUFF_SZ_def)

lemma ensure_freebuff_ok:
  assumes "formats_ok L" and "wf_writer w" and "n \<le> 2 ^ 30 + 64"
  shows "wf_writer (ensure_freebuff L (word_of_nat n) w)" and "stream (ensure_freebuff L (word_of_nat n) w) = stream w"
    and "room n (ensure_freebuff L (word_of_nat n) w)"
    and "header_written (ensure_freebuff L (word_of_nat n) w) = header_written w"
    and "data_offset w = 0 \<Longrightarrow> data_offset (ensure_freebuff L (word_of_nat n) w) = 0"
    and "received_bytes w = [] \<Longrightarrow> data_offset w = 0 \<Longrightarrow> received_bytes (ensure_freebuff L (word_of_nat n) w) = []"
    and "adler (ensure_freebuff L (word_of_nat n) w) = adler w"
proof -
  have small: "n < 2 ^ 32" using assms(3) by simp
  then have n: "unat (word_of_nat n :: u32) = n" by (simp add: unat_of_nat)
  have "unat (word_of_nat n * 2 :: u32) = n * 2 mod 2 ^ 32" using n by (simp add: unat_word_ariths)
  then have n2: "unat (word_of_nat n * 2 :: u32) = n * 2" using assms(3) by simp
  note W = assms(2)[unfolded wf_writer_def]
  have "unat (data_offset w + word_of_nat n) = (unat (data_offset w) + n) mod 2 ^ 32" using n by (simp add: unat_word_ariths)
  moreover have "unat (data_offset w) + n < 2 ^ 32" using W assms(3) by simp
  ultimately have sum: "unat (data_offset w + word_of_nat n) = unat (data_offset w) + n" by simp
  have cmp: "data_offset w + word_of_nat n > data_capacity w \<longleftrightarrow> unat (data_offset w) + n > unat (data_capacity w)"
    "word_of_nat n > data_capacity w \<longleftrightarrow> n > unat (data_capacity w)"
    by (simp_all add: word_less_nat_alt sum n)
  have fresh: "length (fresh_bytes L k) = k" for k using assms(1) by (simp add: formats_ok_def)
  note D = ensure_freebuff_def flush_def Let_def
  show "wf_writer (ensure_freebuff L (word_of_nat n) w)"
    using W assms(3) by (simp add: D wf_writer_def cmp fresh n2)
  show "stream (ensure_freebuff L (word_of_nat n) w) = stream w" by (simp add: D stream_def)
  show "room n (ensure_freebuff L (word_of_nat n) w)" by (simp add: D room_def cmp n2)
  show "header_written (ensure_freebuff L (word_of_nat n) w) = header_written w" "adler (ensure_freebuff L (word_of_nat n) w) = adler w"
    by (simp_all add: D)
  show "data_offset w = 0 \<Longrightarrow> data_offset (ensure_freebuff L (word_of_nat n) w) = 0" by (simp add: D)
  show "received_bytes w = [] \<Longrightarrow> data_offset w = 0 \<Longrightarrow> received_bytes (ensure_freebuff L (word_of_nat n) w) = []" by (simp add: D)
qed

definition buffered :: "profile_writer \<Rightarrow> byte list" where
  "buffered w = take (unat (data_offset w)) (data w)"

text \<open>\<open>w'\<close> holds \<open>bs\<close> behind what \<open>w\<close> holds, and room for \<open>k\<close> bytes more.\<close>

definition extended :: "byte list \<Rightarrow> nat \<Rightarrow> profile_writer \<Rightarrow> profile_writer \<Rightarrow> bool" where
  "extended bs k w w' \<longleftrightarrow> wf_writer w' \<and> room k w' \<and> stream w' = stream w @ bs \<and>
    unat (data_offset w') = unat (data_offset w) + length bs \<and>
    buffered w' = buffered w @ bs \<and>
    received_bytes w' = received_bytes w \<and> header_written w' = header_written w \<and> adler w' = adler w"

lemma extended_trans: "extended bs j w w1 \<Longrightarrow> extended cs k w1 w2 \<Longrightarrow> extended (bs @ cs) k w w2"
  by (simp add: extended_def)

lemma extendedD:
  assumes "extended bs k w w'"
  shows "wf_writer w'" and "room k w'" and "stream w' = stream w @ bs" and "received_bytes w' = received_bytes w"
    and "adler w' = adler w"
  using assms by (simp_all add: extended_def)

text \<open>Storing appends to the stream; what was there stays.\<close>

lemma store_ok:
  assumes "wf_writer w" and "room (length bs + k) w"
  shows "\<exists>w'. store bs w = Inr w' \<and> extended bs k w w'"
proof -
  let ?i = "unat (data_offset w)"
  note W = assms(1)[unfolded wf_writer_def]
  have fit: "?i + length bs + k \<le> unat (data_capacity w)" using assms(2) by (simp add: room_def)
  then have "?i + length bs < 2 ^ 32" using W by simp
  then have o1: "unat (word_of_nat (?i + length bs) :: u32) = ?i + length bs" by (simp add: unat_of_nat del: of_nat_add)
  let ?w = "w\<lparr>data := take ?i (data w) @ bs @ drop (?i + length bs) (data w), data_offset := word_of_nat (?i + length bs)\<rparr>"
  have "store bs w = Inr ?w" using fit W by (simp add: store_def Let_def)
  moreover have "buffered ?w = buffered w @ bs" "stream ?w = stream w @ bs"
    using fit W unfolding buffered_def stream_def by (simp_all add: o1 del: of_nat_add)
  moreover have "wf_writer ?w" using fit W o1 by (simp add: wf_writer_def del: of_nat_add)
  moreover have "room k ?w" using fit o1 by (simp add: room_def del: of_nat_add)
  ultimately show ?thesis using o1 by (intro exI[of _ ?w]) (simp add: extended_def stream_def del: of_nat_add)
qed

definition csum_of :: "'m formats \<Rightarrow> byte list \<Rightarrow> u32" where
  "csum_of L bs = ucast (adler32 L (reset L) (Some bs))"

definition framed :: "'m formats \<Rightarrow> 'm \<Rightarrow> byte list" where
  "framed L v = WriteVarint32ToArray L (word_of_nat (ByteSize L v)) @ (case SerializeToArray L v of Some bs \<Rightarrow> bs | None \<Rightarrow> [])"

definition sealed :: "'m formats \<Rightarrow> byte list \<Rightarrow> byte list" where
  "sealed L bs = bs @ WriteVarint32ToArray L (csum_of L bs)"

lemma varint_length: "formats_ok L \<Longrightarrow> 1 \<le> length (WriteVarint32ToArray L v) \<and> length (WriteVarint32ToArray L v) \<le> 5"
  by (simp add: formats_ok_def)

lemma room_less: "room n w \<Longrightarrow> m \<le> n \<Longrightarrow> room m w"
  by (simp add: room_def)

lemma write_unchecked_ok:
  assumes "formats_ok L" and "wf_writer w" and "room (5 + k) w"
  shows "\<exists>w'. write_unchecked L v w = Inr w' \<and> extended (WriteVarint32ToArray L v) k w w'"
  unfolding write_unchecked_def
  by (rule store_ok[OF assms(2) room_less[OF assms(3)]]) (use varint_length[OF assms(1)] in simp)

lemma write_obj_ok:
  assumes "formats_ok L" and "fits_message L v" and "wf_writer w" and "room (5 + ByteSize L v + k) w"
  shows "\<exists>w'. write_unchecked_obj L v w = Inr w' \<and> extended (framed L v) k w w'"
proof -
  obtain bs where bs: "SerializeToArray L v = Some bs" "length bs = ByteSize L v"
    using assms(1,2) unfolding fits_message_def formats_ok_def by (cases "SerializeToArray L v") auto
  obtain w1 where w1: "write_unchecked L (word_of_nat (ByteSize L v)) w = Inr w1"
    "extended (WriteVarint32ToArray L (word_of_nat (ByteSize L v))) (length bs + k) w w1"
    using write_unchecked_ok[OF assms(1,3), of "length bs + k"] assms(4) bs(2) by (metis add.assoc)
  obtain w2 where "store bs w1 = Inr w2" "extended bs k w1 w2"
    using store_ok[OF extendedD(1,2)[OF w1(2)]] by blast
  then show ?thesis using w1 bs(1) extended_trans[OF w1(2)] by (simp add: write_unchecked_obj_def Let_def framed_def)
qed

lemma chksum_ok:
  assumes "formats_ok L" and "unat a < 2 ^ 32"
  shows "\<exists>a'. chksum L bs a = Inr (ucast (adler32 L a (Some bs)), a') \<and> unat a' < 2 ^ 32"
proof -
  have "unat (adler32 L a (Some bs)) < 2 ^ 32" using assms by (simp add: formats_ok_def)
  moreover from this have "drop_bit 32 (adler32 L a (Some bs)) = 0"
    by (simp add: unat_eq_0[symmetric] unat_drop_bit_eq drop_bit_eq_div unat_div)
  ultimately show ?thesis by (simp add: chksum_def Let_def)
qed

lemma reset_bound: "formats_ok L \<Longrightarrow> unat (reset L) < 2 ^ 32"
  by (simp add: formats_ok_def reset_def)

lemma ensure_for_ok:
  assumes "formats_ok L" and "fits_message L v" and "wf_writer w"
  shows "wf_writer (ensure_freebuff_for L v w) \<and> stream (ensure_freebuff_for L v w) = stream w \<and>
    room (ByteSize L v + 64) (ensure_freebuff_for L v w) \<and> header_written (ensure_freebuff_for L v w) = header_written w \<and>
    adler (ensure_freebuff_for L v w) = adler w"
    and "data_offset w = 0 \<Longrightarrow> received_bytes w = [] \<Longrightarrow>
      data_offset (ensure_freebuff_for L v w) = 0 \<and> received_bytes (ensure_freebuff_for L v w) = []"
proof -
  have e: "ensure_freebuff_for L v w = ensure_freebuff L (word_of_nat (ByteSize L v + 64)) w"
    by (simp add: ensure_freebuff_for_def MIN_FREE_BUFF_def)
  have "ByteSize L v + 64 \<le> 2 ^ 30 + 64" using assms(2) by (simp add: fits_message_def)
  note E = ensure_freebuff_ok[OF assms(1,3) this]
  show "wf_writer (ensure_freebuff_for L v w) \<and> stream (ensure_freebuff_for L v w) = stream w \<and>
    room (ByteSize L v + 64) (ensure_freebuff_for L v w) \<and> header_written (ensure_freebuff_for L v w) = header_written w \<and>
    adler (ensure_freebuff_for L v w) = adler w"
    unfolding e using E by blast
  show "data_offset w = 0 \<Longrightarrow> received_bytes w = [] \<Longrightarrow>
      data_offset (ensure_freebuff_for L v w) = 0 \<and> received_bytes (ensure_freebuff_for L v w) = []"
    unfolding e using E by blast
qed

lemma write_sum_ok:
  assumes "formats_ok L" and "wf_writer w" and "room 5 w" and "unat a < 2 ^ 32"
  shows "\<exists>w'. write_unchecked L c (w\<lparr>adler := a\<rparr>) = Inr w' \<and> wf_writer w' \<and> stream w' = stream w @ WriteVarint32ToArray L c"
proof -
  have w: "wf_writer (w\<lparr>adler := a\<rparr>)" "room (5 + 0) (w\<lparr>adler := a\<rparr>)" "stream (w\<lparr>adler := a\<rparr>) = stream w"
    using assms(2-4) by (simp_all add: wf_writer_def room_def stream_def)
  show ?thesis using write_unchecked_ok[OF assms(1) w(1,2)] w(3) by (auto simp: extended_def)
qed

text \<open>The header goes to the start of the buffer of a new writer, so its checksum is over all that has been written.\<close>

lemma write_header_ok:
  assumes "formats_ok L" and "fits_message L rh"
  shows "\<exists>w. write_header L V rh (new_profile_writer L) = Inr w \<and> wf_writer w \<and>
    stream w = sealed L (WriteVarint32ToArray L V @ framed L rh)"
proof -
  note N = new_profile_writer_ok[OF assms(1)]
  let ?w0 = "(new_profile_writer L)\<lparr>header_written := True\<rparr>"
  let ?w1 = "ensure_freebuff_for L rh ?w0"
  have w0: "wf_writer ?w0" "stream ?w0 = []" "data_offset ?w0 = 0" "received_bytes ?w0 = []" "adler ?w0 = reset L"
    using N by (simp_all add: wf_writer_def stream_def new_profile_writer_def)
  note w1 = ensure_for_ok[OF assms w0(1)]
  then have o1: "data_offset ?w1 = 0" "received_bytes ?w1 = []" using w0(3,4) by blast+
  have "room (5 + (5 + ByteSize L rh + 5)) ?w1" using w1(1) by (auto intro: room_less)
  then obtain w2 where w2: "write_unchecked L V ?w1 = Inr w2" "extended (WriteVarint32ToArray L V) (5 + ByteSize L rh + 5) ?w1 w2"
    using write_unchecked_ok[OF assms(1)] w1(1) by blast
  obtain w3 where w3: "write_unchecked_obj L rh w2 = Inr w3" "extended (framed L rh) 5 w2 w3"
    using write_obj_ok[OF assms extendedD(1,2)[OF w2(2)]] by blast
  have x: "extended (WriteVarint32ToArray L V @ framed L rh) 5 ?w1 w3" by (rule extended_trans[OF w2(2) w3(2)])
  then have str: "stream w3 = WriteVarint32ToArray L V @ framed L rh" "received_bytes w3 = []" "adler w3 = reset L"
    using extendedD(3-5)[OF x] w1(1) o1(2) w0(2,5) by simp_all
  have buf: "take (unat (data_offset w3)) (data w3) = WriteVarint32ToArray L V @ framed L rh"
    using str(1,2) by (simp add: stream_def)
  obtain a where a: "chksum L (WriteVarint32ToArray L V @ framed L rh) (reset L) =
      Inr (csum_of L (WriteVarint32ToArray L V @ framed L rh), a)" "unat a < 2 ^ 32"
    using chksum_ok[OF assms(1) reset_bound[OF assms(1)]] unfolding csum_of_def by blast
  obtain w5 where "write_unchecked L (csum_of L (WriteVarint32ToArray L V @ framed L rh)) (w3\<lparr>adler := a\<rparr>) = Inr w5" "wf_writer w5"
    "stream w5 = stream w3 @ WriteVarint32ToArray L (csum_of L (WriteVarint32ToArray L V @ framed L rh))"
    using write_sum_ok[OF assms(1) extendedD(1,2)[OF x] a(2)] by blast
  then show ?thesis
    using N w2(1) w3(1) str buf a(1) by (intro exI[of _ w5]) (simp add: write_header_def Let_def sealed_def)
qed

lemma append_wse_ok:
  assumes "formats_ok L" and "fits_message L e" and "wf_writer w"
  shows "\<exists>w'. append_wse L e w = Inr w' \<and> wf_writer w' \<and> stream w' = stream w @ sealed L (framed L e)"
proof -
  let ?w1 = "ensure_freebuff_for L e w"
  note w1 = ensure_for_ok(1)[OF assms]
  have "room (5 + ByteSize L e + 5) ?w1" using w1 by (auto intro: room_less)
  then obtain w2 where w2: "write_unchecked_obj L e ?w1 = Inr w2" "extended (framed L e) 5 ?w1 w2"
    using write_obj_ok[OF assms(1,2), of ?w1 5] w1 by blast
  have seg: "take (unat (data_offset w2)) (data w2) = take (unat (data_offset ?w1)) (data ?w1) @ framed L e"
    using w2(2) unfolding extended_def buffered_def by blast
  have "length (take (unat (data_offset ?w1)) (data ?w1)) = unat (data_offset ?w1)" using w1 by (simp add: wf_writer_def)
  then have "drop (unat (data_offset ?w1)) (take (unat (data_offset w2)) (data w2)) = framed L e" by (simp add: seg)
  then have buf: "take (unat (data_offset w2) - unat (data_offset ?w1)) (drop (unat (data_offset ?w1)) (data w2)) = framed L e"
    by (simp add: drop_take)
  obtain a where a: "chksum L (framed L e) (reset L) = Inr (csum_of L (framed L e), a)" "unat a < 2 ^ 32"
    using chksum_ok[OF assms(1) reset_bound[OF assms(1)]] unfolding csum_of_def by blast
  obtain w5 where "write_unchecked L (csum_of L (framed L e)) (w2\<lparr>adler := a\<rparr>) = Inr w5" "wf_writer w5"
    "stream w5 = stream w2 @ WriteVarint32ToArray L (csum_of L (framed L e))"
    using write_sum_ok[OF assms(1) extendedD(1,2)[OF w2(2)] a(2)] by blast
  then show ?thesis
    using w2(1) extendedD(3)[OF w2(2)] w1 buf a(1) by (intro exI[of _ w5]) (simp add: append_wse_def Let_def sealed_def)
qed

lemma append_all_ok:
  assumes "formats_ok L" and "\<forall>e\<in>set es. fits_message L e" and "wf_writer w"
  shows "\<exists>w'. append_all L es w = Inr w' \<and> wf_writer w' \<and> stream w' = stream w @ concat (map (\<lambda>e. sealed L (framed L e)) es)"
  using assms(2,3)
proof (induction es arbitrary: w)
  case (Cons e es)
  obtain w1 where "append_wse L e w = Inr w1" "wf_writer w1" "stream w1 = stream w @ sealed L (framed L e)"
    using append_wse_ok[OF assms(1) _ Cons.prems(2), of e] Cons.prems(1) by auto
  then show ?case using Cons.IH[of w1] Cons.prems(1) by auto
qed simp

lemma write_profile_ok:
  assumes "formats_ok L" and "\<forall>m\<in>set (rh # es). fits_message L m"
  shows "write_profile L V rh es =
    Inr (sealed L (WriteVarint32ToArray L V @ framed L rh) @ concat (map (\<lambda>e. sealed L (framed L e)) es))"
proof -
  obtain w1 where w1: "write_header L V rh (new_profile_writer L) = Inr w1" "wf_writer w1"
    "stream w1 = sealed L (WriteVarint32ToArray L V @ framed L rh)"
    using write_header_ok[OF assms(1), of rh V] assms(2) by auto
  obtain w2 where w2: "append_all L es w1 = Inr w2" "stream w2 = stream w1 @ concat (map (\<lambda>e. sealed L (framed L e)) es)"
    using append_all_ok[OF assms(1) _ w1(2), of es] assms(2) by auto
  have "delete_profile_writer w2 = stream w2" by (simp add: delete_profile_writer_def flush_def stream_def)
  then show ?thesis using w1(1,3) w2 by (simp add: write_profile_def)
qed

subsection \<open>Reading a profile\<close>

record 'm parser =
  ReadVarint32 :: "byte list \<Rightarrow> (u32 \<times> byte list) option"
  ParseFromArray :: "byte list \<Rightarrow> 'm option"

definition parser_ok :: "'m formats \<Rightarrow> 'm parser \<Rightarrow> bool" where
  "parser_ok L R \<longleftrightarrow> (\<forall>v r. ReadVarint32 R (WriteVarint32ToArray L v @ r) = Some (v, r)) \<and>
     (\<forall>m bs. SerializeToArray L m = Some bs \<longrightarrow> ParseFromArray R bs = Some m)"

definition read_framed :: "'m parser \<Rightarrow> byte list \<Rightarrow> ('m \<times> byte list) option" where
  "read_framed R bs = (case ReadVarint32 R bs of
      None \<Rightarrow> None
    | Some (n, r) \<Rightarrow> if length r < unat n then None
        else map_option (\<lambda>m. (m, drop (unat n) r)) (ParseFromArray R (take (unat n) r)))"

definition read_head :: "'m parser \<Rightarrow> byte list \<Rightarrow> ((u32 \<times> 'm) \<times> byte list) option" where
  "read_head R bs = (case ReadVarint32 R bs of
      None \<Rightarrow> None
    | Some (v, r) \<Rightarrow> map_option (\<lambda>(m, r1). ((v, m), r1)) (read_framed R r))"

text \<open>Reads something and compares the checksum behind it with that of the bytes read.\<close>

definition checked :: "'m formats \<Rightarrow> 'm parser \<Rightarrow> (byte list \<Rightarrow> ('x \<times> byte list) option) \<Rightarrow> byte list \<Rightarrow> ('x \<times> byte list) option" where
  "checked L R rd bs = (case rd bs of
      None \<Rightarrow> None
    | Some (x, r) \<Rightarrow> (case ReadVarint32 R r of
        None \<Rightarrow> None
      | Some (c, r1) \<Rightarrow> if c = csum_of L (take (length bs - length r) bs) then Some (x, r1) else None))"

fun read_samples :: "nat \<Rightarrow> 'm formats \<Rightarrow> 'm parser \<Rightarrow> byte list \<Rightarrow> 'm list option" where
  "read_samples 0 L R bs = None"
| "read_samples (Suc n) L R bs =
     (if bs = [] then Some []
      else case checked L R (read_framed R) bs of
        None \<Rightarrow> None
      | Some (e, r) \<Rightarrow> map_option (\<lambda>es. e # es) (read_samples n L R r))"

text \<open>Every sample takes a byte or more, so the length of the file is fuel enough.\<close>

definition read_profile :: "'m formats \<Rightarrow> 'm parser \<Rightarrow> byte list \<Rightarrow> (u32 \<times> 'm \<times> 'm list) option" where
  "read_profile L R bs = (case checked L R (read_head R) bs of
      None \<Rightarrow> None
    | Some ((v, m), r) \<Rightarrow> map_option (\<lambda>es. (v, m, es)) (read_samples (Suc (length r)) L R r))"

lemma read_framed_ok:
  assumes "formats_ok L" and "parser_ok L R" and "fits_message L v"
  shows "read_framed R (framed L v @ r) = Some (v, r)"
proof -
  obtain bs where bs: "SerializeToArray L v = Some bs" "length bs = ByteSize L v" "ByteSize L v \<le> 2 ^ 30"
    using assms(1,3) unfolding fits_message_def formats_ok_def by (cases "SerializeToArray L v") auto
  have "ByteSize L v < 2 ^ 32" using bs(3) by simp
  then have "unat (word_of_nat (ByteSize L v) :: u32) = length bs" by (simp add: unat_of_nat bs(2))
  then show ?thesis using assms(2) bs(1) by (simp add: read_framed_def framed_def parser_ok_def)
qed

lemma check_passes:
  assumes "parser_ok L R" and "\<And>r. rd (bs @ r) = Some (x, r)"
  shows "checked L R rd (sealed L bs @ r) = Some (x, r)"
  using assms by (simp add: checked_def sealed_def parser_ok_def)

lemma read_samples_ok:
  assumes "formats_ok L" and "parser_ok L R"
  shows "\<forall>e\<in>set es. fits_message L e \<Longrightarrow> length es < n \<Longrightarrow>
    read_samples n L R (concat (map (\<lambda>e. sealed L (framed L e)) es)) = Some es"
proof (induction es arbitrary: n)
  case Nil
  then show ?case by (cases n) simp_all
next
  case (Cons e es)
  then obtain k where k: "n = Suc k" "length es < k" by (cases n) auto
  have "framed L e \<noteq> []" using varint_length[OF assms(1), of "word_of_nat (ByteSize L e)"] by (auto simp: framed_def)
  moreover have "checked L R (read_framed R) (sealed L (framed L e) @ concat (map (\<lambda>e. sealed L (framed L e)) es)) =
      Some (e, concat (map (\<lambda>e. sealed L (framed L e)) es))"
    using Cons.prems(1) by (intro check_passes[OF assms(2)]) (simp add: read_framed_ok[OF assms])
  ultimately show ?case using Cons.IH[OF _ k(2)] Cons.prems(1) k(1) by (simp add: sealed_def)
qed

lemma samples_length: "formats_ok L \<Longrightarrow> length es \<le> length (concat (map (\<lambda>e. sealed L (framed L e)) es))"
proof (induction es)
  case (Cons e es)
  then show ?case using varint_length[OF Cons.prems, of "csum_of L (framed L e)"] by (simp add: sealed_def)
qed simp

subsection \<open>The formats as they are documented\<close>

text \<open>Varints are little-endian groups of seven bits; the top bit of a byte says that another follows.\<close>

fun leb128 :: "nat \<Rightarrow> byte list" where
  "leb128 n = (if n < 128 then [word_of_nat n] else word_of_nat (n mod 128 + 128) # leb128 (n div 128))"

declare leb128.simps [simp del]

fun unleb128 :: "byte list \<Rightarrow> (nat \<times> byte list) option" where
  "unleb128 [] = None"
| "unleb128 (b # bs) =
     (if unat b < 128 then Some (unat b, bs)
      else map_option (\<lambda>(v, r). (unat b - 128 + 128 * v, r)) (unleb128 bs))"

lemma unleb128_leb128: "unleb128 (leb128 n @ r) = Some (n, r)"
proof (induction n rule: leb128.induct)
  case (1 n)
  show ?case
  proof (cases "n < 128")
    case True
    then show ?thesis by (subst leb128.simps) (simp add: unat_of_nat)
  next
    case False
    have "n mod 128 + 128 < 256" using mod_less_divisor[of 128 n] by simp
    then have "unat (word_of_nat (n mod 128 + 128) :: byte) = n mod 128 + 128" by (simp add: unat_of_nat del: of_nat_add)
    then show ?thesis using 1 False by (subst leb128.simps) (simp del: of_nat_add)
  qed
qed

lemma length_leb128: "n < 128 ^ Suc k \<Longrightarrow> 1 \<le> length (leb128 n) \<and> length (leb128 n) \<le> Suc k"
proof (induction k arbitrary: n)
  case 0
  then show ?case by (subst leb128.simps, subst (2) leb128.simps) simp
next
  case (Suc k)
  then have "n div 128 < 128 ^ Suc k" by (simp add: less_mult_imp_div_less)
  then show ?case using Suc.IH[of "n div 128"] by (subst leb128.simps, subst (2) leb128.simps) simp
qed

text \<open>Adler-32: the sum of the bytes and the sum of these sums, modulo 65521, in the halves of a word.\<close>

definition adler_step :: "nat \<times> nat \<Rightarrow> byte \<Rightarrow> nat \<times> nat" where
  "adler_step = (\<lambda>(x, y) b. let x1 = (x + unat b) mod 65521 in (x1, (y + x1) mod 65521))"

definition adler_sum :: "u64 \<Rightarrow> byte list \<Rightarrow> u64" where
  "adler_sum a bs =
     (case foldl adler_step (unat a mod 65536, unat a div 65536 mod 65536) bs of (x, y) \<Rightarrow> word_of_nat (y * 65536 + x))"

lemma adler_sum_bound: "unat (adler_sum a bs) < 2 ^ 32"
proof -
  define s where "s = foldl adler_step (unat a mod 65536, unat a div 65536 mod 65536) bs"
  have "fst (foldl adler_step p cs) < 65536 \<and> snd (foldl adler_step p cs) < 65536" if "fst p < 65536 \<and> snd p < 65536" for p cs
    using that
  proof (induction cs arbitrary: p)
    case (Cons c cs)
    have "fst (adler_step p c) < 65536 \<and> snd (adler_step p c) < 65536"
      using mod_less_divisor[of 65521] by (auto simp: adler_step_def Let_def split: prod.split intro: order.strict_trans)
    then show ?case using Cons.IH by simp
  qed simp
  then have "fst s < 65536" "snd s < 65536" by (simp_all add: s_def)
  moreover have "unat (adler_sum a bs) = (snd s * 65536 + fst s) mod 2 ^ 64"
    by (simp add: adler_sum_def s_def[symmetric] unat_of_nat split: prod.split del: of_nat_add of_nat_mult)
  moreover have "(snd s * 65536 + fst s) mod 2 ^ 64 \<le> snd s * 65536 + fst s" by simp
  ultimately show ?thesis by simp
qed

definition raw_formats :: "(byte list) formats" where
  "raw_formats = \<lparr>ByteSize = length, SerializeToArray = Some, WriteVarint32ToArray = (\<lambda>v. leb128 (unat v)),
     adler32 = (\<lambda>a bs. case bs of None \<Rightarrow> 1 | Some b \<Rightarrow> adler_sum a b), fresh_bytes = (\<lambda>n. replicate n 0)\<rparr>"

definition raw_parser :: "(byte list) parser" where
  "raw_parser = \<lparr>ReadVarint32 = (\<lambda>bs. map_option (\<lambda>(n, r). (word_of_nat n, r)) (unleb128 bs)), ParseFromArray = Some\<rparr>"

lemma varint_bounds: "1 \<le> length (leb128 (unat (v :: u32))) \<and> length (leb128 (unat v)) \<le> 5"
proof -
  have "unat v < 2 ^ 32" using unsigned_less[of v] by simp
  then have "unat v < 128 ^ Suc 4" by simp
  from length_leb128[OF this] show ?thesis by simp
qed

lemma raw_formats_ok: "formats_ok raw_formats"
  using varint_bounds adler_sum_bound by (simp add: formats_ok_def raw_formats_def)

lemma raw_parser_ok: "parser_ok raw_formats raw_parser"
  by (simp add: parser_ok_def raw_formats_def raw_parser_def unleb128_leb128)

subsection \<open>Properties\<close>

text \<open>
  C30: What the profile writer writes can be read back. Writing a header and any samples, each up to a gigabyte and serializable, never
  leaves the buffer nor fails an assertion, however often the buffer is flushed or replaced on the way; and a reader that
  knows the formats gets the version, the header and the samples, with every checksum right.
\<close>

theorem profile_round_trip:
  assumes "formats_ok L" and "parser_ok L R" and "\<forall>m\<in>set (rh # es). fits_message L m"
  shows "\<exists>bs. write_profile L V rh es = Inr bs \<and> read_profile L R bs = Some (V, rh, es)"
proof -
  let ?s = "concat (map (\<lambda>e. sealed L (framed L e)) es)"
  have "read_head R ((WriteVarint32ToArray L V @ framed L rh) @ r) = Some ((V, rh), r)" for r
    using read_framed_ok[OF assms(1,2), of rh r] assms(2,3) by (simp add: read_head_def parser_ok_def)
  from check_passes[OF assms(2) this]
  have "checked L R (read_head R) (sealed L (WriteVarint32ToArray L V @ framed L rh) @ ?s) = Some ((V, rh), ?s)" .
  moreover have "read_samples (Suc (length ?s)) L R ?s = Some es"
    using samples_length[OF assms(1), of es] assms(3) by (intro read_samples_ok[OF assms(1,2)]) auto
  ultimately show ?thesis using write_profile_ok[OF assms(1,3), of V] by (simp add: read_profile_def)
qed

theorem profile_round_trip_witness:
  "\<exists>bs. write_profile raw_formats 1 [7] [[1, 2], []] = Inr bs \<and> read_profile raw_formats raw_parser bs = Some (1, [7], [[1, 2], []])"
  using profile_round_trip[OF raw_formats_ok raw_parser_ok, of "[7]" "[[1, 2], []]" 1]
  by (simp add: fits_message_def raw_formats_def)

text \<open>
  Doubling the size of the buffer wraps round in 32 bits. A message of 64 bytes less than two gigabytes or more, which is still
  legal, gets a buffer of at most 126 bytes, and is written beyond its end.
\<close>

theorem huge_message_overflows_buffer:
  assumes "formats_ok L" and "wf_writer w" and "data_capacity w = BUFF_SZ"
    and "SerializeToArray L e = Some bs" and "2 ^ 31 - 64 \<le> ByteSize L e" and "ByteSize L e < 2 ^ 31"
  shows "append_wse L e w = Inl Out_Of_Bounds"
proof -
  let ?n = "ByteSize L e" and ?w1 = "ensure_freebuff_for L e w"
  have off: "unat (data_offset w) \<le> 65535" using assms(2,3) by (simp add: wf_writer_def BUFF_SZ_def)
  have min: "unat (word_of_nat ?n + MIN_FREE_BUFF) = ?n + 64"
    using assms(5,6) by (simp add: unat_word_ariths unat_of_nat MIN_FREE_BUFF_def)
  have sum: "unat (data_offset w + (word_of_nat ?n + MIN_FREE_BUFF)) = unat (data_offset w) + (?n + 64)"
    unfolding unat_word_ariths(1)[of "data_offset w"] min using assms(6) off by simp
  have "unat ((word_of_nat ?n + MIN_FREE_BUFF) * 2) = (?n + 64) * 2 mod 2 ^ 32"
    unfolding unat_word_ariths(2)[of _ 2] min by simp
  also have "\<dots> = (?n + 64) * 2 - 2 ^ 32" using assms(5,6) by (simp add: le_mod_geq)
  finally have cap: "unat ((word_of_nat ?n + MIN_FREE_BUFF) * 2) = (?n + 64) * 2 - 2 ^ 32" .
  have "data_offset w + (word_of_nat ?n + MIN_FREE_BUFF) > data_capacity w" "word_of_nat ?n + MIN_FREE_BUFF > data_capacity w"
    using assms(5) by (simp_all only: word_less_nat_alt sum min assms(3)) (simp_all add: BUFF_SZ_def)
  then have w1: "length (data ?w1) = (?n + 64) * 2 - 2 ^ 32"
    using assms(1) cap by (simp add: ensure_freebuff_for_def ensure_freebuff_def flush_def Let_def formats_ok_def)
  have big: "length bs = ?n" using assms(1,4) by (simp add: formats_ok_def)
  have "write_unchecked_obj L e ?w1 = Inl Out_Of_Bounds"
  proof (cases "write_unchecked L (word_of_nat ?n) ?w1")
    case (Inl x)
    then show ?thesis by (simp add: write_unchecked_obj_def write_unchecked_def store_def Let_def split: if_splits)
  next
    case (Inr w2)
    then have "length (data w2) = length (data ?w1)"
      by (auto simp: write_unchecked_def store_def Let_def split: if_splits)
    then have "length (data w2) < length bs" using w1 big assms(5,6) by simp
    then have "store bs w2 = Inl Out_Of_Bounds" by (simp add: store_def Let_def)
    then show ?thesis using Inr assms(4) by (simp add: write_unchecked_obj_def)
  qed
  then show ?thesis by (simp add: append_wse_def Let_def)
qed

definition zero_formats :: "nat formats" where
  "zero_formats = \<lparr>ByteSize = (\<lambda>n. n), SerializeToArray = (\<lambda>n. Some (replicate n 0)), WriteVarint32ToArray = (\<lambda>v. leb128 (unat v)),
     adler32 = (\<lambda>a bs. case bs of None \<Rightarrow> 1 | Some b \<Rightarrow> adler_sum a b), fresh_bytes = (\<lambda>n. replicate n 0)\<rparr>"

theorem huge_message_overflows_buffer_witness:
  "append_wse zero_formats 2147483600 (new_profile_writer zero_formats) = Inl Out_Of_Bounds"
proof -
  have ok: "formats_ok zero_formats" using varint_bounds adler_sum_bound by (simp add: formats_ok_def zero_formats_def)
  have "data_capacity (new_profile_writer zero_formats) = BUFF_SZ" by (simp add: new_profile_writer_def)
  moreover have "SerializeToArray zero_formats 2147483600 = Some (replicate 2147483600 0)" "ByteSize zero_formats 2147483600 = 2147483600"
    by (simp_all only: zero_formats_def formats.simps)
  moreover have "wf_writer (new_profile_writer zero_formats)" using new_profile_writer_ok[OF ok] by blast
  ultimately show ?thesis using huge_message_overflows_buffer[OF ok] by simp
qed

end
