(* ===== verification/Jvm_Glue.thy ===== *)
theory Jvm_Glue
  imports Base
begin

text \<open>
  The recorder's dealings with the JVM that are about resources: the blocks of memory that JVMTI hands out and
  \<open>JvmtiScopedPtr\<close> (\<^verbatim>\<open>globals.h\<close>) gives back, in every function that has such a pointer, and the JNI helpers of
  \<^verbatim>\<open>common.cpp\<close>. What these functions compute is the matter of other theories; here it is what they leave allocated.

  JVMTI allocates at an address of its choice that is not in use (\<open>fresh_spec\<close>). A call that fails returns an error code; the specification
  leaves the out parameter undefined then, so a refusal carries what it has stored there, if anything.
\<close>

datatype reply = Granted | Refused jint "addr option"

definition JVMTI_ERROR_NONE :: jint where "JVMTI_ERROR_NONE = 0"
definition JVMTI_ERROR_CLASS_NOT_PREPARED :: jint where "JVMTI_ERROR_CLASS_NOT_PREPARED = 22"

definition fresh_spec :: "(addr set \<Rightarrow> addr) \<Rightarrow> bool" where
  "fresh_spec F \<longleftrightarrow> (\<forall>live. finite live \<longrightarrow> F live \<notin> live)"

fun reply_ok :: "reply \<Rightarrow> bool" where
  "reply_ok Granted = True"
| "reply_ok (Refused e g) = (e \<noteq> JVMTI_ERROR_NONE)"

text \<open>A refusal that leaves the out parameter as it was.\<close>

fun untouched :: "reply \<Rightarrow> bool" where
  "untouched Granted = True"
| "untouched (Refused e g) = (g = None)"

subsection \<open>\<open>JvmtiScopedPtr\<close>\<close>

text \<open>
  The field \<open>ref_\<close> with the blocks in use. \<open>GetRef\<close> asserts that the pointer is null; the call that gets the reference
  then stores into it.
\<close>

definition call_into :: "(addr set \<Rightarrow> addr) \<Rightarrow> reply \<Rightarrow> addr option \<Rightarrow> addr set \<Rightarrow> (jint \<times> addr option \<times> addr set) result" where
  "call_into F r ref live =
     (if ref \<noteq> None then Inl Assertion_Failed
      else case r of
        Granted \<Rightarrow> Inr (JVMTI_ERROR_NONE, Some (F live), insert (F live) live)
      | Refused e g \<Rightarrow> Inr (e, g, live))"

definition AbandonBecauseOfError :: "addr option \<Rightarrow> addr option" where
  "AbandonBecauseOfError ref = None"

text \<open>The destructor. To deallocate what is not a block in use is undefined.\<close>

definition delete_scoped :: "addr option \<Rightarrow> addr set \<Rightarrow> addr set result" where
  "delete_scoped ref live =
     (case ref of None \<Rightarrow> Inr live | Some a \<Rightarrow> if a \<in> live then Inr (live - {a}) else Inl Use_After_Free)"

subsection \<open>The functions that have scoped pointers\<close>

definition CreateJMethodIDsForClass :: "(addr set \<Rightarrow> addr) \<Rightarrow> reply \<times> reply \<Rightarrow> addr set \<Rightarrow> addr set result" where
  "CreateJMethodIDsForClass F rs live = (case rs of (GetClassMethods, GetClassSignature) \<Rightarrow>
     and_then (call_into F GetClassMethods None live) (\<lambda>(e, methods, l1).
     and_then
       (if e \<noteq> JVMTI_ERROR_NONE \<and> e \<noteq> JVMTI_ERROR_CLASS_NOT_PREPARED then
          and_then (call_into F GetClassSignature None l1) (\<lambda>(e2, ksig, l2).
            delete_scoped (if e2 \<noteq> JVMTI_ERROR_NONE then AbandonBecauseOfError ksig else ksig) l2)
        else Inr l1)
       (delete_scoped methods)))"

text \<open>The loop of \<open>OnVMInit\<close> over the classes, and the part of \<open>OnVMInit\<close> around it.\<close>

fun for_classes :: "(addr set \<Rightarrow> addr) \<Rightarrow> (reply \<times> reply) list \<Rightarrow> addr set \<Rightarrow> addr set result" where
  "for_classes F [] live = Inr live"
| "for_classes F (c # cs) live = and_then (CreateJMethodIDsForClass F c live) (for_classes F cs)"

definition prime_classes :: "(addr set \<Rightarrow> addr) \<Rightarrow> reply \<Rightarrow> (reply \<times> reply) list \<Rightarrow> addr set \<Rightarrow> addr set result" where
  "prime_classes F GetLoadedClasses cs live =
     and_then (call_into F GetLoadedClasses None live) (\<lambda>(e, classes, l1).
       if e \<noteq> JVMTI_ERROR_NONE then delete_scoped classes l1
       else and_then (for_classes F cs l1) (delete_scoped classes))"

text \<open>\<open>lookupFrameInformation\<close> (\<^verbatim>\<open>profiler.cpp\<close>); \<open>declared\<close> is what \<open>GetMethodDeclaringClass\<close> returns.\<close>

definition lookup_blocks :: "(addr set \<Rightarrow> addr) \<Rightarrow> reply \<Rightarrow> jint \<Rightarrow> reply \<Rightarrow> reply \<Rightarrow> addr set \<Rightarrow> addr set result" where
  "lookup_blocks F GetMethodName declared GetClassSignature GetSourceFileName live =
     and_then (call_into F GetMethodName None live) (\<lambda>(e1, methodName, l1).
       if e1 \<noteq> JVMTI_ERROR_NONE then delete_scoped (AbandonBecauseOfError methodName) l1
       else if declared \<noteq> JVMTI_ERROR_NONE then delete_scoped methodName l1
       else and_then (call_into F GetClassSignature None l1) (\<lambda>(e2, signature_ptr2, l2).
         if e2 \<noteq> JVMTI_ERROR_NONE
         then and_then (delete_scoped (AbandonBecauseOfError signature_ptr2) l2) (delete_scoped methodName)
         else and_then (call_into F GetSourceFileName None l2) (\<lambda>(e3, source_name_ptr, l3).
           and_then (delete_scoped (if e3 \<noteq> JVMTI_ERROR_NONE then AbandonBecauseOfError source_name_ptr else source_name_ptr) l3) (\<lambda>l4.
           and_then (delete_scoped signature_ptr2 l4) (delete_scoped methodName)))))"

text \<open>\<open>LogWriter::getLineNo\<close>.\<close>

definition line_blocks :: "(addr set \<Rightarrow> addr) \<Rightarrow> jint \<Rightarrow> reply \<Rightarrow> addr set \<Rightarrow> addr set result" where
  "line_blocks F bci GetLineNumberTable live =
     (if sint bci \<le> 0 then Inr live
      else and_then (call_into F GetLineNumberTable None live) (\<lambda>(e, jvmti_table, l1).
        delete_scoped (if e \<noteq> JVMTI_ERROR_NONE then AbandonBecauseOfError jvmti_table else jvmti_table) l1))"

text \<open>\<open>OnThreadStart\<close>: the name in \<open>thread_info\<close> is a block of JVMTI too; the structure has no destructor.\<close>

definition thread_start_blocks :: "(addr set \<Rightarrow> addr) \<Rightarrow> bool \<Rightarrow> addr set \<Rightarrow> addr set" where
  "thread_start_blocks F GetThreadInfo live = (if GetThreadInfo then insert (F live) live else live)"

subsection \<open>JNI helpers\<close>

definition JNI_EDETACHED :: jint where "JNI_EDETACHED = -2"
definition JNI_EVERSION :: jint where "JNI_EVERSION = -3"

text \<open>\<open>GetEnv\<close> returns a status and stores an environment, if any.\<close>

definition getJNIEnv :: "jint \<Rightarrow> u64 option \<Rightarrow> u64 option" where
  "getJNIEnv getEnvStat jniEnv = (if getEnvStat = JNI_EDETACHED \<or> getEnvStat = JNI_EVERSION then None else jniEnv)"

text \<open>
  \<open>newThread\<close>: the class, its constructor, the object and its method \<open>setName\<close> as JNI finds them. JNI functions must not be
  given a null class or method.
\<close>

definition newThread :: "addr option \<Rightarrow> addr option \<Rightarrow> addr option \<Rightarrow> addr option \<Rightarrow> addr option result" where
  "newThread thrClass cid res mid =
     (if thrClass = None then Inl Null_Deref
      else if cid = None then Inl Null_Deref
      else if res = None then Inr None
      else if mid = None then Inl Null_Deref
      else Inr res)"

subsection \<open>What is given back\<close>

lemma delete_scoped_simps [simp]:
  "delete_scoped None live = Inr live" "a \<in> live \<Longrightarrow> delete_scoped (Some a) live = Inr (live - {a})"
  "AbandonBecauseOfError ref = None"
  by (simp_all add: delete_scoped_def AbandonBecauseOfError_def)

lemma call_into_simps [simp]:
  "call_into F Granted None live = Inr (JVMTI_ERROR_NONE, Some (F live), insert (F live) live)"
  "call_into F (Refused e g) None live = Inr (e, g, live)"
  by (simp_all add: call_into_def)

lemma freshD: "fresh_spec F \<Longrightarrow> finite live \<Longrightarrow> F live \<notin> live"
  by (simp add: fresh_spec_def)

lemma line_blocks_returned:
  "fresh_spec F \<Longrightarrow> finite live \<Longrightarrow> reply_ok r \<Longrightarrow> line_blocks F bci r live = Inr live"
  by (cases r) (auto simp: line_blocks_def dest: freshD)

lemma lookup_blocks_returned:
  assumes "fresh_spec F" and "finite live" and "reply_ok n" and "reply_ok s" and "reply_ok f"
  shows "lookup_blocks F n declared s f live = Inr live"
proof -
  let ?l1 = "insert (F live) live" and ?l2 = "insert (F (insert (F live) live)) (insert (F live) live)"
  have "F live \<notin> live" "F ?l1 \<notin> ?l1" "F ?l2 \<notin> ?l2" using freshD[OF assms(1)] assms(2) by (metis finite_insert)+
  then show ?thesis using assms(3-5)
    by (cases n; cases s; cases f) (auto simp: lookup_blocks_def insert_Diff_if)
qed

lemma create_blocks_returned:
  assumes "fresh_spec F" and "finite live" and "reply_ok (fst rs)" and "reply_ok (snd rs)" and "untouched (fst rs)"
  shows "CreateJMethodIDsForClass F rs live = Inr live"
proof -
  have "F live \<notin> live" using freshD[OF assms(1,2)] .
  then show ?thesis using assms(3-5)
    by (cases rs; cases "fst rs"; cases "snd rs") (auto simp: CreateJMethodIDsForClass_def)
qed

lemma for_classes_returned:
  assumes "fresh_spec F" and "finite live" and "\<forall>c\<in>set cs. reply_ok (fst c) \<and> reply_ok (snd c) \<and> untouched (fst c)"
  shows "for_classes F cs live = Inr live"
  using assms(3) by (induction cs) (simp_all add: create_blocks_returned[OF assms(1,2)])

text \<open>
  C40: The blocks JVMTI hands out are given back. Whatever the JVM answers, describing a method and looking up a line leave the blocks
  in use as they were, each block being deallocated once; so does the preparation of the classes when calls that fail leave their out
  parameter alone. What is never given back is the name of a thread: every thread that starts leaves a block behind.
\<close>

theorem jvmti_blocks_returned:
  assumes "fresh_spec F" and "finite live" and "reply_ok n" and "reply_ok s" and "reply_ok f"
    and "\<forall>c\<in>set cs. reply_ok (fst c) \<and> reply_ok (snd c) \<and> untouched (fst c)"
  shows "lookup_blocks F n declared s f live = Inr live \<and> line_blocks F bci n live = Inr live \<and>
    (untouched n \<longrightarrow> prime_classes F n cs live = Inr live) \<and>
    card ((thread_start_blocks F True ^^ k) live) = card live + k"
proof -
  have "prime_classes F n cs live = Inr live" if "untouched n"
  proof (cases n)
    case Granted
    have "for_classes F cs (insert (F live) live) = Inr (insert (F live) live)"
      by (rule for_classes_returned[OF assms(1) _ assms(6)]) (use assms(2) in simp)
    then show ?thesis using Granted freshD[OF assms(1,2)] by (simp add: prime_classes_def)
  qed (use that assms(3) in \<open>simp add: prime_classes_def\<close>)
  moreover have "finite ((thread_start_blocks F True ^^ k) live) \<and> card ((thread_start_blocks F True ^^ k) live) = card live + k"
    by (induction k) (use assms(2) freshD[OF assms(1)] in \<open>simp_all add: thread_start_blocks_def\<close>)
  ultimately show ?thesis
    using lookup_blocks_returned[OF assms(1-5)] line_blocks_returned[OF assms(1-3)] by simp
qed

definition next_block :: "addr set \<Rightarrow> addr" where
  "next_block live = (if live = {} then 1 else Suc (Max live))"

lemma next_block_fresh: "fresh_spec next_block"
  unfolding fresh_spec_def next_block_def by (metis Max_ge Suc_n_not_le_n empty_iff)

theorem jvmti_blocks_returned_witness:
  "lookup_blocks next_block Granted 0 Granted (Refused 101 None) {5} = Inr {5} \<and>
   prime_classes next_block Granted [(Granted, Granted), (Refused 112 None, Granted)] {5} = Inr {5}"
  using jvmti_blocks_returned[OF next_block_fresh, of "{5}" Granted Granted "Refused 101 None"
      "[(Granted, Granted), (Refused 112 None, Granted)]" 0 0 0]
  by (simp add: JVMTI_ERROR_NONE_def)

text \<open>
  \<open>CreateJMethodIDsForClass\<close> and \<open>OnVMInit\<close> do not abandon their pointer when the call fails, as the other functions do: if
  the call has stored something there, it is deallocated.
\<close>

theorem refused_call_frees_garbage:
  assumes "a \<notin> live" and "e \<noteq> JVMTI_ERROR_NONE"
  shows "prime_classes F (Refused e (Some a)) cs live = Inl Use_After_Free"
    and "CreateJMethodIDsForClass F (Refused JVMTI_ERROR_CLASS_NOT_PREPARED (Some a), s) live = Inl Use_After_Free"
  using assms by (simp_all add: prime_classes_def CreateJMethodIDsForClass_def delete_scoped_def)

text \<open>\<open>newThread\<close> warns about a class or a constructor it cannot find, and uses it all the same.\<close>

theorem newThread_returns_iff:
  "(\<exists>r. newThread thrClass cid res mid = Inr r) \<longleftrightarrow> thrClass \<noteq> None \<and> cid \<noteq> None \<and> (res \<noteq> None \<longrightarrow> mid \<noteq> None)"
  by (auto simp: newThread_def)

end
