(* ===== verification/Trace_Counters.thy ===== *)
theory Trace_Counters
  imports Base "HOL-Library.Multiset"
begin

text \<open>
  The debug counters of \<^verbatim>\<open>trace.h\<close>, as they are when \<open>ENABLE_TRACING\<close> is defined, and the three groups of the recorder:
  \<open>LFMap\<close> (\<^verbatim>\<open>concurrent_map.cpp\<close>), \<open>Profiler\<close> (\<^verbatim>\<open>profiler.cpp\<close>) and \<open>Processor\<close> (\<^verbatim>\<open>processor.cpp\<close>). A counter is an
  atomic \<open>int\<close>, whose increment wraps round. Without \<open>ENABLE_TRACING\<close> a trace point does nothing. What the code prints is a list of lines.
\<close>

record counter =
  number :: jint
  str :: string

record trace_group =
  m_name :: string
  m_counters :: "counter list"
  m_numCounters :: nat

datatype printed = Heading string | Counted string jint

definition counter_at :: "trace_group \<Rightarrow> nat \<Rightarrow> counter result" where
  "counter_at g i = (if i < length (m_counters g) then Inr (m_counters g ! i) else Inl Out_Of_Bounds)"

definition trace_at :: "nat \<Rightarrow> trace_group \<Rightarrow> trace_group result" where
  "trace_at i g = and_then (counter_at g i) (\<lambda>c.
     Inr (g\<lparr>m_counters := (m_counters g)[i := c\<lparr>number := number c + 1\<rparr>]\<rparr>))"

text \<open>The loops run from \<open>i\<close> over the \<open>todo\<close> counters that are left.\<close>

fun dump_from :: "trace_group \<Rightarrow> nat \<Rightarrow> nat \<Rightarrow> printed list result" where
  "dump_from g i 0 = Inr []"
| "dump_from g i (Suc todo) =
     and_then (counter_at g i) (\<lambda>c.
     and_then (dump_from g (Suc i) todo) (\<lambda>ls. Inr (Counted (str c) (number c) # ls)))"

definition dump :: "trace_group \<Rightarrow> printed list result" where
  "dump g = and_then (dump_from g 0 (m_numCounters g)) (\<lambda>ls. Inr (Heading (m_name g) # ls))"

fun dump_if_from :: "trace_group \<Rightarrow> nat \<Rightarrow> nat \<Rightarrow> printed list result" where
  "dump_if_from g i 0 = Inr []"
| "dump_if_from g i (Suc todo) =
     and_then (counter_at g i) (\<lambda>c. if number c \<noteq> 0 then dump g else dump_if_from g (Suc i) todo)"

definition dumpIfUsed :: "trace_group \<Rightarrow> printed list result" where
  "dumpIfUsed g = dump_if_from g 0 (m_numCounters g)"

fun reset_from :: "nat \<Rightarrow> nat \<Rightarrow> trace_group \<Rightarrow> trace_group result" where
  "reset_from i 0 g = Inr g"
| "reset_from i (Suc todo) g =
     and_then (counter_at g i) (\<lambda>c.
       reset_from (Suc i) todo (g\<lparr>m_counters := (m_counters g)[i := c\<lparr>number := 0\<rparr>]\<rparr>))"

definition reset_group :: "trace_group \<Rightarrow> trace_group result" where
  "reset_group g = reset_from 0 (m_numCounters g) g"

section \<open>The groups of the recorder\<close>

text \<open>\<open>TRACE_DEFINE_BEGIN\<close>, \<open>TRACE_DEFINE\<close> and \<open>TRACE_DEFINE_END\<close>.\<close>

definition define_group :: "string \<Rightarrow> nat \<Rightarrow> string list \<Rightarrow> trace_group" where
  "define_group group_name num descs =
     \<lparr>m_name = group_name, m_counters = map (\<lambda>d. \<lparr>number = 0, str = d\<rparr>) descs, m_numCounters = num\<rparr>"

definition kTraceLFMapTotal :: nat where "kTraceLFMapTotal = 27"
definition kTraceProfilerTotal :: nat where "kTraceProfilerTotal = 10"
definition kTraceProcessorTotal :: nat where "kTraceProcessorTotal = 3"

definition TraceGroup_LFMap :: trace_group where
  "TraceGroup_LFMap = define_group ''LFMap'' kTraceLFMapTotal [
     ''[LockFreeMapPrimitives::find] Item not found'',
     ''[LockFreeMapPrimitives::find] Item found'',
     ''[LockFreeMapPrimitives::insertOrUpdate] Max number of jumps reached'',
     ''[LockFreeMapPrimitives::insertOrUpdate] Update bucket value'',
     ''[LockFreeMapPrimitives::insertOrUpdate] Update value race detected'',
     ''[LockFreeMapPrimitives::insertOrUpdate] Can'' @ [CHR 0x27] @ ''t allocate a cell, map is too full'',
     ''[LockFreeMapPrimitives::insertOrUpdate] Allocate fresh bucket'',
     ''[LockFreeMapPrimitives::insertOrUpdate] Allocation race detected'',
     ''[LockFreeMapPrimitives::insertOrUpdate] Set bucket value'',
     ''[LockFreeMapPrimitives::insertOrUpdate] Set value race detected'',
     ''[LockFreeMapPrimitives::insertOrUpdate] No empty cell in the neighbourhood'',
     ''[LockFreeMapProvider::remove] Item not found'',
     ''[LockFreeMapProvider::remove] Remove bucket'' @ [CHR 0x27] @ ''s value'',
     ''[LockFreeMapProvider::remove] Remove value race detected (giving up)'',
     ''[LockFreeMapProvider::migrationStart#1] Conflicting migration found'',
     ''[LockFreeMapProvider::migrationStart#2] Conflicting migration found'',
     ''[Migration::run] Can'' @ [CHR 0x27] @ ''t participate in job that already ended'',
     ''[Migration::run] Migration interrupted by end of job'',
     ''[Migration::run] Overflow detected during migration'',
     ''[Migration::run] No more blocks to migrate'',
     ''[Migration::run] Not the last thread'',
     ''[Migration::run] Overflow migration already started'',
     ''[Migration::migrateRange] Unallocated cell migration flag'',
     ''[Migration::migrateRange] Unallocated cell insert race'',
     ''[Migration::migrateRange] Allocated cell value insert race'',
     ''[Migration::migrateRange] Allocated cell migration flag'',
     ''[Migration::migrateRange] Racing erase when migrating allocated bucket'']"

definition TraceGroup_Profiler :: trace_group where
  "TraceGroup_Profiler = define_group ''Profiler'' kTraceProfilerTotal [
     ''start failed'',
     ''start succeeded'',
     ''set sampling interval failed'',
     ''set sampling interval succeeded'',
     ''set stack frames to capture failed'',
     ''set stack frames to capture succeeded'',
     ''set new file failed'',
     ''set new file succeeded'',
     ''stop failed'',
     ''stop succeeded'']"

definition TraceGroup_Processor :: trace_group where
  "TraceGroup_Processor = define_group ''Processor'' kTraceProcessorTotal [
     ''start processor'',
     ''stop processor'',
     ''chech that processor is running'']"

section \<open>What the counters say\<close>

definition wf_group :: "trace_group \<Rightarrow> bool" where
  "wf_group g \<longleftrightarrow> m_numCounters g = length (m_counters g)"

lemma recorder_groups_wf: "wf_group TraceGroup_LFMap" "wf_group TraceGroup_Profiler" "wf_group TraceGroup_Processor"
  by (simp_all add: wf_group_def define_group_def TraceGroup_LFMap_def TraceGroup_Profiler_def TraceGroup_Processor_def
      kTraceLFMapTotal_def kTraceProfilerTotal_def kTraceProcessorTotal_def)

fun trace_all :: "nat list \<Rightarrow> trace_group \<Rightarrow> trace_group result" where
  "trace_all [] g = Inr g"
| "trace_all (i # is) g = and_then (trace_at i g) (trace_all is)"

text \<open>Each counter counts its own events, modulo the width of an \<open>int\<close>.\<close>

lemma trace_all_counts:
  assumes "wf_group g" and "\<forall>i\<in>set is. i < m_numCounters g"
  shows "trace_all is g = Inr (g\<lparr>m_counters := map (\<lambda>j. (m_counters g ! j)\<lparr>number := number (m_counters g ! j)
           + of_nat (count (mset is) j)\<rparr>) [0..<m_numCounters g]\<rparr>)"
  using assms
proof (induction "is" arbitrary: g)
  case Nil
  then show ?case by (auto simp: wf_group_def intro!: trace_group.equality nth_equalityI)
next
  case (Cons i "is")
  let ?g = "g\<lparr>m_counters := (m_counters g)[i := (m_counters g ! i)\<lparr>number := number (m_counters g ! i) + 1\<rparr>]\<rparr>"
  have "trace_at i g = Inr ?g"
    using Cons.prems by (simp add: trace_at_def counter_at_def wf_group_def)
  moreover have "wf_group ?g" "\<forall>i\<in>set is. i < m_numCounters ?g"
    using Cons.prems by (auto simp: wf_group_def)
  note Cons.IH [OF this]
  ultimately show ?case
    using Cons.prems by (auto simp: wf_group_def nth_list_update intro!: nth_equalityI)
qed

text \<open>So the order in which threads reach their trace points does not show.\<close>

lemma trace_order_irrelevant:
  "wf_group g \<Longrightarrow> \<forall>i\<in>set is. i < m_numCounters g \<Longrightarrow> mset is = mset js \<Longrightarrow> trace_all is g = trace_all js g"
  using mset_eq_setD [of "is" js] by (simp add: trace_all_counts)

lemma dump_from_prints:
  "i + todo \<le> length (m_counters g) \<Longrightarrow>
     dump_from g i todo = Inr (map (\<lambda>c. Counted (str c) (number c)) (take todo (drop i (m_counters g))))"
  by (induction todo arbitrary: i) (simp_all add: counter_at_def take_Suc_conv_app_nth Cons_nth_drop_Suc [symmetric])

lemma dump_prints:
  "wf_group g \<Longrightarrow> dump g = Inr (Heading (m_name g) # map (\<lambda>c. Counted (str c) (number c)) (m_counters g))"
  by (simp add: dump_def dump_from_prints wf_group_def)

lemma dump_if_from_prints:
  "i + todo \<le> length (m_counters g) \<Longrightarrow>
     dump_if_from g i todo = (if \<exists>c\<in>set (take todo (drop i (m_counters g))). number c \<noteq> 0 then dump g else Inr [])"
  by (induction todo arbitrary: i) (simp_all add: counter_at_def Cons_nth_drop_Suc [symmetric])

lemma unused_group_is_silent:
  "wf_group g \<Longrightarrow> dumpIfUsed g = (if \<exists>c\<in>set (m_counters g). number c \<noteq> 0 then dump g else Inr [])"
  by (simp add: dumpIfUsed_def dump_if_from_prints wf_group_def)

lemma reset_from_clears:
  "i + todo \<le> length (m_counters g) \<Longrightarrow>
     reset_from i todo g = Inr (g\<lparr>m_counters := take i (m_counters g)
       @ map (\<lambda>c. c\<lparr>number := 0\<rparr>) (take todo (drop i (m_counters g))) @ drop (i + todo) (m_counters g)\<rparr>)"
proof (induction todo arbitrary: i g)
  case (Suc todo)
  let ?g = "g\<lparr>m_counters := (m_counters g)[i := (m_counters g ! i)\<lparr>number := 0\<rparr>]\<rparr>"
  have "reset_from i (Suc todo) g = reset_from (Suc i) todo ?g"
    using Suc.prems by (simp add: counter_at_def)
  with Suc.IH [of "Suc i" ?g] Suc.prems show ?case
    by (simp add: take_Suc_conv_app_nth Cons_nth_drop_Suc [symmetric])
qed simp

lemma reset_group_is_silent:
  assumes "wf_group g"
  obtains g1 where "reset_group g = Inr g1" "dumpIfUsed g1 = Inr []"
proof -
  let ?g = "g\<lparr>m_counters := map (\<lambda>c. c\<lparr>number := 0\<rparr>) (m_counters g)\<rparr>"
  have "reset_group g = Inr ?g"
    using assms by (simp add: reset_group_def reset_from_clears wf_group_def)
  moreover have "dumpIfUsed ?g = Inr []"
    using assms by (simp add: unused_group_is_silent wf_group_def)
  ultimately show thesis by (rule that)
qed

end
