(* ===== verification/Spec2Isabelle.thy ===== *)
theory Spec2Isabelle
  imports Queue_Concurrency Range_Migration Map_Ownership Migration_Concurrency Profiler_Concurrency Agent Profile_Writer Jvm_Glue Trace_Counters
begin

text \<open>
  A verification library for the recorder of fk-prof, a sampling profiler loaded into a JVM as an agent. The code
  modelled is the C++ of \<^verbatim>\<open>recorder/src/main/cpp\<close>; file names below are relative to it.

  \<^bold>\<open>The program.\<close> The JVM loads the library and calls \<open>Agent_OnLoad\<close> (\<^verbatim>\<open>agent.cpp\<close>), which parses the options,
  asks for JVMTI capabilities and events, and builds a \<open>Profiler\<close> and a \<open>Controller\<close>. The profiler
  (\<^verbatim>\<open>profiler.cpp\<close>) owns a log writer, a trace queue, a timer and a processor, and rebuilds them when its settings
  have changed. While it runs, the timer sends SIGPROF; the signal handler takes a stack trace with
  \<open>AsyncGetCallTrace\<close>, looks up the bucket of its thread in the thread map, and pushes both into the queue. The processor,
  a thread of its own, pops the samples, writes them to the log, and draws the next interval of the timer. The controller
  lets a client start, stop and set the profiler over a socket; \<^verbatim>\<open>control.cpp\<close> lets Java do the same.

  \<^bold>\<open>Theories.\<close> In the order of their imports:

  \<^item> \<open>Base\<close>: machine integers, faults, the result type \<open>'a result = fault + 'a\<close>, shared lemmas. A fault is what C++ leaves
    undefined or what ends the process: an access out of bounds, a null pointer, a use after free, signed overflow,
    a failed \<open>assert\<close>, an uninitialised read, a wait nobody can end.
  \<^item> \<open>Stack_Traces\<close>, \<open>Circular_Queue\<close>, \<open>Queue_Interface\<close>, \<open>Queue_Concurrency\<close>: \<^verbatim>\<open>stacktraces.h\<close> and
    \<^verbatim>\<open>circular_queue.h\<close>, \<^verbatim>\<open>circular_queue.cpp\<close>. First \<open>push\<close> and \<open>pop\<close> undisturbed, with the refinement to a bounded
    FIFO (locale \<open>bounded_fifo\<close>); then many producers and one consumer as atomic steps.
  \<^item> \<open>Pointer_Hash\<close>, \<open>Map_Interface\<close>, \<open>Hash_Table\<close>, \<open>Concurrent_Map\<close>: \<^verbatim>\<open>concurrent_map.h\<close> and the hash of
    \<^verbatim>\<open>thread_map.h\<close>, for one thread at a time: the table, its chains, \<open>find\<close> and \<open>insertOrUpdate\<close>; migration to a new
    table; \<open>put\<close>, \<open>get\<close>, \<open>remove\<close> as updates of an abstract map (locale \<open>map_provider\<close>).
    \<open>Table_Concurrency\<close>: insertions, lookups and removals by many threads on one table, with every compare-and-swap.
    \<open>Range_Migration\<close>: \<open>migrateRange\<close> beside them. \<open>Migration_Concurrency\<close>: \<open>Migration::run\<close> by many threads.
    \<open>Map_Ownership\<close>: the tables and migrations on the heap, and their destructors.
    \<open>Map_Reclaim\<close>: the epochs of \<open>map::GC\<close>, for many threads.
  \<^item> \<open>Thread_Bucket\<close>, \<open>Thread_Map\<close>: \<^verbatim>\<open>thread_map.h\<close>, \<^verbatim>\<open>thread_map.cpp\<close>: the reference counted buckets, and the thread map,
    written for any map provider and used with the recorder's.
  \<^item> \<open>Byte_Stream\<close>, \<open>Log_Format\<close>, \<open>Line_Lookup\<close>, \<open>Log_Writer\<close>: \<^verbatim>\<open>log_writer.h\<close>, \<^verbatim>\<open>log_writer.cpp\<close> and
    \<open>lookupFrameInformation\<close> of \<^verbatim>\<open>profiler.cpp\<close>: the bytes of a log, the records, the line of a bytecode index, and
    what a session writes (locale \<open>queue_listener\<close>, the consumer's side of the queue).
    \<open>Profile_Writer\<close>: \<^verbatim>\<open>profile_writer.h\<close> and \<^verbatim>\<open>checksum.cpp\<close>, the newer format with sizes and checksums.
  \<^item> \<open>Signal_Handler\<close>: \<^verbatim>\<open>signal_handler.cpp\<close>, the intervals and the timer. \<open>Processor\<close>: \<^verbatim>\<open>processor.cpp\<close>, where the
    queue, the log and the timer meet (locale \<open>serviced_fifo\<close>).
  \<^item> \<open>C_Strings\<close>, \<open>Configuration\<close>: \<^verbatim>\<open>globals.h\<close> and \<open>parseArguments\<close> of \<^verbatim>\<open>agent.cpp\<close>, with the heap of the strings the
    options own.
  \<^item> \<open>Profiler\<close>: \<^verbatim>\<open>profiler.h\<close>, \<^verbatim>\<open>profiler.cpp\<close>; \<open>Sampler\<close>: its signal handler \<open>handle\<close>, with the thread map and the
    queue; \<open>Profiler_Concurrency\<close>: callers under the spin lock, and handlers beside them.
  \<^item> \<open>Controller\<close>: \<^verbatim>\<open>controller.cpp\<close>. \<open>Agent\<close>: \<^verbatim>\<open>agent.cpp\<close> and \<^verbatim>\<open>control.cpp\<close>, every callback and entry point, and any history
    of them. \<open>Jvm_Glue\<close>: \<^verbatim>\<open>common.cpp\<close> and the owning pointer \<open>JvmtiScopedPtr\<close> of \<^verbatim>\<open>globals.h\<close>, with the blocks that JVMTI lends.
    \<open>Trace_Counters\<close>: the debug counters of \<^verbatim>\<open>trace.h\<close>.

  \<^bold>\<open>State and operations.\<close> A class or struct is a record with the source's fields, an operation a function from its state to
  the state it leaves, inside \<open>result\<close>. Machine integers keep their width (\<open>jint\<close> is \<open>32 word\<close>); comparisons are signed or
  unsigned as in the source. Objects that refer to each other carry numbers, and a reference is such a
  number (\<open>Profiler\<close>); blocks on the heap are partial maps or association lists from addresses
  (\<open>Configuration\<close>, \<open>Thread_Bucket\<close>). Where threads race, a program counter per thread and one step per access to shared data
  (\<open>Queue_Concurrency\<close>, \<open>Table_Concurrency\<close>, \<open>Range_Migration\<close>, \<open>Migration_Concurrency\<close>, \<open>Map_Reclaim\<close>, \<open>Profiler_Concurrency\<close>, and the
  race at the end of \<open>Signal_Handler\<close>), on sequentially consistent memory.

  \<^bold>\<open>What the lemmas show.\<close> Of the queue: with any number of producers nothing faults, slots have one owner, samples come out in the
  order of their reservations, and a committed sample does come out; also the one schedule that breaks it. Of the map: \<open>put\<close>, \<open>get\<close>
  and \<open>remove\<close> act on an abstract map, and a migration keeps that map and ends; a migration by many threads publishes
  nothing before every range is done, and ends once unless a thread joins too late. Operations of many threads on one table act
  as if each happened at one moment, and a range that is moved away beside them moves the latest value of each key, but for a
  write to a key in the midst of its move; two insertions of one hash at a time can lock up a chain. Migrations that overflow hand
  their tables on so that each is freed once. Of the collector: no table is deleted while a
  thread may read it. Of the log and the profile: they read back as what was written. Of the timer: intervals stay within the bounds
  set. Of the processor: what it logs is what was accepted, and stopping waits for it. Of the profiler and the agent: invariants that every
  operation, every callback, every command from the socket keeps, without a fault. Where the code does not do what it means to, the
  property of kind \<open>error\<close> gives the circumstances.

  \<^bold>\<open>Loops, bounds and fuel.\<close> Loops that end are functions with their termination proof. Those that may not are of type
  \<open>result option\<close>, where \<open>None\<close> is not returning: the chain walk of \<open>find\<close>, \<open>participate\<close> and \<open>put\<close> (\<open>partial_function\<close>), and the theorems say
  that they return. A spin whose end depends on another thread is run along a schedule (\<open>await_worker\<close>), or is a
  fault when no other thread exists (\<open>Spins_Forever\<close>). Fuel occurs in \<open>drain\<close>, which needs one more \<open>pop\<close> than the queue has
  items (\<open>Capacity\<close> is enough), and in the readers \<open>decode_all\<close> and that of the profile, where each record takes a byte at least, so
  the length of the input is enough.

  \<^bold>\<open>Parameters.\<close> The JVM (JNI, JVMTI, \<open>AsyncGetCallTrace\<close>), libc (\<open>malloc\<close>, \<open>rand\<close>, \<open>setitimer\<close>, sockets), zlib and protocol buffers are
  arguments of the definitions that call them. What is assumed of them is named: \<open>malloc_spec\<close>, \<open>system_ok\<close>,
  \<open>agct_spec\<close> and the like, each with a concrete instance.

  \<^bold>\<open>Not modelled.\<close> Messages on the console, the points at which the components count for \<open>Trace_Counters\<close>, and the statistics of
  \<open>DEBUG_MAP_GC\<close>, which change nothing else; \<open>ErrnoRaii\<close>, which nothing uses; memory orders weaker than sequential consistency. The concurrent views of the map (one
  table, one range that moves, the threads of one migration, the epochs) are separate theories; the loop of \<open>put\<close> over a migration by
  many threads is not composed from them. The Java classes, the protobuf schemas and the tests are not part of the recorder's
  implementation.
\<close>

end
